(* ===== verification/Prelude.thy ===== *)
theory Prelude
  imports Main "HOL-Library.AList" "HOL-Library.Word" "HOL-Library.Signed_Division"
    "HOL-Library.Monad_Syntax"
begin

text \<open>
  Shared vocabulary of the development.

  \<^item> the machine types of the program: hashes (\<open>uint256\<close>), node identifiers, network times
    (\<open>NetClock\<close> counts seconds in 32 bits), and the C++ conversions between \<open>int\<close> and
    \<open>size_t\<close>;
  \<^item> hash maps as association lists, whose order is the iteration order of the container, and
    \<open>std::map\<close> as association lists sorted by key;
  \<^item> \<open>foldM\<close>, a loop whose body may fail (an assertion of the source, or the dereference of
    an empty optional, is the value \<open>None\<close>), with its invariant rules;
  \<^item> an interface for components that keep an invariant under their operations, with the lemma
    that a whole run of operations keeps it.
\<close>

section \<open>Fact collections\<close>

named_theorems consensus_simps \<open>selector and update equations of the consensus state\<close>
named_theorems inv_intros \<open>preservation rules of component invariants\<close>

section \<open>Machine types and conversions\<close>

type_synonym uint256 = "256 word"
type_synonym NodeID = "160 word"
type_synonym NetTime = "32 word"
type_synonym NetDuration = "32 word"
type_synonym Seq = "32 word"
type_synonym millis = int
type_synonym nanos = int

text \<open>The item of a SHAMap: a key and its serialised content. A transaction is such an item.\<close>

record SHAMapItem =
  item_key :: uint256
  item_data :: "8 word list"

text \<open>Conversion of an \<open>int\<close> operand to \<open>size_t\<close>, and of a \<open>size_t\<close> to \<open>int\<close>.\<close>

definition size_of_int :: "int \<Rightarrow> nat" where
  "size_of_int i = nat (take_bit 64 i)"

definition int_of_size :: "nat \<Rightarrow> int" where
  "int_of_size n = signed_take_bit 31 (int n)"

definition narrow_int :: "int \<Rightarrow> int" where
  "narrow_int i = signed_take_bit 31 i"

lemma size_of_int_nonneg:
  assumes "0 \<le> i" "i < 2 ^ 64"
  shows "size_of_int i = nat i"
  using assms by (simp add: size_of_int_def take_bit_int_eq_self)

lemma int_of_size_small:
  assumes "n < 2 ^ 31"
  shows "int_of_size n = int n"
proof -
  have "- (2 ^ 31) \<le> int n" and "int n < 2 ^ 31"
    using assms by auto
  then show ?thesis
    unfolding int_of_size_def by (simp add: signed_take_bit_int_eq_self)
qed

lemma sdiv_nonneg:
  fixes a b :: int
  assumes "0 \<le> a" "0 < b"
  shows "a sdiv b = a div b"
  using assms by (cases "a = 0") (simp_all add: signed_divide_int_def)

lemma int_le_div_iff:
  fixes q a b :: int
  assumes "0 < b"
  shows "q \<le> a div b \<longleftrightarrow> q * b \<le> a"
proof
  assume "q \<le> a div b"
  then have "q * b \<le> a div b * b" using assms by (simp add: mult_right_mono)
  also have "\<dots> \<le> a" using assms by (simp add: minus_mod_eq_div_mult [symmetric])
  finally show "q * b \<le> a" .
next
  assume "q * b \<le> a"
  then have "q * b div b \<le> a div b" using assms by (rule zdiv_mono1)
  then show "q \<le> a div b" using assms by simp
qed

lemma word_less_succ:
  fixes x :: "'a::len word"
  assumes "x \<noteq> - 1"
  shows "x < x + 1"
proof -
  have "x + 1 \<noteq> 0" using assms by (metis add_eq_0_iff2 add.commute minus_unique)
  then have "unat (x + 1) = Suc (unat x)"
    by (metis unatSuc add.commute)
  then show ?thesis by (simp add: word_less_nat_alt)
qed

section \<open>Loops whose body may fail\<close>

fun foldM :: "('a \<Rightarrow> 's \<Rightarrow> 's option) \<Rightarrow> 'a list \<Rightarrow> 's \<Rightarrow> 's option" where
  "foldM f [] s = Some s"
| "foldM f (x # xs) s = do { s' \<leftarrow> f x s; foldM f xs s' }"

definition assertThat :: "bool \<Rightarrow> unit option" where
  "assertThat b = (if b then Some () else None)"

lemma assertThat_True [simp]: "assertThat True = Some ()"
  and assertThat_False [simp]: "assertThat False = None"
  by (simp_all add: assertThat_def)

lemma foldM_append: "foldM f (xs @ ys) s = do { s' \<leftarrow> foldM f xs s; foldM f ys s' }"
  by (induction xs arbitrary: s) (auto split: Option.bind_splits)

text \<open>
  Total correctness of a loop: an invariant, indexed by the elements already processed, that each
  iteration keeps, holds for the result, and there is a result.
\<close>

lemma foldM_total_prefix:
  assumes "I [] s"
    and "\<And>ys x zs t. xs = ys @ x # zs \<Longrightarrow> I ys t \<Longrightarrow> \<exists>t'. f x t = Some t' \<and> I (ys @ [x]) t'"
  shows "\<exists>t. foldM f xs s = Some t \<and> I xs t"
proof -
  have "\<exists>t. foldM f zs s' = Some t \<and> I xs t" if "xs = ys @ zs" "I ys s'" for ys zs s'
    using that
  proof (induction zs arbitrary: ys s')
    case Nil
    then show ?case by simp
  next
    case (Cons z zs)
    obtain t' where t': "f z s' = Some t'" "I (ys @ [z]) t'"
      using assms(2)[OF Cons.prems] by blast
    with Cons.IH[of "ys @ [z]" t'] Cons.prems(1) show ?case by simp
  qed
  from this[of "[]" xs s] assms(1) show ?thesis by simp
qed

lemma foldM_total:
  assumes "I s"
    and "\<And>x t. x \<in> set xs \<Longrightarrow> I t \<Longrightarrow> \<exists>t'. f x t = Some t' \<and> I t'"
  shows "\<exists>t. foldM f xs s = Some t \<and> I t"
  using foldM_total_prefix[of "\<lambda>_. I" s xs f] assms by auto

text \<open>Partial correctness, for what every iteration keeps whether or not a later one fails.\<close>

lemma foldM_keeps:
  assumes "foldM f xs s = Some t" "I s"
    and "\<And>x u u'. x \<in> set xs \<Longrightarrow> I u \<Longrightarrow> f x u = Some u' \<Longrightarrow> I u'"
  shows "I t"
  using assms
proof (induction xs arbitrary: s)
  case Nil
  then show ?case by simp
next
  case (Cons x xs)
  from Cons.prems(1) obtain s' where "f x s = Some s'" "foldM f xs s' = Some t"
    by (auto split: Option.bind_splits)
  with Cons show ?case by (meson list.set_intros)
qed

section \<open>Hash maps as association lists\<close>

text \<open>
  \<open>emplace\<close> of a C++ map: the entry is added only when the key is new. The library's
  \<^const>\<open>AList.update\<close> is \<open>insert_or_assign\<close> and \<^const>\<open>AList.delete\<close> is \<open>erase\<close>.
\<close>

definition al_emplace :: "'k \<Rightarrow> 'v \<Rightarrow> ('k \<times> 'v) list \<Rightarrow> ('k \<times> 'v) list" where
  "al_emplace k v al = (case map_of al k of None \<Rightarrow> al @ [(k, v)] | Some _ \<Rightarrow> al)"

abbreviation al_keys :: "('k \<times> 'v) list \<Rightarrow> 'k set" where
  "al_keys al \<equiv> fst ` set al"

abbreviation al_distinct :: "('k \<times> 'v) list \<Rightarrow> bool" where
  "al_distinct al \<equiv> distinct (map fst al)"

lemma map_of_al_emplace:
  "map_of (al_emplace k v al) = (case map_of al k of None \<Rightarrow> (map_of al)(k \<mapsto> v) | Some _ \<Rightarrow> map_of al)"
  by (auto simp: al_emplace_def map_add_def fun_eq_iff split: option.splits)

lemma al_distinct_emplace [simp]: "al_distinct al \<Longrightarrow> al_distinct (al_emplace k v al)"
  by (auto simp: al_emplace_def map_of_eq_None_iff split: option.splits)

lemma al_keys_emplace [simp]: "al_keys (al_emplace k v al) = insert k (al_keys al)"
  by (auto simp: al_emplace_def dest: map_of_SomeD split: option.splits)
    (metis fst_conv imageI map_of_SomeD)

lemma al_keys_map_of: "k \<in> al_keys al \<longleftrightarrow> map_of al k \<noteq> None"
  by (simp add: map_of_eq_None_iff)

lemma al_keys_delete [simp]: "al_keys (AList.delete k al) = al_keys al - {k}"
  by (auto simp: AList.delete_eq)

lemma al_keys_update [simp]: "al_keys (AList.update k v al) = insert k (al_keys al)"
  by (induction al) auto

lemma set_update_cases: "x \<in> set (AList.update k v al) \<Longrightarrow> x = (k, v) \<or> x \<in> set al"
  by (induction al) (auto split: if_splits)

lemma al_distinct_delete [simp]: "al_distinct al \<Longrightarrow> al_distinct (AList.delete k al)"
  by (rule distinct_delete)

lemma al_distinct_update [simp]: "al_distinct al \<Longrightarrow> al_distinct (AList.update k v al)"
  by (rule distinct_update)

text \<open>A loop that updates every value of a map.\<close>

lemma map_fst_map_values [simp]:
  "map fst (map (\<lambda>(k, v). (k, f v)) al) = map fst al"
  "map (fst \<circ> (\<lambda>(k, v). (k, f v))) al = map fst al"
  by (induction al) auto

lemma al_keys_map_values [simp]: "al_keys (map (\<lambda>(k, v). (k, f v)) al) = al_keys al"
  by force

section \<open>Ordered maps as sorted association lists\<close>

text \<open>
  \<open>std::map\<close>: iteration is in increasing key order. \<open>om_upd k d f m\<close> is \<open>m[k] = f(m[k])\<close>,
  where \<open>operator[]\<close> first creates the entry with the value \<open>d\<close> when it is missing.
\<close>

fun om_upd :: "'k::linorder \<Rightarrow> 'v \<Rightarrow> ('v \<Rightarrow> 'v) \<Rightarrow> ('k \<times> 'v) list \<Rightarrow> ('k \<times> 'v) list" where
  "om_upd k d f [] = [(k, f d)]"
| "om_upd k d f (kv # m) =
     (if k < fst kv then (k, f d) # kv # m
      else if k = fst kv then (k, f (snd kv)) # m
      else kv # om_upd k d f m)"

abbreviation om_sorted :: "('k::linorder \<times> 'v) list \<Rightarrow> bool" where
  "om_sorted m \<equiv> sorted_wrt (<) (map fst m)"

lemma om_upd_keys: "al_keys (om_upd k d f m) = insert k (al_keys m)"
  by (induction m) auto

lemma om_sorted_upd: "om_sorted m \<Longrightarrow> om_sorted (om_upd k d f m)"
proof (induction m)
  case Nil
  then show ?case by simp
next
  case (Cons kv m)
  then show ?case using om_upd_keys[of k d f m]
    by (auto simp: less_le_trans)
qed

lemma om_sorted_distinct: "om_sorted m \<Longrightarrow> al_distinct m"
  by (simp add: strict_sorted_iff)

lemma map_of_om_upd:
  "om_sorted m \<Longrightarrow> map_of (om_upd k d f m) =
     (map_of m)(k \<mapsto> f (case map_of m k of None \<Rightarrow> d | Some v \<Rightarrow> v))"
proof (induction m)
  case Nil
  then show ?case by simp
next
  case (Cons kv m)
  have "map_of m k = None" if "k < fst kv"
    using Cons.prems that by (force simp: map_of_eq_None_iff)
  then show ?case using Cons by (cases kv) auto
qed

section \<open>Invariants of components\<close>

text \<open>
  A component with a state, operations that may fail and an invariant. The provider shows that
  each operation allowed by the guard returns and keeps the invariant; the client obtains the
  same for every sequence of operations each of which is allowed when it is issued.
\<close>

fun guarded :: "('op \<Rightarrow> 's \<Rightarrow> 's option) \<Rightarrow> ('op \<Rightarrow> 's \<Rightarrow> bool) \<Rightarrow> 'op list \<Rightarrow> 's \<Rightarrow> bool" where
  "guarded step allowed [] s \<longleftrightarrow> True"
| "guarded step allowed (op # ops) s \<longleftrightarrow>
     allowed op s \<and> (case step op s of None \<Rightarrow> True | Some t \<Rightarrow> guarded step allowed ops t)"

locale invariant_component =
  fixes step :: "'op \<Rightarrow> 's \<Rightarrow> 's option"
    and inv :: "'s \<Rightarrow> bool"
    and allowed :: "'op \<Rightarrow> 's \<Rightarrow> bool"
  assumes step_total: "inv s \<Longrightarrow> allowed op s \<Longrightarrow> \<exists>s'. step op s = Some s' \<and> inv s'"
begin

lemma run_total: "inv s \<Longrightarrow> guarded step allowed ops s \<Longrightarrow> \<exists>t. foldM step ops s = Some t \<and> inv t"
proof (induction ops arbitrary: s)
  case (Cons op ops)
  then obtain t where "step op s = Some t" "inv t" using step_total[of s op] by auto
  with Cons show ?case by simp
qed simp

text \<open>A relation that holds across every allowed step holds across a run.\<close>

lemma run_relation:
  assumes "inv s" "guarded step allowed ops s" "list_all Q ops" "foldM step ops s = Some t"
    and refl: "\<And>s. R s s" and trans: "\<And>s t u. R s t \<Longrightarrow> R t u \<Longrightarrow> R s u"
    and one: "\<And>op s t. inv s \<Longrightarrow> allowed op s \<Longrightarrow> Q op \<Longrightarrow> step op s = Some t \<Longrightarrow> R s t"
  shows "R s t"
  using assms(1-4)
proof (induction ops arbitrary: s)
  case Nil
  then show ?case using refl by simp
next
  case (Cons op ops)
  then obtain u where u: "step op s = Some u" "inv u" using step_total[of s op] by auto
  with Cons.prems Cons.IH[of u] have "R u t" by simp
  with one[of s op u] Cons.prems u trans show ?case by auto
qed

end

end
