(* ===== verification/Ledger_Timing.thy ===== *)
theory Ledger_Timing
  imports Prelude
begin

text \<open>
  Close times of ledgers: \<^verbatim>\<open>src/ripple/consensus/LedgerTiming.h\<close>. Times and resolutions
  are the 32-bit second counts of \<open>NetClock\<close>, so additions wrap around. A zero resolution makes the
  remainder of \<open>roundCloseTime\<close> a division by zero, which is the value \<open>None\<close>.
\<close>

section \<open>Definitions\<close>

definition ledgerPossibleTimeResolutions :: "NetDuration list" where
  "ledgerPossibleTimeResolutions = [10, 20, 30, 60, 90, 120]"

definition ledgerDefaultTimeResolution :: NetDuration where
  "ledgerDefaultTimeResolution = ledgerPossibleTimeResolutions ! 2"

definition ledgerGenesisTimeResolution :: NetDuration where
  "ledgerGenesisTimeResolution = ledgerPossibleTimeResolutions ! 0"

definition increaseLedgerTimeResolutionEvery :: Seq where
  "increaseLedgerTimeResolutionEvery = 8"

definition decreaseLedgerTimeResolutionEvery :: Seq where
  "decreaseLedgerTimeResolutionEvery = 1"

text \<open>
  The iterator of the source is an index into the table. The source asserts that the sequence is
  not zero and that the resolution is in the table, and then handles a missing resolution itself:
  the handling is what is modelled.
\<close>

definition getNextLedgerTimeResolution :: "NetDuration \<Rightarrow> bool \<Rightarrow> Seq \<Rightarrow> NetDuration" where
  "getNextLedgerTimeResolution previousResolution previousAgree ledgerSeq =
     (case find (\<lambda>i. ledgerPossibleTimeResolutions ! i = previousResolution)
             [0..<length ledgerPossibleTimeResolutions] of
        None \<Rightarrow> previousResolution
      | Some i \<Rightarrow>
          if \<not> previousAgree \<and> ledgerSeq mod decreaseLedgerTimeResolutionEvery = 0
             \<and> Suc i \<noteq> length ledgerPossibleTimeResolutions
          then ledgerPossibleTimeResolutions ! Suc i
          else if previousAgree \<and> ledgerSeq mod increaseLedgerTimeResolutionEvery = 0
             \<and> i \<noteq> 0
          then ledgerPossibleTimeResolutions ! (i - 1)
          else previousResolution)"

definition roundCloseTime :: "NetTime \<Rightarrow> NetDuration \<Rightarrow> NetTime option" where
  "roundCloseTime closeTime closeResolution =
     (if closeTime = 0 then Some closeTime
      else if closeResolution = 0 then None
      else let closeTime' = closeTime + closeResolution div 2
           in Some (closeTime' - closeTime' mod closeResolution))"

definition effCloseTime :: "NetTime \<Rightarrow> NetDuration \<Rightarrow> NetTime \<Rightarrow> NetTime option" where
  "effCloseTime closeTime resolution priorCloseTime =
     (if closeTime = 0 then Some closeTime
      else map_option (\<lambda>t. max t (priorCloseTime + 1)) (roundCloseTime closeTime resolution))"

section \<open>Rounding\<close>

lemma unat_minus_mod: "unat (s - s mod r) = unat s div unat r * unat r" for s r :: "32 word"
proof -
  have "s mod r \<le> s"
    by (simp add: word_le_nat_alt unat_mod_distrib)
  then have "unat (s - s mod r) = unat s - unat s mod unat r"
    by (simp add: unat_sub unat_mod_distrib)
  then show ?thesis by (simp add: minus_mod_eq_div_mult)
qed

lemma roundCloseTime_eq:
  assumes "t \<noteq> 0" "r \<noteq> 0" and fits: "unat t + unat r div 2 < 2 ^ 32"
  shows "\<exists>t'. roundCloseTime t r = Some t' \<and>
     unat t' = (unat t + unat r div 2) div unat r * unat r"
proof -
  have "unat (t + r div 2) = unat t + unat r div 2"
    using fits by (simp add: unat_word_ariths unat_div)
  with assms show ?thesis by (simp add: roundCloseTime_def Let_def unat_minus_mod)
qed

lemma roundCloseTime_defined: "r \<noteq> 0 \<Longrightarrow> \<exists>t'. roundCloseTime t r = Some t'"
  by (simp add: roundCloseTime_def Let_def)

lemma round_nearest:
  fixes t r :: nat
  assumes "0 < r"
  shows "(t + r div 2) div r * r \<le> t + r div 2" "t + r div 2 < (t + r div 2) div r * r + r"
  using assms dividend_less_div_times[of r "t + r div 2"] by (auto simp: add.commute)

text \<open>
  (C32) When the addition does not wrap, \<open>roundCloseTime\<close> gives a multiple of the resolution that
  is nearest to the close time: at most half the resolution above it, and less than half (rounded
  up) below it, so that a time midway between two multiples is rounded up.
\<close>

theorem roundCloseTime_nearest:
  assumes "t \<noteq> 0" "r \<noteq> 0" "unat t + unat r div 2 < 2 ^ 32"
  shows "\<exists>t'. roundCloseTime t r = Some t' \<and> unat r dvd unat t' \<and>
     unat t' \<le> unat t + unat r div 2 \<and> unat t < unat t' + (unat r - unat r div 2)"
proof -
  have r: "0 < unat r" using assms(2) by (simp add: unat_gt_0)
  obtain t' where "roundCloseTime t r = Some t'"
    and t': "unat t' = (unat t + unat r div 2) div unat r * unat r"
    using roundCloseTime_eq[OF assms] by blast
  moreover have "unat r dvd unat t'" unfolding t' by simp
  moreover have "unat t' \<le> unat t + unat r div 2" "unat t + unat r div 2 < unat t' + unat r"
    unfolding t' using round_nearest[OF r, of "unat t"] by auto
  ultimately show ?thesis by force
qed

theorem roundCloseTime_nearest_witness:
  "\<exists>t'. roundCloseTime 45 30 = Some t' \<and> 30 dvd unat t' \<and> unat t' \<le> 60 \<and> 45 < unat t' + 15"
  using roundCloseTime_nearest[of 45 30] by simp

lemma roundCloseTime_idem:
  assumes "roundCloseTime t r = Some t'" "unat t + unat r < 2 ^ 32" "t \<noteq> 0" "r \<noteq> 0"
    and fits': "unat t' + unat r div 2 < 2 ^ 32"
  shows "roundCloseTime t' r = Some t'"
proof (cases "t' = 0")
  case True
  then show ?thesis by (simp add: roundCloseTime_def)
next
  case False
  have fits: "unat t + unat r div 2 < 2 ^ 32" using assms(2) by linarith
  have r: "0 < unat r" using assms(4) by (simp add: unat_gt_0)
  let ?q = "(unat t + unat r div 2) div unat r"
  have t': "unat t' = ?q * unat r"
    using roundCloseTime_eq[OF assms(3,4) fits] assms(1) by auto
  obtain u where u: "roundCloseTime t' r = Some u"
    and "unat u = (unat t' + unat r div 2) div unat r * unat r"
    using roundCloseTime_eq[OF False assms(4) fits'] by blast
  moreover have "(unat t' + unat r div 2) div unat r = ?q"
    unfolding t' using r by (simp add: div_mult_self3)
  ultimately have "unat u = unat t'" using t' by simp
  then show ?thesis using u by (simp add: word_unat_eq_iff)
qed



section \<open>The resolution table\<close>

lemma resolution_index:
  assumes "r \<in> set ledgerPossibleTimeResolutions"
  obtains i where "i < length ledgerPossibleTimeResolutions"
    "ledgerPossibleTimeResolutions ! i = r"
    "find (\<lambda>i. ledgerPossibleTimeResolutions ! i = r) [0..<length ledgerPossibleTimeResolutions] = Some i"
  using assms by (auto simp: ledgerPossibleTimeResolutions_def upt_rec)



lemma getNextLedgerTimeResolution_nonzero:
  assumes "r \<noteq> 0"
  shows "getNextLedgerTimeResolution r agree seq \<noteq> 0"
  using assms
  by (auto simp: getNextLedgerTimeResolution_def ledgerPossibleTimeResolutions_def upt_rec)

end
