(* ===== verification/Consensus_Params.thy ===== *)
theory Consensus_Params
  imports Prelude
begin

text \<open>
  The tuning parameters of consensus (\<^verbatim>\<open>src/ripple/consensus/ConsensusParms.h\<close>) and the
  decisions that depend on counts and times only (\<^verbatim>\<open>src/ripple/consensus/Consensus.cpp\<close>,
  and \<open>participantsNeeded\<close> of \<^verbatim>\<open>Consensus.h\<close>). Durations in milliseconds are signed
  integers and divide towards zero; \<open>size_t\<close> counts of proposers are natural numbers.
\<close>

section \<open>Definitions\<close>

record ConsensusParms =
  validationVALID_WALL :: int
  validationVALID_LOCAL :: int
  validationVALID_EARLY :: int
  proposeFRESHNESS :: int
  proposeINTERVAL :: int
  minCONSENSUS_PCT :: nat
  ledgerIDLE_INTERVAL :: millis
  ledgerMIN_CONSENSUS :: millis
  ledgerMAX_CONSENSUS :: millis
  ledgerMIN_CLOSE :: millis
  ledgerGRANULARITY :: millis
  avMIN_CONSENSUS_TIME :: millis
  avINIT_CONSENSUS_PCT :: nat
  avMID_CONSENSUS_TIME :: nat
  avMID_CONSENSUS_PCT :: nat
  avLATE_CONSENSUS_TIME :: nat
  avLATE_CONSENSUS_PCT :: nat
  avSTUCK_CONSENSUS_TIME :: nat
  avSTUCK_CONSENSUS_PCT :: nat
  avCT_CONSENSUS_PCT :: nat

definition defaultParms :: ConsensusParms where
  "defaultParms = \<lparr>
     validationVALID_WALL = 300,
     validationVALID_LOCAL = 180,
     validationVALID_EARLY = 180,
     proposeFRESHNESS = 20,
     proposeINTERVAL = 12,
     minCONSENSUS_PCT = 80,
     ledgerIDLE_INTERVAL = 15000,
     ledgerMIN_CONSENSUS = 1950,
     ledgerMAX_CONSENSUS = 10000,
     ledgerMIN_CLOSE = 2000,
     ledgerGRANULARITY = 1000,
     avMIN_CONSENSUS_TIME = 5000,
     avINIT_CONSENSUS_PCT = 50,
     avMID_CONSENSUS_TIME = 50,
     avMID_CONSENSUS_PCT = 65,
     avLATE_CONSENSUS_TIME = 85,
     avLATE_CONSENSUS_PCT = 70,
     avSTUCK_CONSENSUS_TIME = 200,
     avSTUCK_CONSENSUS_PCT = 95,
     avCT_CONSENSUS_PCT = 75\<rparr>"

definition shouldCloseLedger ::
  "bool \<Rightarrow> nat \<Rightarrow> nat \<Rightarrow> nat \<Rightarrow> millis \<Rightarrow> millis \<Rightarrow> millis \<Rightarrow> millis \<Rightarrow> ConsensusParms \<Rightarrow> bool" where
  "shouldCloseLedger anyTransactions prevProposers proposersClosed proposersValidated
     prevRoundTime timeSincePrevClose openTime idleInterval parms =
     (if prevRoundTime < - 1000 \<or> 600000 < prevRoundTime \<or> 600000 < timeSincePrevClose then True
      else if prevProposers div 2 < proposersClosed + proposersValidated then True
      else if \<not> anyTransactions then idleInterval \<le> timeSincePrevClose
      else if openTime < ledgerMIN_CLOSE parms then False
      else if openTime < prevRoundTime sdiv 2 then False
      else True)"

definition checkConsensusReached :: "nat \<Rightarrow> nat \<Rightarrow> bool \<Rightarrow> nat \<Rightarrow> bool" where
  "checkConsensusReached agreeing totalCount count_self minConsensusPct =
     (if totalCount = 0 then True
      else let (agreeing, totalCount) =
               (if count_self then (agreeing + 1, totalCount + 1) else (agreeing, totalCount));
             currentPercentage = agreeing * 100 div totalCount
           in minConsensusPct \<le> currentPercentage)"

datatype ConsensusState = No | MovedOn | Yes

definition checkConsensus ::
  "nat \<Rightarrow> nat \<Rightarrow> nat \<Rightarrow> nat \<Rightarrow> millis \<Rightarrow> millis \<Rightarrow> ConsensusParms \<Rightarrow> bool \<Rightarrow> ConsensusState" where
  "checkConsensus prevProposers currentProposers currentAgree currentFinished
     previousAgreeTime currentAgreeTime parms proposing =
     (if currentAgreeTime \<le> ledgerMIN_CONSENSUS parms then No
      else if currentProposers < prevProposers * 3 div 4
           \<and> currentAgreeTime < previousAgreeTime + ledgerMIN_CONSENSUS parms then No
      else if checkConsensusReached currentAgree currentProposers proposing
                (minCONSENSUS_PCT parms) then Yes
      else if checkConsensusReached currentFinished currentProposers False
                (minCONSENSUS_PCT parms) then MovedOn
      else No)"

definition participantsNeeded :: "int \<Rightarrow> int \<Rightarrow> int" where
  "participantsNeeded participants percent =
     (let result = (participants * percent + percent sdiv 2) sdiv 100
      in if result = 0 then 1 else result)"

text \<open>
  The threshold that grows with the progress of the round, shared by the votes on disputed
  transactions and by the vote on the close time. The comparison of the \<open>int\<close> progress with the
  \<open>size_t\<close> parameter converts the former.
\<close>

definition neededWeightPct :: "ConsensusParms \<Rightarrow> int \<Rightarrow> nat" where
  "neededWeightPct p percentTime =
     (if size_of_int percentTime < avMID_CONSENSUS_TIME p then avINIT_CONSENSUS_PCT p
      else if size_of_int percentTime < avLATE_CONSENSUS_TIME p then avMID_CONSENSUS_PCT p
      else if size_of_int percentTime < avSTUCK_CONSENSUS_TIME p then avLATE_CONSENSUS_PCT p
      else avSTUCK_CONSENSUS_PCT p)"

section \<open>Thresholds\<close>

lemma pct_reached_iff:
  fixes a t p :: nat
  assumes "0 < t"
  shows "p \<le> a * 100 div t \<longleftrightarrow> p * t \<le> a * 100"
  using assms by (simp add: less_eq_div_iff_mult_less_eq)

text \<open>
  Consensus is declared exactly when the agreeing share, counting this node when it
  proposes, reaches the percentage; a node that sees nobody else always has consensus.
\<close>

lemma checkConsensusReached_iff:
  "checkConsensusReached agree totalCount self pct \<longleftrightarrow>
     totalCount = 0 \<or> pct * (totalCount + of_bool self) \<le> (agree + of_bool self) * 100"
  by (auto simp: checkConsensusReached_def Let_def pct_reached_iff less_eq_div_iff_mult_less_eq)



text \<open>
  The avalanche threshold never decreases as the round progresses, so a later vote is never
  easier to win than an earlier one.
\<close>

lemma neededWeightPct_mono:
  assumes "0 \<le> p1" "p1 \<le> p2" "p2 < 2 ^ 31"
  shows "neededWeightPct defaultParms p1 \<le> neededWeightPct defaultParms p2"
  using assms by (auto simp: neededWeightPct_def defaultParms_def size_of_int_nonneg)

lemma participantsNeeded_pos:
  assumes "0 \<le> n" "0 \<le> pct"
  shows "1 \<le> participantsNeeded n pct"
proof -
  have "0 \<le> (n * pct + pct div 2) div 100"
    using assms by (simp add: pos_imp_zdiv_nonneg_iff)
  then show ?thesis using assms
    by (auto simp: participantsNeeded_def Let_def sdiv_nonneg)
qed

text \<open>
  The number of participants needed for a percentage differs from the exact share by less
  than one participant, and is at least one.
\<close>

lemma participantsNeeded_close:
  assumes "0 \<le> n" "0 \<le> pct" "pct \<le> 100"
  shows "1 \<le> participantsNeeded n pct
    \<and> n * pct < participantsNeeded n pct * 100 + 100
    \<and> (100 \<le> n * pct + pct div 2 \<longrightarrow> participantsNeeded n pct * 100 \<le> n * pct + 50)"
proof -
  define h where "h = pct div 2"
  define q where "q = (n * pct + h) div 100"
  have x: "0 \<le> n * pct + h" and half: "h \<le> 50" "0 \<le> h"
    using assms by (auto simp: h_def)
  have low: "q * 100 \<le> n * pct + h" "n * pct + h < q * 100 + 100"
    unfolding q_def by presburger+
  have eq: "participantsNeeded n pct = (if q = 0 then 1 else q)"
    using assms x by (simp add: participantsNeeded_def Let_def sdiv_nonneg q_def h_def)
  have "1 \<le> participantsNeeded n pct" by (rule participantsNeeded_pos[OF assms(1,2)])
  moreover have "100 \<le> n * pct + h \<longrightarrow> q \<noteq> 0" using low(2) by auto
  ultimately show ?thesis
    using low half unfolding eq h_def[symmetric] by (auto split: if_splits)
qed

end
