(* ===== verification/Consensus_Proposal.thy ===== *)
theory Consensus_Proposal
  imports Prelude
begin

text \<open>
  Proposed positions (\<^verbatim>\<open>src/ripple/consensus/ConsensusProposal.h\<close>), the enumerations and
  small classes of \<^verbatim>\<open>src/ripple/consensus/ConsensusTypes.h\<close>. Node, ledger and position
  identifiers are those of the instantiation in \<^verbatim>\<open>RCLCxPeerPos.h\<close>: 160-bit node
  identifiers and 256-bit hashes.
\<close>

section \<open>Enumerations and the phase timer\<close>

datatype ConsensusMode = proposing | observing | wrongLedger | switchedLedger

fun mode_to_string :: "ConsensusMode \<Rightarrow> string" where
  "mode_to_string proposing = ''proposing''"
| "mode_to_string observing = ''observing''"
| "mode_to_string wrongLedger = ''wrongLedger''"
| "mode_to_string switchedLedger = ''switchedLedger''"

datatype ConsensusPhase = popen | establish | accepted

fun phase_to_string :: "ConsensusPhase \<Rightarrow> string" where
  "phase_to_string popen = ''open''"
| "phase_to_string establish = ''establish''"
| "phase_to_string accepted = ''accepted''"

record ConsensusTimer =
  tm_start :: nanos
  tm_dur :: millis

definition timer_read :: "ConsensusTimer \<Rightarrow> millis" where
  "timer_read t = tm_dur t"

definition timer_tick_fixed :: "millis \<Rightarrow> ConsensusTimer \<Rightarrow> ConsensusTimer" where
  "timer_tick_fixed fixed t = t\<lparr>tm_dur := tm_dur t + fixed\<rparr>"

definition timer_reset :: "nanos \<Rightarrow> ConsensusTimer \<Rightarrow> ConsensusTimer" where
  "timer_reset tp t = t\<lparr>tm_start := tp, tm_dur := 0\<rparr>"

definition timer_tick :: "nanos \<Rightarrow> ConsensusTimer \<Rightarrow> ConsensusTimer" where
  "timer_tick tp t = t\<lparr>tm_dur := (tp - tm_start t) sdiv 1000000\<rparr>"

record ConsensusCloseTimes =
  ct_peers :: "(NetTime \<times> int) list"
  ct_self :: NetTime

section \<open>Proposals\<close>

definition seqJoin :: "32 word" where
  "seqJoin = 0"

definition seqLeave :: "32 word" where
  "seqLeave = 0xffffffff"

record ConsensusProposal =
  previousLedger :: uint256
  position :: uint256
  closeTime :: NetTime
  seenTime :: NetTime
  proposeSeq :: "32 word"
  nodeID :: NodeID

definition isInitial :: "ConsensusProposal \<Rightarrow> bool" where
  "isInitial p \<longleftrightarrow> proposeSeq p = seqJoin"

definition isBowOut :: "ConsensusProposal \<Rightarrow> bool" where
  "isBowOut p \<longleftrightarrow> proposeSeq p = seqLeave"

definition isStale :: "NetTime \<Rightarrow> ConsensusProposal \<Rightarrow> bool" where
  "isStale cutoff p \<longleftrightarrow> seenTime p \<le> cutoff"

definition changePosition ::
  "uint256 \<Rightarrow> NetTime \<Rightarrow> NetTime \<Rightarrow> ConsensusProposal \<Rightarrow> ConsensusProposal" where
  "changePosition newPosition newCloseTime now p =
     (let p' = p\<lparr>position := newPosition, closeTime := newCloseTime, seenTime := now\<rparr>
      in if proposeSeq p' \<noteq> seqLeave then p'\<lparr>proposeSeq := proposeSeq p' + 1\<rparr> else p')"

definition bowOut :: "NetTime \<Rightarrow> ConsensusProposal \<Rightarrow> ConsensusProposal" where
  "bowOut now p = p\<lparr>seenTime := now, proposeSeq := seqLeave\<rparr>"

section \<open>Sequence numbers of proposals\<close>

lemma seqLeave_max: "s \<le> seqLeave"
proof -
  have "seqLeave = - 1" by (simp add: seqLeave_def)
  then show ?thesis by (metis word_order.extremum)
qed

lemma changePosition_simps [simp]:
  "position (changePosition i c n p) = i"
  "closeTime (changePosition i c n p) = c"
  "seenTime (changePosition i c n p) = n"
  "nodeID (changePosition i c n p) = nodeID p"
  "previousLedger (changePosition i c n p) = previousLedger p"
  by (simp_all add: changePosition_def Let_def)

lemma bowOut_simps [simp]:
  "position (bowOut n p) = position p"
  "closeTime (bowOut n p) = closeTime p"
  "seenTime (bowOut n p) = n"
  "nodeID (bowOut n p) = nodeID p"
  "previousLedger (bowOut n p) = previousLedger p"
  "isBowOut (bowOut n p)"
  by (simp_all add: bowOut_def isBowOut_def)

text \<open>
  (C36) Successive proposals carry strictly increasing sequence numbers: changing the position of
  a node that has not left increases its number, leaving gives the largest number of all, and a
  node that has left stays so whatever position it takes.
\<close>

theorem proposal_seq_monotone:
  "(if isBowOut p then isBowOut (changePosition i c n p)
    else proposeSeq p < proposeSeq (changePosition i c n p) \<and> proposeSeq p < proposeSeq (bowOut n p))
   \<and> (\<forall>q. proposeSeq q \<le> proposeSeq (bowOut n p))"
proof -
  have m: "seqLeave = - 1" by (simp add: seqLeave_def)
  have "proposeSeq p < proposeSeq p + 1" if "proposeSeq p \<noteq> seqLeave"
    using that unfolding m by (rule word_less_succ)
  moreover have "proposeSeq p < seqLeave" if "proposeSeq p \<noteq> seqLeave"
    using that seqLeave_max by (simp add: order.not_eq_order_implies_strict)
  ultimately show ?thesis
    using seqLeave_max by (simp add: isBowOut_def changePosition_def bowOut_def Let_def)
qed

end
