(* ===== verification/Disputed_Tx.thy ===== *)
theory Disputed_Tx
  imports Consensus_Params
begin

text \<open>
  Votes on a disputed transaction: \<^verbatim>\<open>src/ripple/consensus/DisputedTx.h\<close>. A transaction is
  the \<open>SHAMapItem\<close> that \<open>RCLCxTx\<close> wraps: its key is the transaction identifier. The map of peer
  votes is an association list.

  \<open>vote_tally\<close> is the contract of a tally of yes/no votes by peers, stated as an interface; the
  class is shown to provide it.
\<close>

section \<open>Definitions\<close>

record DisputedTx =
  yays :: int
  nays :: int
  ourVote :: bool
  dtx :: SHAMapItem
  votes :: "(NodeID \<times> bool) list"

definition newDispute :: "SHAMapItem \<Rightarrow> bool \<Rightarrow> DisputedTx" where
  "newDispute tx vote = \<lparr>yays = 0, nays = 0, ourVote = vote, dtx = tx, votes = []\<rparr>"

definition dispute_ID :: "DisputedTx \<Rightarrow> uint256" where
  "dispute_ID d = item_key (dtx d)"

definition setVote :: "NodeID \<Rightarrow> bool \<Rightarrow> DisputedTx \<Rightarrow> DisputedTx" where
  "setVote peer votesYes d =
     (case map_of (votes d) peer of
        None \<Rightarrow>
          (let d' = d\<lparr>votes := AList.update peer votesYes (votes d)\<rparr>
           in if votesYes then d'\<lparr>yays := yays d' + 1\<rparr> else d'\<lparr>nays := nays d' + 1\<rparr>)
      | Some old \<Rightarrow>
          if votesYes \<and> \<not> old then
            d\<lparr>nays := nays d - 1, yays := yays d + 1, votes := AList.update peer True (votes d)\<rparr>
          else if \<not> votesYes \<and> old then
            d\<lparr>nays := nays d + 1, yays := yays d - 1, votes := AList.update peer False (votes d)\<rparr>
          else d)"

definition unVote :: "NodeID \<Rightarrow> DisputedTx \<Rightarrow> DisputedTx" where
  "unVote peer d =
     (case map_of (votes d) peer of
        None \<Rightarrow> d
      | Some v \<Rightarrow>
          (let d' = (if v then d\<lparr>yays := yays d - 1\<rparr> else d\<lparr>nays := nays d - 1\<rparr>)
           in d'\<lparr>votes := AList.delete peer (votes d')\<rparr>))"

definition updateVote ::
  "int \<Rightarrow> bool \<Rightarrow> ConsensusParms \<Rightarrow> DisputedTx \<Rightarrow> bool \<times> DisputedTx" where
  "updateVote percentTime isProposing p d =
     (if ourVote d \<and> nays d = 0 then (False, d)
      else if \<not> ourVote d \<and> yays d = 0 then (False, d)
      else
        let newPosition =
              (if isProposing then
                 let weight = (yays d * 100 + (if ourVote d then 100 else 0))
                                sdiv (nays d + yays d + 1)
                 in if size_of_int percentTime < avMID_CONSENSUS_TIME p
                    then avINIT_CONSENSUS_PCT p < size_of_int weight
                    else if size_of_int percentTime < avLATE_CONSENSUS_TIME p
                    then avMID_CONSENSUS_PCT p < size_of_int weight
                    else if size_of_int percentTime < avSTUCK_CONSENSUS_TIME p
                    then avLATE_CONSENSUS_PCT p < size_of_int weight
                    else avSTUCK_CONSENSUS_PCT p < size_of_int weight
               else nays d < yays d)
        in if newPosition = ourVote d then (False, d)
           else (True, d\<lparr>ourVote := newPosition\<rparr>))"

section \<open>The contract of a tally\<close>

text \<open>
  \<open>tally_votes\<close> is what the tally means, the yes/no vote of each peer that voted; the counters
  are determined by it.
\<close>

locale vote_tally =
  fixes set_vote :: "'p \<Rightarrow> bool \<Rightarrow> 't \<Rightarrow> 't"
    and un_vote :: "'p \<Rightarrow> 't \<Rightarrow> 't"
    and tally_votes :: "'t \<Rightarrow> 'p \<Rightarrow> bool option"
    and yes_count :: "'t \<Rightarrow> int"
    and no_count :: "'t \<Rightarrow> int"
    and tally_ok :: "'t \<Rightarrow> bool"
  assumes votes_set: "tally_votes (set_vote p v t) = (tally_votes t)(p \<mapsto> v)"
    and votes_un: "tally_ok t \<Longrightarrow> tally_votes (un_vote p t) = (tally_votes t)(p := None)"
    and ok_set: "tally_ok t \<Longrightarrow> tally_ok (set_vote p v t)"
    and ok_un: "tally_ok t \<Longrightarrow> tally_ok (un_vote p t)"
    and finite_votes: "tally_ok t \<Longrightarrow> finite (dom (tally_votes t))"
    and yes_card: "tally_ok t \<Longrightarrow> yes_count t = int (card {p. tally_votes t p = Some True})"
    and no_card: "tally_ok t \<Longrightarrow> no_count t = int (card {p. tally_votes t p = Some False})"
begin

lemma counts_bounded:
  assumes "tally_ok t"
  shows "0 \<le> yes_count t" "0 \<le> no_count t"
    "yes_count t + no_count t = int (card (dom (tally_votes t)))"
proof -
  have dom: "dom (tally_votes t) = {p. tally_votes t p = Some True} \<union> {p. tally_votes t p = Some False}"
  proof (rule set_eqI)
    fix p
    show "p \<in> dom (tally_votes t) \<longleftrightarrow>
        p \<in> {p. tally_votes t p = Some True} \<union> {p. tally_votes t p = Some False}"
      by (cases "tally_votes t p") auto
  qed
  then have "finite {p. tally_votes t p = Some True}" "finite {p. tally_votes t p = Some False}"
    using finite_votes[OF assms] by (simp_all add: finite_Un)
  then have "card (dom (tally_votes t)) =
      card {p. tally_votes t p = Some True} + card {p. tally_votes t p = Some False}"
    unfolding dom by (intro card_Un_disjoint) auto
  then show "yes_count t + no_count t = int (card (dom (tally_votes t)))"
    using yes_card[OF assms] no_card[OF assms] by simp
qed (simp_all add: yes_card[OF assms] no_card[OF assms])

lemma set_vote_idem: "tally_ok t \<Longrightarrow> tally_votes (set_vote p v (set_vote p w t)) = tally_votes (set_vote p v t)"
  by (simp add: votes_set)

lemma un_vote_set_vote: "tally_ok t \<Longrightarrow> tally_votes (un_vote p (set_vote p v t)) = tally_votes (un_vote p t)"
  by (simp add: votes_set votes_un ok_set)

end

section \<open>Disputed transactions provide the contract\<close>

definition votesFor :: "DisputedTx \<Rightarrow> bool \<Rightarrow> NodeID set" where
  "votesFor d v = {p. map_of (votes d) p = Some v}"

definition dispute_ok :: "DisputedTx \<Rightarrow> bool" where
  "dispute_ok d \<longleftrightarrow> al_distinct (votes d)
     \<and> yays d = int (card (votesFor d True)) \<and> nays d = int (card (votesFor d False))"

lemma finite_votesFor [simp]: "finite (votesFor d v)"
  by (rule finite_subset[OF _ finite_dom_map_of[of "votes d"]]) (auto simp: votesFor_def)

lemma map_of_setVote: "map_of (votes (setVote p v d)) = (map_of (votes d))(p \<mapsto> v)"
  by (auto simp: setVote_def Let_def update_conv fun_eq_iff split: option.splits)

lemma map_of_unVote:
  "al_distinct (votes d) \<Longrightarrow> map_of (votes (unVote p d)) = (map_of (votes d))(p := None)"
  by (auto simp: unVote_def Let_def delete_conv fun_eq_iff split: option.splits)

lemma setVote_simps [simp]:
  "dtx (setVote p v d) = dtx d" "ourVote (setVote p v d) = ourVote d"
  by (auto simp: setVote_def Let_def split: option.splits)

lemma unVote_simps [simp]:
  "dtx (unVote p d) = dtx d" "ourVote (unVote p d) = ourVote d"
  by (auto simp: unVote_def Let_def split: option.splits)

lemma votesFor_setVote:
  "votesFor (setVote p v d) w = (if v = w then insert p (votesFor d w) else votesFor d w - {p})"
  by (auto simp: votesFor_def map_of_setVote)

lemma votesFor_unVote:
  "al_distinct (votes d) \<Longrightarrow> votesFor (unVote p d) w = votesFor d w - {p}"
  by (auto simp: votesFor_def map_of_unVote)

lemma newDispute_simps [simp]:
  "votes (newDispute tx v) = []" "dtx (newDispute tx v) = tx" "ourVote (newDispute tx v) = v"
  "yays (newDispute tx v) = 0" "nays (newDispute tx v) = 0"
  by (simp_all add: newDispute_def)

lemma newDispute_ok [simp]: "dispute_ok (newDispute tx v)"
  by (simp add: dispute_ok_def newDispute_def votesFor_def)

lemma votesFor_pos:
  assumes "map_of (votes d) p = Some v"
  shows "p \<in> votesFor d v" "p \<notin> votesFor d (\<not> v)" "0 < card (votesFor d v)"
proof -
  show p: "p \<in> votesFor d v" and "p \<notin> votesFor d (\<not> v)" using assms by (auto simp: votesFor_def)
  from p show "0 < card (votesFor d v)" by (auto simp: card_gt_0_iff)
qed

lemma votesFor_none: "map_of (votes d) p = None \<Longrightarrow> p \<notin> votesFor d v"
  by (simp add: votesFor_def)

lemma al_distinct_votes_setVote: "al_distinct (votes d) \<Longrightarrow> al_distinct (votes (setVote p v d))"
  unfolding setVote_def Let_def by (simp split: option.split)

lemma al_distinct_votes_unVote: "al_distinct (votes d) \<Longrightarrow> al_distinct (votes (unVote p d))"
  unfolding unVote_def Let_def by (simp split: option.split)

lemma counts_setVote:
  "yays (setVote p v d) = yays d + of_bool (v \<and> map_of (votes d) p \<noteq> Some True)
     - of_bool (\<not> v \<and> map_of (votes d) p = Some True)"
  "nays (setVote p v d) = nays d + of_bool (\<not> v \<and> map_of (votes d) p \<noteq> Some False)
     - of_bool (v \<and> map_of (votes d) p = Some False)"
  unfolding setVote_def Let_def by (simp_all split: option.split)

lemma counts_unVote:
  "yays (unVote p d) = yays d - of_bool (map_of (votes d) p = Some True)"
  "nays (unVote p d) = nays d - of_bool (map_of (votes d) p = Some False)"
  unfolding unVote_def Let_def by (simp_all split: option.split)

lemma card_votesFor_setVote:
  "int (card (votesFor (setVote p v d) w)) = int (card (votesFor d w))
     + of_bool (v = w \<and> map_of (votes d) p \<noteq> Some w) - of_bool (v \<noteq> w \<and> map_of (votes d) p = Some w)"
proof -
  have "p \<in> votesFor d w \<longleftrightarrow> map_of (votes d) p = Some w" by (simp add: votesFor_def)
  then show ?thesis
    using votesFor_pos(3)[of d p w]
    by (auto simp: votesFor_setVote card_insert_if card_Diff_singleton_if int_ops(6))
qed

lemma card_votesFor_unVote:
  assumes "al_distinct (votes d)"
  shows "int (card (votesFor (unVote p d) w)) =
    int (card (votesFor d w)) - of_bool (map_of (votes d) p = Some w)"
proof -
  have "p \<in> votesFor d w \<longleftrightarrow> map_of (votes d) p = Some w" by (simp add: votesFor_def)
  then show ?thesis
    using votesFor_pos(3)[of d p w]
    by (auto simp: votesFor_unVote[OF assms] card_Diff_singleton_if int_ops(6))
qed

lemma setVote_ok: "dispute_ok d \<Longrightarrow> dispute_ok (setVote p v d)"
  unfolding dispute_ok_def card_votesFor_setVote counts_setVote
  by (simp add: al_distinct_votes_setVote)

lemma unVote_ok: "dispute_ok d \<Longrightarrow> dispute_ok (unVote p d)"
  unfolding dispute_ok_def counts_unVote
  by (simp add: al_distinct_votes_unVote card_votesFor_unVote)

lemma dispute_ok_distinct: "dispute_ok d \<Longrightarrow> al_distinct (votes d)"
  by (simp add: dispute_ok_def)

interpretation dispute: vote_tally setVote unVote "\<lambda>d. map_of (votes d)" yays nays dispute_ok
proof unfold_locales
  fix d p v
  show "map_of (votes (setVote p v d)) = (map_of (votes d))(p \<mapsto> v)" by (rule map_of_setVote)
  assume d: "dispute_ok d"
  show "map_of (votes (unVote p d)) = (map_of (votes d))(p := None)"
    by (rule map_of_unVote[OF dispute_ok_distinct[OF d]])
  show "dispute_ok (setVote p v d)" "dispute_ok (unVote p d)"
    using d by (rule setVote_ok, rule unVote_ok)
  show "finite (dom (map_of (votes d)))" by (rule finite_dom_map_of)
  show "yays d = int (card {p. map_of (votes d) p = Some True})"
    "nays d = int (card {p. map_of (votes d) p = Some False})"
    using d unfolding dispute_ok_def votesFor_def by blast+
qed

section \<open>Sequences of votes\<close>

text \<open>A vote of a peer, or the removal of its vote, as the engine issues them.\<close>

datatype vote_op = Cast NodeID bool | Withdraw NodeID

fun apply_vote :: "vote_op \<Rightarrow> DisputedTx \<Rightarrow> DisputedTx" where
  "apply_vote (Cast p v) d = setVote p v d"
| "apply_vote (Withdraw p) d = unVote p d"

fun vote_spec :: "vote_op \<Rightarrow> (NodeID \<rightharpoonup> bool) \<Rightarrow> (NodeID \<rightharpoonup> bool)" where
  "vote_spec (Cast p v) m = m(p \<mapsto> v)"
| "vote_spec (Withdraw p) m = m(p := None)"

lemma apply_votes_spec:
  "dispute_ok d \<Longrightarrow> dispute_ok (fold apply_vote ops d) \<and>
     map_of (votes (fold apply_vote ops d)) = fold vote_spec ops (map_of (votes d))"
proof (induction ops arbitrary: d)
  case Nil
  then show ?case by simp
next
  case (Cons op ops)
  then show ?case
    by (cases op) (simp_all add: setVote_ok unVote_ok map_of_setVote map_of_unVote dispute_ok_distinct
        fun_upd_def)
qed

text \<open>
  (C37) After any sequence of votes and withdrawals the dispute records the last vote of every peer
  that has not withdrawn, and its counters are the numbers of yes and no votes recorded.
\<close>

theorem dispute_refines_votes:
  "let d = fold apply_vote ops (newDispute tx v); m = fold vote_spec ops Map.empty
   in map_of (votes d) = m \<and> yays d = int (card {p. m p = Some True})
      \<and> nays d = int (card {p. m p = Some False}) \<and> ourVote d = v \<and> dtx d = tx"
proof -
  define d where "d = fold apply_vote ops (newDispute tx v)"
  have "dispute_ok d \<and> map_of (votes d) = fold vote_spec ops Map.empty"
    unfolding d_def using apply_votes_spec[of "newDispute tx v" ops]
    by simp
  moreover have "ourVote (fold apply_vote ops e) = ourVote e \<and> dtx (fold apply_vote ops e) = dtx e" for e
  proof (induction ops arbitrary: e)
    case (Cons op ops)
    then show ?case by (cases op) simp_all
  qed simp
  ultimately show ?thesis
    using dispute.yes_card[of d] dispute.no_card[of d]
    by (simp add: Let_def d_def[symmetric]) (simp add: d_def)
qed

section \<open>Updating our vote\<close>

lemma updateVote_alt:
  "updateVote percentTime isProposing p d =
     (if ourVote d \<and> nays d = 0 \<or> \<not> ourVote d \<and> yays d = 0 then (False, d)
      else let new = (if isProposing
                 then neededWeightPct p percentTime <
                        size_of_int ((yays d * 100 + 100 * of_bool (ourVote d)) sdiv (nays d + yays d + 1))
                 else nays d < yays d)
           in (new \<noteq> ourVote d, d\<lparr>ourVote := new\<rparr>))"
  by (auto simp: updateVote_def neededWeightPct_def Let_def)

lemma updateVote_simps [simp]:
  "votes (snd (updateVote t b p d)) = votes d"
  "yays (snd (updateVote t b p d)) = yays d"
  "nays (snd (updateVote t b p d)) = nays d"
  "dtx (snd (updateVote t b p d)) = dtx d"
  by (simp_all add: updateVote_alt Let_def)

lemma updateVote_changed: "fst (updateVote t b p d) \<longleftrightarrow> ourVote (snd (updateVote t b p d)) \<noteq> ourVote d"
  by (simp add: updateVote_alt Let_def)

lemma updateVote_ok: "dispute_ok d \<Longrightarrow> dispute_ok (snd (updateVote t b p d))"
  by (simp add: dispute_ok_def votesFor_def)

lemma weight_less_iff:
  assumes "0 \<le> y" "0 \<le> n"
  shows "pct < size_of_int ((y * 100 + 100 * of_bool o1) sdiv (n + y + 1)) \<longleftrightarrow>
    (int pct + 1) * (n + y + 1) \<le> 100 * (y + of_bool o1)"
proof -
  let ?num = "y * 100 + 100 * of_bool o1" and ?den = "n + y + 1"
  have num: "0 \<le> ?num" and den: "0 < ?den" using assms by auto
  have "?num \<le> 100 * ?den" using assms by (simp add: algebra_simps)
  then have "?num div ?den \<le> 100" using den
    by (metis mult.commute nonzero_mult_div_cancel_right zdiv_mono1 less_irrefl)
  moreover have "0 \<le> ?num div ?den" using num den by (simp add: pos_imp_zdiv_nonneg_iff)
  ultimately have "size_of_int (?num sdiv ?den) = nat (?num div ?den)"
    using num den by (simp add: sdiv_nonneg size_of_int_nonneg)
  then have "pct < size_of_int (?num sdiv ?den) \<longleftrightarrow> int pct + 1 \<le> ?num div ?den" by linarith
  also have "\<dots> \<longleftrightarrow> (int pct + 1) * ?den \<le> ?num"
    using den by (rule int_le_div_iff)
  finally show ?thesis by (simp add: algebra_simps)
qed

text \<open>
  (C38) A proposing node votes yes on a disputed transaction exactly when the share of yes votes
  among all votes, its own included, exceeds the threshold for the progress of the round; a node
  that only observes follows the simple majority of its peers. When every recorded vote agrees
  with ours the vote is kept, and the result reports whether it changed.
\<close>

theorem updateVote_threshold:
  assumes "dispute_ok d" "updateVote t isProposing p d = (changed, d')"
  shows "d' = d\<lparr>ourVote := ourVote d'\<rparr> \<and> (changed \<longleftrightarrow> ourVote d' \<noteq> ourVote d) \<and>
    (if nays d = 0 \<and> ourVote d \<or> yays d = 0 \<and> \<not> ourVote d then ourVote d' = ourVote d
     else if isProposing then
       ourVote d' \<longleftrightarrow> (int (neededWeightPct p t) + 1) * (nays d + yays d + 1)
                         \<le> 100 * (yays d + of_bool (ourVote d))
     else ourVote d' \<longleftrightarrow> nays d < yays d)"
proof -
  have "0 \<le> yays d" "0 \<le> nays d" using assms(1) by (auto simp: dispute_ok_def)
  from weight_less_iff[OF this, of "neededWeightPct p t" "ourVote d"] assms(2)
  show ?thesis by (auto simp: updateVote_alt Let_def split: if_splits)
qed

theorem updateVote_threshold_witness:
  "let d = setVote 1 True (setVote 2 True (setVote 3 False
             (newDispute \<lparr>item_key = 9, item_data = []\<rparr> True)))
   in \<not> fst (updateVote 60 True defaultParms d) \<and> fst (updateVote 90 True defaultParms (unVote 1 d))"
proof -
  define d where "d = setVote 1 True (setVote 2 True (setVote 3 False
    (newDispute \<lparr>item_key = 9, item_data = []\<rparr> True)))"
  have ok: "dispute_ok d" "dispute_ok (unVote 1 d)" by (simp_all add: d_def setVote_ok unVote_ok)
  obtain c d' where u: "updateVote 60 True defaultParms d = (c, d')" by fastforce
  obtain c2 d2 where u2: "updateVote 90 True defaultParms (unVote 1 d) = (c2, d2)" by fastforce
  have y: "yays d = 2" "nays d = 1" "ourVote d" "yays (unVote 1 d) = 1" "nays (unVote 1 d) = 1"
    by (simp_all add: d_def newDispute_def setVote_def unVote_def)
  have "neededWeightPct defaultParms 60 = 65" "neededWeightPct defaultParms 90 = 70"
    by (simp_all add: neededWeightPct_def defaultParms_def size_of_int_nonneg)
  then have "\<not> c" "c2"
    using updateVote_threshold[OF ok(1) u] updateVote_threshold[OF ok(2) u2] y by simp_all
  then show ?thesis using u u2 by (simp add: d_def[symmetric])
qed

end
