(* ===== verification/Consensus_Pause.thy ===== *)
theory Consensus_Pause
  imports Complex_Main Consensus_Params "HOL-Library.Log_Nat"
begin

text \<open>
  Whether a node that is ahead of the validated ledger pauses for lagging validators:
  \<open>Consensus::shouldPause\<close> of \<^verbatim>\<open>src/ripple/consensus/Consensus.h\<close>. Counts are 64-bit
  \<open>size_t\<close> values, whose subtraction wraps; the intermediate phases compare \<open>float\<close> values, which
  are the rationals with a 24-bit significand, each operation rounded to nearest, ties to even
  (all values here lie between \<open>2^-64\<close> and \<open>2^65\<close>, far from the exponent limits).
\<close>

section \<open>Single precision arithmetic\<close>

definition roundHalfEven :: "rat \<Rightarrow> int" where
  "roundHalfEven m =
     (let f = \<lfloor>m\<rfloor>; d = m - of_int f
      in if d < 1 / 2 then f else if 1 / 2 < d then f + 1 else if even f then f else f + 1)"

definition f32exponent :: "rat \<Rightarrow> int" where
  "f32exponent x =
     (let (a, b) = quotient_of x; k = bitlen a - bitlen b
      in if 2 powi k \<le> x then k else k - 1)"

definition f32 :: "rat \<Rightarrow> rat" where
  "f32 x =
     (if x = 0 then 0
      else let e = f32exponent \<bar>x\<bar> - 23
           in sgn x * of_int (roundHalfEven (\<bar>x\<bar> * 2 powi (- e))) * 2 powi e)"

definition f32_of_size :: "64 word \<Rightarrow> rat" where
  "f32_of_size w = f32 (of_int (uint w))"

section \<open>Pausing\<close>

definition maxPausePhase :: nat where
  "maxPausePhase = 4"

definition pauseInPhase :: "nat \<Rightarrow> 64 word \<Rightarrow> 64 word \<Rightarrow> 64 word \<Rightarrow> 64 word \<Rightarrow> bool" where
  "pauseInPhase phase quorum totalValidators laggards offline =
     (if phase = 0 then totalValidators - quorum < laggards + offline
      else if phase = maxPausePhase then True
      else
        let nonLaggards = f32_of_size (totalValidators - (laggards + offline));
            quorumRatio = f32 (f32_of_size quorum / f32_of_size totalValidators);
            allowedDissent = f32 (1 - quorumRatio);
            phaseFactor = f32 (of_nat phase / of_nat maxPausePhase)
        in f32 (nonLaggards / f32_of_size totalValidators)
             < f32 (quorumRatio + f32 (allowedDissent * phaseFactor)))"

definition pauseDecision ::
  "32 word \<Rightarrow> 64 word \<Rightarrow> 64 word \<Rightarrow> 64 word \<Rightarrow> 64 word \<Rightarrow> bool \<Rightarrow> bool \<Rightarrow> millis \<Rightarrow> millis \<Rightarrow> bool" where
  "pauseDecision ahead quorum totalValidators laggards offline validator haveValidated roundTime
     maxConsensus =
     (if ahead = 0 \<or> laggards = 0 \<or> totalValidators = 0 \<or> \<not> validator \<or> \<not> haveValidated
         \<or> maxConsensus < roundTime
      then False
      else pauseInPhase (unat (ahead - 1) mod (maxPausePhase + 1)) quorum totalValidators
             laggards offline)"

section \<open>Thresholds\<close>

lemma unat_add_le:
  fixes a b c :: "64 word"
  assumes "unat a + unat b \<le> unat c"
  shows "unat (a + b) = unat a + unat b"
proof -
  have "unat c < 2 ^ 64" by (rule order_less_le_trans[OF unsigned_less]) simp
  with assms have "unat a + unat b < 2 ^ LENGTH(64)" by simp
  then show ?thesis by (rule unat_add_lem[THEN iffD1])
qed

text \<open>
  (C39) The first and the last phase of pausing. For counts that fit together a validator that is
  ahead of the validated ledger while others lag, and whose round is not overdue, pauses in the
  first phase of the cycle exactly when the validators that are neither lagging nor offline are
  fewer than the quorum, and always in the last phase; an overdue round never pauses.
\<close>

theorem pause_thresholds:
  assumes "ahead \<noteq> 0" "laggards \<noteq> 0" "unat laggards + unat offline \<le> unat totalValidators"
    and "unat quorum \<le> unat totalValidators"
  shows "(unat (ahead - 1) mod 5 = 0 \<longrightarrow>
      (pauseDecision ahead quorum totalValidators laggards offline True True rt mx \<longleftrightarrow>
        rt \<le> mx \<and> unat totalValidators - (unat laggards + unat offline) < unat quorum))
    \<and> (unat (ahead - 1) mod 5 = 4 \<longrightarrow>
      (pauseDecision ahead quorum totalValidators laggards offline True True rt mx \<longleftrightarrow> rt \<le> mx))"
proof -
  have "0 < unat laggards" using assms(2) by (simp add: unat_gt_0)
  then have t: "totalValidators \<noteq> 0" using assms(3) by (metis add_is_0 le_zero_eq less_irrefl unat_0)
  have "unat (laggards + offline) = unat laggards + unat offline"
    using assms(3) by (rule unat_add_le)
  moreover have "unat (totalValidators - quorum) = unat totalValidators - unat quorum"
    using assms(4) by (simp add: unat_sub word_le_nat_alt)
  ultimately have "totalValidators - quorum < laggards + offline \<longleftrightarrow>
      unat totalValidators - (unat laggards + unat offline) < unat quorum"
    using assms(3,4) by (auto simp: word_less_nat_alt)
  with assms(1,2) t show ?thesis by (auto simp: pauseDecision_def pauseInPhase_def maxPausePhase_def)
qed

theorem pause_thresholds_witness:
  "pauseDecision 1 8 10 2 1 True True 5000 10000 \<and> \<not> pauseDecision 1 8 10 1 1 True True 5000 10000
   \<and> pauseDecision 5 8 10 1 0 True True 5000 10000"
  using pause_thresholds[of 1 2 1 10 8 5000 10000] pause_thresholds[of 1 1 1 10 8 5000 10000]
    pause_thresholds[of 5 1 0 10 8 5000 10000] by simp

text \<open>
  (C40) An unreachable quorum is never waited for in the first phase. \<open>ValidatorList\<close> reports a
  quorum that cannot be reached as the largest \<open>size_t\<close>; the subtraction from the number of
  validators then wraps around, and no number of lagging or offline validators makes the node
  pause, although the quorum is not met.
\<close>

theorem unreachable_quorum_no_pause:
  assumes "unat (ahead - 1) mod 5 = 0" "unat laggards + unat offline \<le> unat totalValidators"
    and "unat totalValidators < 2 ^ 64 - 1"
  shows "\<not> pauseDecision ahead (- 1) totalValidators laggards offline validator haveValidated rt mx"
proof -
  have "unat (laggards + offline) \<le> unat totalValidators"
    using assms(2) unat_add_le[OF assms(2)] by simp
  moreover have "unat (totalValidators - (- 1)) = unat totalValidators + 1"
    using assms(3) unat_add_lem[of totalValidators 1] by simp
  ultimately have "\<not> totalValidators - (- 1) < laggards + offline" by (simp add: word_less_nat_alt)
  with assms(1) show ?thesis by (simp add: pauseDecision_def pauseInPhase_def maxPausePhase_def)
qed

theorem unreachable_quorum_no_pause_witness:
  "\<not> pauseDecision 1 (- 1) 10 7 3 True True 5000 10000"
  by (rule unreachable_quorum_no_pause) simp_all

end
