(* ===== verification/Consensus_Engine.thy ===== *)
theory Consensus_Engine
  imports Ledger_Timing Consensus_Params Consensus_Proposal Disputed_Tx Consensus_Pause
begin

text \<open>
  The generic consensus algorithm: class \<open>Consensus\<close> of
  \<^verbatim>\<open>src/ripple/consensus/Consensus.h\<close>, every member function that changes its state.

  The class is a template over an adaptor. What it asks of the transaction sets is the record
  \<open>TxSetOps\<close>; what it asks of the adaptor during one call is the record \<open>Adaptor\<close>, a snapshot of
  the adaptor's answers; what it tells the adaptor is appended to the list \<open>out\<close> of the state.
  Hash maps are association lists in iteration order. An assertion that fails, or a dereference of
  an empty optional, or a division by zero, is the result \<open>None\<close>.

  \<open>startRoundInternal\<close>, \<open>timerEntry\<close>, \<open>checkLedger\<close> and \<open>handleWrongLedger\<close> call each other: the
  last three take the function they call to restart a round as an argument, and
  \<open>startRoundInternal\<close> ties the knot with a bound on the depth of the recursion.
\<close>

section \<open>Ledgers, transaction sets and the adaptor\<close>

record CxLedger =
  l_id :: uint256
  l_seq :: Seq
  l_closeTime :: NetTime
  l_closeTimeResolution :: NetDuration
  l_closeAgree :: bool
  l_parentCloseTime :: NetTime

record 'ts TxSetOps =
  ts_id :: "'ts \<Rightarrow> uint256"
  ts_exists :: "'ts \<Rightarrow> uint256 \<Rightarrow> bool"
  ts_find :: "'ts \<Rightarrow> uint256 \<Rightarrow> SHAMapItem option"
  ts_compare :: "'ts \<Rightarrow> 'ts \<Rightarrow> (uint256 \<times> bool) list option"
  ts_mutable :: "'ts \<Rightarrow> 'ts"
  ts_insert :: "SHAMapItem \<Rightarrow> 'ts \<Rightarrow> 'ts option"
  ts_erase :: "uint256 \<Rightarrow> 'ts \<Rightarrow> 'ts option"
  ts_fixed :: "'ts \<Rightarrow> 'ts"

type_synonym PublicKey = "8 word list"

record 'ts Adaptor =
  a_parms :: ConsensusParms
  a_clockNow :: nanos
  a_acquireLedger :: "uint256 \<Rightarrow> CxLedger option"
  a_acquireTxSet :: "uint256 \<Rightarrow> 'ts option"
  a_hasOpenTransactions :: bool
  a_proposersValidated :: "uint256 \<Rightarrow> nat"
  a_proposersFinished :: "CxLedger \<Rightarrow> uint256 \<Rightarrow> nat"
  a_getPrevLedger :: "uint256 \<Rightarrow> CxLedger \<Rightarrow> ConsensusMode \<Rightarrow> uint256"
  a_onClose :: "CxLedger \<Rightarrow> NetTime \<Rightarrow> ConsensusMode \<Rightarrow> 'ts \<times> ConsensusProposal"
  a_getValidLedgerIndex :: Seq
  a_getQuorumKeys :: "64 word \<times> PublicKey list"
  a_laggards :: "Seq \<Rightarrow> PublicKey list \<Rightarrow> nat \<times> PublicKey list"
  a_validator :: bool
  a_haveValidated :: bool

section \<open>State\<close>

record 'ts ConsensusResult =
  txns :: 'ts
  ourPosition :: ConsensusProposal
  disputes :: "(uint256 \<times> DisputedTx) list"
  compares :: "uint256 set"
  roundTime :: ConsensusTimer
  resState :: ConsensusState
  proposers :: nat

datatype 'ts action =
    OnModeChange ConsensusMode ConsensusMode
  | SharePosition ConsensusProposal
  | ShareTx SHAMapItem
  | ShareTxSet 'ts
  | Propose ConsensusProposal
  | UpdateOperatingMode nat
  | OnAccept "'ts ConsensusResult" CxLedger NetDuration ConsensusCloseTimes ConsensusMode
  | OnForceAccept "'ts ConsensusResult" CxLedger NetDuration ConsensusCloseTimes ConsensusMode

record 'ts Consensus =
  phase :: ConsensusPhase
  cmode :: ConsensusMode
  firstRound :: bool
  haveCloseTimeConsensus :: bool
  convergePercent :: int
  openTime :: ConsensusTimer
  closeResolution :: NetDuration
  prevRoundTime :: millis
  now :: NetTime
  prevCloseTime :: NetTime
  prevLedgerID :: uint256
  prevLedger :: CxLedger
  acquired :: "uint256 \<rightharpoonup> 'ts"
  result :: "'ts ConsensusResult option"
  rawCloseTimes :: ConsensusCloseTimes
  currPeerPositions :: "(NodeID \<times> ConsensusProposal) list"
  recentPeerPositions :: "(NodeID \<times> ConsensusProposal list) list"
  prevProposers :: nat
  deadNodes :: "NodeID set"
  out :: "'ts action list"

definition newConsensus :: "CxLedger \<Rightarrow> 'ts Consensus" where
  "newConsensus ledger = \<lparr>
     phase = accepted, cmode = observing, firstRound = True, haveCloseTimeConsensus = False,
     convergePercent = 0, openTime = \<lparr>tm_start = 0, tm_dur = 0\<rparr>,
     closeResolution = ledgerDefaultTimeResolution, prevRoundTime = 0, now = 0, prevCloseTime = 0,
     prevLedgerID = 0, prevLedger = ledger, acquired = Map.empty, result = None,
     rawCloseTimes = \<lparr>ct_peers = [], ct_self = 0\<rparr>, currPeerPositions = [],
     recentPeerPositions = [], prevProposers = 0, deadNodes = {}, out = []\<rparr>"

definition newResult :: "'ts TxSetOps \<Rightarrow> 'ts \<Rightarrow> ConsensusProposal \<Rightarrow> 'ts ConsensusResult option" where
  "newResult T s p = do {
     assertThat (ts_id T s = position p);
     Some \<lparr>txns = s, ourPosition = p, disputes = [], compares = {},
           roundTime = \<lparr>tm_start = 0, tm_dur = 0\<rparr>, resState = No, proposers = 0\<rparr>
   }"

definition emit :: "'ts action \<Rightarrow> 'ts Consensus \<Rightarrow> 'ts Consensus" where
  "emit a s = s\<lparr>out := out s @ [a]\<rparr>"

definition setMode :: "ConsensusMode \<Rightarrow> 'ts Consensus \<Rightarrow> 'ts Consensus" where
  "setMode m s = (emit (OnModeChange (cmode s) m) s)\<lparr>cmode := m\<rparr>"

definition setResult :: "'ts ConsensusResult \<Rightarrow> 'ts Consensus \<Rightarrow> 'ts Consensus" where
  "setResult r s = s\<lparr>result := Some r\<rparr>"

definition asCloseTime :: "NetTime \<Rightarrow> 'ts Consensus \<Rightarrow> NetTime option" where
  "asCloseTime raw s = roundCloseTime raw (closeResolution s)"

section \<open>Disputes\<close>

definition voteOfPeers ::
  "'ts TxSetOps \<Rightarrow> (uint256 \<rightharpoonup> 'ts) \<Rightarrow> (NodeID \<times> ConsensusProposal) list \<Rightarrow> uint256 \<Rightarrow>
     DisputedTx \<Rightarrow> DisputedTx" where
  "voteOfPeers T acq peers txID d =
     fold (\<lambda>(node, prop) d. case acq (position prop) of
             None \<Rightarrow> d
           | Some st \<Rightarrow> setVote node (ts_exists T st txID) d) peers d"

definition createDispute ::
  "'ts TxSetOps \<Rightarrow> 'ts \<Rightarrow> uint256 \<times> bool \<Rightarrow> 'ts Consensus \<Rightarrow> 'ts Consensus option" where
  "createDispute T o1 diff s = do {
     r \<leftarrow> result s;
     let (txId, inThisSet) = diff;
     assertThat ((inThisSet \<and> ts_find T (txns r) txId \<noteq> None \<and> ts_find T o1 txId = None)
               \<or> (\<not> inThisSet \<and> ts_find T (txns r) txId = None \<and> ts_find T o1 txId \<noteq> None));
     tx \<leftarrow> (if inThisSet then ts_find T (txns r) txId else ts_find T o1 txId);
     let txID = item_key tx;
     if map_of (disputes r) txID \<noteq> None then Some s
     else do {
       let d = voteOfPeers T (acquired s) (currPeerPositions s) txID
                 (newDispute tx (ts_exists T (txns r) txID));
       let s' = emit (ShareTx (dtx d)) s;
       Some (setResult (r\<lparr>disputes := al_emplace txID d (disputes r)\<rparr>) s')
     }
   }"

definition createDisputes :: "'ts TxSetOps \<Rightarrow> 'ts \<Rightarrow> 'ts Consensus \<Rightarrow> 'ts Consensus option" where
  "createDisputes T o1 s = do {
     r \<leftarrow> result s;
     if ts_id T o1 \<in> compares r then Some s
     else do {
       let s1 = setResult (r\<lparr>compares := insert (ts_id T o1) (compares r)\<rparr>) s;
       if ts_id T (txns r) = ts_id T o1 then Some s1
       else do {
         differences \<leftarrow> ts_compare T (txns r) o1;
         foldM (createDispute T o1) differences s1
       }
     }
   }"

definition updateDisputes ::
  "'ts TxSetOps \<Rightarrow> NodeID \<Rightarrow> 'ts \<Rightarrow> 'ts Consensus \<Rightarrow> 'ts Consensus option" where
  "updateDisputes T node other s = do {
     r \<leftarrow> result s;
     s1 \<leftarrow> (if ts_id T other \<notin> compares r then createDisputes T other s else Some s);
     r1 \<leftarrow> result s1;
     Some (setResult
       (r1\<lparr>disputes := map (\<lambda>(k, d). (k, setVote node (ts_exists T other (item_key (dtx d))) d))
                         (disputes r1)\<rparr>) s1)
   }"

section \<open>Peer proposals and transaction sets\<close>

definition gotTxSet ::
  "'ts TxSetOps \<Rightarrow> NetTime \<Rightarrow> 'ts \<Rightarrow> 'ts Consensus \<Rightarrow> 'ts Consensus option" where
  "gotTxSet T t txSet s =
     (if phase s = accepted then Some s
      else do {
        let s1 = s\<lparr>now := t\<rparr>;
        let id1 = ts_id T txSet;
        if acquired s1 id1 \<noteq> None then Some s1
        else do {
          let s2 = s1\<lparr>acquired := (acquired s1)(id1 \<mapsto> txSet)\<rparr>;
          case result s2 of
            None \<Rightarrow> Some s2
          | Some r \<Rightarrow> do {
              assertThat (id1 \<noteq> position (ourPosition r));
              foldM (\<lambda>(node, prop) u. if position prop = id1 then updateDisputes T node txSet u
                                      else Some u)
                (currPeerPositions s2) s2
            }
        }
      })"

definition unVoteAll :: "NodeID \<Rightarrow> 'ts ConsensusResult \<Rightarrow> 'ts ConsensusResult" where
  "unVoteAll peer r = r\<lparr>disputes := map (\<lambda>(k, d). (k, unVote peer d)) (disputes r)\<rparr>"

definition peerProposalInternal ::
  "'ts TxSetOps \<Rightarrow> 'ts Adaptor \<Rightarrow> NetTime \<Rightarrow> ConsensusProposal \<Rightarrow> 'ts Consensus \<Rightarrow>
     (bool \<times> 'ts Consensus) option" where
  "peerProposalInternal T A t newPeerProp s =
     (if phase s = accepted then Some (False, s)
      else do {
        let s1 = s\<lparr>now := t\<rparr>;
        let peerID = nodeID newPeerProp;
        let old = map_of (currPeerPositions s1) peerID;
        if previousLedger newPeerProp \<noteq> prevLedgerID s1 then Some (False, s1)
        else if peerID \<in> deadNodes s1 then Some (False, s1)
        else if (case old of None \<Rightarrow> False | Some p \<Rightarrow> proposeSeq newPeerProp \<le> proposeSeq p)
        then Some (False, s1)
        else if isBowOut newPeerProp then do {
          let s2 = s1\<lparr>result := map_option (unVoteAll peerID) (result s1)\<rparr>;
          let s3 = s2\<lparr>currPeerPositions := AList.delete peerID (currPeerPositions s2)\<rparr>;
          Some (True, s3\<lparr>deadNodes := insert peerID (deadNodes s3)\<rparr>)
        }
        else do {
          let s2 = s1\<lparr>currPeerPositions := AList.update peerID newPeerProp (currPeerPositions s1)\<rparr>;
          let s3 = (if isInitial newPeerProp
                    then s2\<lparr>rawCloseTimes := (rawCloseTimes s2)
                           \<lparr>ct_peers := om_upd (closeTime newPeerProp) 0 (\<lambda>n. n + 1)
                                         (ct_peers (rawCloseTimes s2))\<rparr>\<rparr>
                    else s2);
          s4 \<leftarrow> (case acquired s3 (position newPeerProp) of
                    None \<Rightarrow> (case a_acquireTxSet A (position newPeerProp) of
                                Some st \<Rightarrow> gotTxSet T (now s3) st s3
                              | None \<Rightarrow> Some s3)
                  | Some st \<Rightarrow> (if result s3 \<noteq> None then updateDisputes T (nodeID newPeerProp) st s3
                                 else Some s3));
          Some (True, s4)
        }
      })"

definition peerProposal ::
  "'ts TxSetOps \<Rightarrow> 'ts Adaptor \<Rightarrow> NetTime \<Rightarrow> ConsensusProposal \<Rightarrow> 'ts Consensus \<Rightarrow>
     (bool \<times> 'ts Consensus) option" where
  "peerProposal T A t newPeerPos s = do {
     let peerID = nodeID newPeerPos;
     let props = (case map_of (recentPeerPositions s) peerID of None \<Rightarrow> [] | Some ps \<Rightarrow> ps);
     let props = (if 10 \<le> length props then tl props else props) @ [newPeerPos];
     peerProposalInternal T A t newPeerPos
       (s\<lparr>recentPeerPositions := AList.update peerID props (recentPeerPositions s)\<rparr>)
   }"

definition playbackProposal ::
  "'ts TxSetOps \<Rightarrow> 'ts Adaptor \<Rightarrow> ConsensusProposal \<Rightarrow> 'ts Consensus \<Rightarrow> 'ts Consensus option" where
  "playbackProposal T A pos s =
     (if previousLedger pos = prevLedgerID s then do {
        (relay, s1) \<leftarrow> peerProposalInternal T A (now s) pos s;
        Some (if relay then emit (SharePosition pos) s1 else s1)
      }
      else Some s)"

definition playbackProposals ::
  "'ts TxSetOps \<Rightarrow> 'ts Adaptor \<Rightarrow> 'ts Consensus \<Rightarrow> 'ts Consensus option" where
  "playbackProposals T A s =
     foldM (\<lambda>(_, props) u. foldM (playbackProposal T A) props u) (recentPeerPositions s) s"

section \<open>Closing the ledger and leaving consensus\<close>

definition leaveConsensus :: "'ts Consensus \<Rightarrow> 'ts Consensus" where
  "leaveConsensus s =
     (if cmode s = proposing then
        let s1 = (case result s of
                    None \<Rightarrow> s
                  | Some r \<Rightarrow>
                      if \<not> isBowOut (ourPosition r) then
                        let r' = r\<lparr>ourPosition := bowOut (now s) (ourPosition r)\<rparr>
                        in emit (Propose (ourPosition r')) (setResult r' s)
                      else s)
        in setMode observing s1
      else s)"

definition closeLedger :: "'ts TxSetOps \<Rightarrow> 'ts Adaptor \<Rightarrow> 'ts Consensus \<Rightarrow> 'ts Consensus option" where
  "closeLedger T A s = do {
     assertThat (result s = None);
     let s1 = s\<lparr>phase := establish, rawCloseTimes := (rawCloseTimes s)\<lparr>ct_self := now s\<rparr>\<rparr>;
     let (st, pos) = a_onClose A (prevLedger s1) (now s1) (cmode s1);
     r0 \<leftarrow> newResult T st pos;
     let r = r0\<lparr>roundTime := timer_reset (a_clockNow A) (roundTime r0)\<rparr>;
     let s2 = setResult r s1;
     let s3 = (if acquired s2 (ts_id T (txns r)) = None
               then emit (ShareTxSet (txns r))
                      (s2\<lparr>acquired := (acquired s2)(ts_id T (txns r) \<mapsto> txns r)\<rparr>)
               else s2);
     let s4 = (if cmode s3 = proposing then emit (Propose (ourPosition r)) s3 else s3);
     foldM (\<lambda>(_, prop) u. case acquired u (position prop) of
              None \<Rightarrow> Some u | Some o1 \<Rightarrow> createDisputes T o1 u)
       (currPeerPositions s4) s4
   }"

definition phaseOpen :: "'ts TxSetOps \<Rightarrow> 'ts Adaptor \<Rightarrow> 'ts Consensus \<Rightarrow> 'ts Consensus option" where
  "phaseOpen T A s = do {
     let proposersClosed = length (currPeerPositions s);
     let proposersValidated = a_proposersValidated A (prevLedgerID s);
     let s1 = s\<lparr>openTime := timer_tick (a_clockNow A) (openTime s)\<rparr>;
     let previousCloseCorrect =
           (cmode s1 \<noteq> wrongLedger \<and> l_closeAgree (prevLedger s1) \<and>
            uint (l_closeTime (prevLedger s1)) \<noteq> uint (l_parentCloseTime (prevLedger s1)) + 1);
     let lastCloseTime = (if previousCloseCorrect then l_closeTime (prevLedger s1)
                          else prevCloseTime s1);
     let sinceClose = (if lastCloseTime \<le> now s1
                       then 1000 * (uint (now s1) - uint lastCloseTime)
                       else - (1000 * (uint lastCloseTime - uint (now s1))));
     let idleInterval = max (ledgerIDLE_INTERVAL (a_parms A))
                          (1000 * uint (2 * l_closeTimeResolution (prevLedger s1)));
     if shouldCloseLedger (a_hasOpenTransactions A) (prevProposers s1) proposersClosed
          proposersValidated (prevRoundTime s1) sinceClose (timer_read (openTime s1)) idleInterval
          (a_parms A)
     then closeLedger T A s1
     else Some s1
   }"

section \<open>The establish phase\<close>

definition freshnessStep ::
  "NetTime \<Rightarrow> NetDuration \<Rightarrow> NodeID \<times> ConsensusProposal \<Rightarrow>
     (NodeID \<times> ConsensusProposal) list \<times> 'ts ConsensusResult \<times> (NetTime \<times> int) list \<Rightarrow>
     ((NodeID \<times> ConsensusProposal) list \<times> 'ts ConsensusResult \<times> (NetTime \<times> int) list) option" where
  "freshnessStep peerCutoff resolution = (\<lambda>(node, peerProp) (kept, r, closeTimeVotes).
     if isStale peerCutoff peerProp
     then Some (kept, unVoteAll (nodeID peerProp) r, closeTimeVotes)
     else do {
       t \<leftarrow> roundCloseTime (closeTime peerProp) resolution;
       Some (kept @ [(node, peerProp)], r, om_upd t 0 (\<lambda>n. n + 1) closeTimeVotes)
     })"

definition updateVoteStep ::
  "'ts TxSetOps \<Rightarrow> int \<Rightarrow> bool \<Rightarrow> ConsensusParms \<Rightarrow> 'ts \<Rightarrow> uint256 \<times> DisputedTx \<Rightarrow>
     (uint256 \<times> DisputedTx) list \<times> 'ts option \<Rightarrow>
     ((uint256 \<times> DisputedTx) list \<times> 'ts option) option" where
  "updateVoteStep T percent isProposing parms ours = (\<lambda>(txId, dispute) (ds, mutableSet).
     let (changed, dispute') = updateVote percent isProposing parms dispute
     in if changed then do {
          let ms = (case mutableSet of None \<Rightarrow> ts_mutable T ours | Some m \<Rightarrow> m);
          ms' \<leftarrow> (if ourVote dispute' then ts_insert T (dtx dispute') ms else ts_erase T txId ms);
          Some (ds @ [(txId, dispute')], Some ms')
        }
        else Some (ds @ [(txId, dispute')], mutableSet))"

definition closeTimeStep ::
  "int \<Rightarrow> NetTime \<times> int \<Rightarrow> NetTime \<times> int \<times> bool \<Rightarrow> NetTime \<times> int \<times> bool" where
  "closeTimeStep threshConsensus = (\<lambda>(t, v) (consensusCloseTime, threshVote, have).
     if threshVote \<le> v then (t, v, have \<or> threshConsensus \<le> v)
     else (consensusCloseTime, threshVote, have))"

definition closeTimeVote ::
  "ConsensusParms \<Rightarrow> int \<Rightarrow> int \<Rightarrow> (NetTime \<times> int) list \<Rightarrow> NetTime \<times> bool" where
  "closeTimeVote parms percent participants closeTimeVotes =
     (let neededWeight = int_of_size (neededWeightPct parms percent);
          threshVote = participantsNeeded participants neededWeight;
          threshConsensus = participantsNeeded participants (int_of_size (avCT_CONSENSUS_PCT parms));
          (t, _, have) = fold (closeTimeStep threshConsensus) closeTimeVotes (0, threshVote, False)
      in (t, have))"

definition consensusClose ::
  "ConsensusParms \<Rightarrow> (NetTime \<times> int) list \<Rightarrow> 'ts ConsensusResult \<Rightarrow> 'ts Consensus \<Rightarrow>
     (NetTime \<times> bool) option" where
  "consensusClose parms votes1 r s =
     (if currPeerPositions s = [] then do {
        t \<leftarrow> asCloseTime (closeTime (ourPosition r)) s;
        Some (t, True)
      }
      else do {
        (participants, votes2) \<leftarrow>
          (if cmode s = proposing then do {
             t \<leftarrow> asCloseTime (closeTime (ourPosition r)) s;
             Some (int_of_size (length (currPeerPositions s)) + 1, om_upd t 0 (\<lambda>n. n + 1) votes1)
           }
           else Some (int_of_size (length (currPeerPositions s)), votes1));
        Some (closeTimeVote parms (convergePercent s) participants votes2)
      })"

definition adoptPosition ::
  "'ts TxSetOps \<Rightarrow> 'ts \<Rightarrow> NetTime \<Rightarrow> 'ts ConsensusResult \<Rightarrow> 'ts Consensus \<Rightarrow> 'ts Consensus option" where
  "adoptPosition T ourNewSet consensusCloseTime r s = do {
     let newID = ts_id T ourNewSet;
     let r3 = r\<lparr>txns := ourNewSet,
                ourPosition := changePosition newID consensusCloseTime (now s) (ourPosition r)\<rparr>;
     let s3 = setResult r3 s;
     s4 \<leftarrow>
       (if acquired s3 newID = None then do {
          let s3a = s3\<lparr>acquired := (acquired s3)(newID \<mapsto> ourNewSet)\<rparr>;
          let s3b = (if \<not> isBowOut (ourPosition r3) then emit (ShareTxSet ourNewSet) s3a else s3a);
          foldM (\<lambda>(node, p) u. if position p = newID
                               then do { ru \<leftarrow> result u; updateDisputes T node (txns ru) u }
                               else Some u)
            (currPeerPositions s3b) s3b
        }
        else Some s3);
     r4 \<leftarrow> result s4;
     Some (if \<not> isBowOut (ourPosition r4) \<and> cmode s4 = proposing
           then emit (Propose (ourPosition r4)) s4 else s4)
   }"

definition updateOurPositions ::
  "'ts TxSetOps \<Rightarrow> 'ts Adaptor \<Rightarrow> 'ts Consensus \<Rightarrow> 'ts Consensus option" where
  "updateOurPositions T A s = do {
     r \<leftarrow> result s;
     let parms = a_parms A;
     let peerCutoff = now s - word_of_int (proposeFRESHNESS parms);
     let ourCutoff = now s - word_of_int (proposeINTERVAL parms);
     (kept, r1, votes1) \<leftarrow>
       foldM (freshnessStep peerCutoff (closeResolution s)) (currPeerPositions s) ([], r, []);
     let s1 = s\<lparr>currPeerPositions := kept\<rparr>;
     (ds, mutableSet) \<leftarrow> foldM (updateVoteStep T (convergePercent s1) (cmode s1 = proposing) parms
                                (txns r1)) (disputes r1) ([], None);
     let newSet = map_option (ts_fixed T) mutableSet;
     let r2 = r1\<lparr>disputes := ds\<rparr>;
     (consensusCloseTime, have) \<leftarrow> consensusClose parms votes1 r2 s1;
     let s2 = setResult r2 (s1\<lparr>haveCloseTimeConsensus := have\<rparr>);
     ours \<leftarrow> asCloseTime (closeTime (ourPosition r2)) s2;
     let ourNewSet = (if newSet = None \<and>
                         (consensusCloseTime \<noteq> ours \<or> isStale ourCutoff (ourPosition r2))
                      then Some (txns r2) else newSet);
     (case ourNewSet of
        None \<Rightarrow> Some s2
      | Some st \<Rightarrow> adoptPosition T st consensusCloseTime r2 s2)
   }"

definition shouldPause :: "'ts Adaptor \<Rightarrow> 'ts Consensus \<Rightarrow> bool option" where
  "shouldPause A s = do {
     let seq = l_seq (prevLedger s);
     let ahead = seq - min (a_getValidLedgerIndex A) seq;
     let (quorum, trustedKeys) = a_getQuorumKeys A;
     let (laggards, remaining) = a_laggards A seq trustedKeys;
     r \<leftarrow> result s;
     Some (pauseDecision ahead quorum (word_of_nat (length trustedKeys)) (word_of_nat laggards)
       (word_of_nat (length remaining)) (a_validator A) (a_haveValidated A)
       (timer_read (roundTime r)) (ledgerMAX_CONSENSUS (a_parms A)))
   }"

definition haveConsensus :: "'ts Adaptor \<Rightarrow> 'ts Consensus \<Rightarrow> (bool \<times> 'ts Consensus) option" where
  "haveConsensus A s = do {
     r \<leftarrow> result s;
     let ours = position (ourPosition r);
     let agree = length (filter (\<lambda>(_, p). position p = ours) (currPeerPositions s));
     let disagree = length (filter (\<lambda>(_, p). position p \<noteq> ours) (currPeerPositions s));
     let currentFinished = a_proposersFinished A (prevLedger s) (prevLedgerID s);
     let verdict = checkConsensus (prevProposers s) (agree + disagree) agree currentFinished
                     (prevRoundTime s) (timer_read (roundTime r)) (a_parms A) (cmode s = proposing);
     let s1 = setResult (r\<lparr>resState := verdict\<rparr>) s;
     Some (verdict \<noteq> No, s1)
   }"

definition phaseEstablish :: "'ts TxSetOps \<Rightarrow> 'ts Adaptor \<Rightarrow> 'ts Consensus \<Rightarrow> 'ts Consensus option" where
  "phaseEstablish T A s = do {
     r \<leftarrow> result s;
     let parms = a_parms A;
     let r1 = r\<lparr>roundTime := timer_tick (a_clockNow A) (roundTime r),
                proposers := length (currPeerPositions s)\<rparr>;
     assertThat (max (prevRoundTime s) (avMIN_CONSENSUS_TIME parms) \<noteq> 0);
     let s1 = (setResult r1 s)\<lparr>convergePercent :=
                 narrow_int (timer_read (roundTime r1) * 100
                   sdiv max (prevRoundTime s) (avMIN_CONSENSUS_TIME parms))\<rparr>;
     if timer_read (roundTime r1) < ledgerMIN_CONSENSUS parms then Some s1
     else do {
       s2 \<leftarrow> updateOurPositions T A s1;
       pause \<leftarrow> shouldPause A s2;
       if pause then Some s2
       else do {
         (have, s3) \<leftarrow> haveConsensus A s2;
         if \<not> have then Some s3
         else if \<not> haveCloseTimeConsensus s3 then Some s3
         else do {
           r3 \<leftarrow> result s3;
           let s4 = emit (UpdateOperatingMode (length (currPeerPositions s3))) s3;
           let s5 = s4\<lparr>prevProposers := length (currPeerPositions s4),
                      prevRoundTime := timer_read (roundTime r3), phase := accepted\<rparr>;
           Some (emit (OnAccept r3 (prevLedger s5) (closeResolution s5) (rawCloseTimes s5)
                         (cmode s5)) s5)
         }
       }
     }
   }"

definition simulate ::
  "'ts TxSetOps \<Rightarrow> 'ts Adaptor \<Rightarrow> NetTime \<Rightarrow> millis option \<Rightarrow> 'ts Consensus \<Rightarrow> 'ts Consensus option" where
  "simulate T A t consensusDelay s = do {
     s1 \<leftarrow> closeLedger T A (s\<lparr>now := t\<rparr>);
     r \<leftarrow> result s1;
     let delay = (case consensusDelay of None \<Rightarrow> 100 | Some d \<Rightarrow> d);
     let r1 = r\<lparr>roundTime := timer_tick_fixed delay (roundTime r),
                proposers := length (currPeerPositions s1)\<rparr>;
     let s2 = (setResult r1 s1)\<lparr>prevProposers := length (currPeerPositions s1),
                prevRoundTime := timer_read (roundTime r1), phase := accepted\<rparr>;
     Some (emit (OnForceAccept r1 (prevLedger s2) (closeResolution s2) (rawCloseTimes s2)
                   (cmode s2)) s2)
   }"

section \<open>Rounds and the prior ledger\<close>

type_synonym 'ts restart =
  "NetTime \<Rightarrow> uint256 \<Rightarrow> CxLedger \<Rightarrow> ConsensusMode \<Rightarrow> 'ts Consensus \<Rightarrow> 'ts Consensus option"

definition clearRound :: "uint256 \<Rightarrow> 'ts Consensus \<Rightarrow> 'ts Consensus" where
  "clearRound lgrId s = s\<lparr>
     prevLedgerID := lgrId,
     result := map_option (\<lambda>r. r\<lparr>disputes := [], compares := {}\<rparr>) (result s),
     currPeerPositions := [],
     rawCloseTimes := (rawCloseTimes s)\<lparr>ct_peers := []\<rparr>,
     deadNodes := {}\<rparr>"

definition handleWrongLedger ::
  "'ts restart \<Rightarrow> 'ts TxSetOps \<Rightarrow> 'ts Adaptor \<Rightarrow> uint256 \<Rightarrow> 'ts Consensus \<Rightarrow> 'ts Consensus option" where
  "handleWrongLedger restart T A lgrId s = do {
     assertThat (lgrId \<noteq> prevLedgerID s \<or> l_id (prevLedger s) \<noteq> lgrId);
     let s1 = leaveConsensus s;
     s2 \<leftarrow> (if prevLedgerID s1 \<noteq> lgrId then playbackProposals T A (clearRound lgrId s1) else Some s1);
     if l_id (prevLedger s2) = prevLedgerID s2 then Some s2
     else (case a_acquireLedger A (prevLedgerID s2) of
             Some newLedger \<Rightarrow> restart (now s2) lgrId newLedger switchedLedger s2
           | None \<Rightarrow> Some (setMode wrongLedger s2))
   }"

definition checkLedger ::
  "'ts restart \<Rightarrow> 'ts TxSetOps \<Rightarrow> 'ts Adaptor \<Rightarrow> 'ts Consensus \<Rightarrow> 'ts Consensus option" where
  "checkLedger restart T A s =
     (let netLgr = a_getPrevLedger A (prevLedgerID s) (prevLedger s) (cmode s)
      in if netLgr \<noteq> prevLedgerID s then handleWrongLedger restart T A netLgr s
         else if l_id (prevLedger s) \<noteq> prevLedgerID s then handleWrongLedger restart T A netLgr s
         else Some s)"

definition timerEntryWith ::
  "'ts restart \<Rightarrow> 'ts TxSetOps \<Rightarrow> 'ts Adaptor \<Rightarrow> NetTime \<Rightarrow> 'ts Consensus \<Rightarrow> 'ts Consensus option" where
  "timerEntryWith restart T A t s =
     (if phase s = accepted then Some s
      else do {
        s1 \<leftarrow> checkLedger restart T A (s\<lparr>now := t\<rparr>);
        (case phase s1 of
           popen \<Rightarrow> phaseOpen T A s1
         | establish \<Rightarrow> phaseEstablish T A s1
         | accepted \<Rightarrow> Some s1)
      })"

definition resetRound ::
  "'ts Adaptor \<Rightarrow> NetTime \<Rightarrow> uint256 \<Rightarrow> CxLedger \<Rightarrow> ConsensusMode \<Rightarrow> 'ts Consensus \<Rightarrow> 'ts Consensus" where
  "resetRound A t lgrId ledger m s =
     (let s1 = setMode m (s\<lparr>phase := popen\<rparr>)
      in s1\<lparr>now := t, prevLedgerID := lgrId, prevLedger := ledger, result := None,
            convergePercent := 0, haveCloseTimeConsensus := False,
            openTime := timer_reset (a_clockNow A) (openTime s1), currPeerPositions := [],
            acquired := Map.empty, rawCloseTimes := \<lparr>ct_peers = [], ct_self = 0\<rparr>,
            deadNodes := {},
            closeResolution := getNextLedgerTimeResolution (l_closeTimeResolution ledger)
                                 (l_closeAgree ledger) (l_seq ledger + 1)\<rparr>)"

fun startRoundInternal :: "nat \<Rightarrow> 'ts TxSetOps \<Rightarrow> 'ts Adaptor \<Rightarrow> 'ts restart" where
  "startRoundInternal 0 T A t lgrId ledger m s = None"
| "startRoundInternal (Suc depth) T A t lgrId ledger m s = do {
     s1 \<leftarrow> playbackProposals T A (resetRound A t lgrId ledger m s);
     if prevProposers s1 div 2 < length (currPeerPositions s1)
     then timerEntryWith (startRoundInternal depth T A) T A (now s1) s1
     else Some s1
   }"

definition timerEntry ::
  "nat \<Rightarrow> 'ts TxSetOps \<Rightarrow> 'ts Adaptor \<Rightarrow> NetTime \<Rightarrow> 'ts Consensus \<Rightarrow> 'ts Consensus option" where
  "timerEntry depth T A t s = timerEntryWith (startRoundInternal depth T A) T A t s"

definition startRound ::
  "nat \<Rightarrow> 'ts TxSetOps \<Rightarrow> 'ts Adaptor \<Rightarrow> NetTime \<Rightarrow> uint256 \<Rightarrow> CxLedger \<Rightarrow> NodeID set \<Rightarrow> bool \<Rightarrow>
     'ts Consensus \<Rightarrow> 'ts Consensus option" where
  "startRound depth T A t lgrId ledger nowUntrusted isProposing s = do {
     let s1 = (if firstRound s
               then s\<lparr>prevRoundTime := ledgerIDLE_INTERVAL (a_parms A),
                      prevCloseTime := l_closeTime ledger, firstRound := False\<rparr>
               else s\<lparr>prevCloseTime := ct_self (rawCloseTimes s)\<rparr>);
     let s2 = s1\<lparr>recentPeerPositions :=
                filter (\<lambda>(n, _). n \<notin> nowUntrusted) (recentPeerPositions s1)\<rparr>;
     let startMode = (if isProposing then proposing else observing);
     (if l_id ledger \<noteq> lgrId
      then (case a_acquireLedger A lgrId of
              Some newLedger \<Rightarrow> startRoundInternal depth T A t lgrId newLedger startMode s2
            | None \<Rightarrow> startRoundInternal depth T A t lgrId ledger wrongLedger s2)
      else startRoundInternal depth T A t lgrId ledger startMode s2)
   }"

end
