(* ===== verification/Consensus_Inv.thy ===== *)
theory Consensus_Inv
  imports Consensus_Engine
begin

text \<open>
  The invariant of the consensus engine, and what it needs of the transaction sets.

  \<open>txset_interface\<close> is the interface between the engine and its transaction sets: the container
  laws that \<^verbatim>\<open>Consensus.h\<close> documents for \<open>TxSet\<close>. Inside it the operations of the engine are
  shown to succeed and to keep the invariant, dispute by dispute and loop by loop.
\<close>

declare map_of_eq_Some_iff [simp del]

section \<open>The interface of transaction sets\<close>

locale txset_interface =
  fixes T :: "'ts TxSetOps" and tok :: "'ts \<Rightarrow> bool" and mok :: "'ts \<Rightarrow> bool" and iok :: "SHAMapItem \<Rightarrow> bool"
  assumes find_key: "tok t \<Longrightarrow> ts_find T t k = Some x \<Longrightarrow> item_key x = k \<and> iok x"
    and exists_find: "tok t \<Longrightarrow> ts_exists T t k \<longleftrightarrow> ts_find T t k \<noteq> None"
    and compare_sound: "tok a \<Longrightarrow> tok b \<Longrightarrow> \<exists>dl. ts_compare T a b = Some dl
      \<and> (\<forall>k f. (k, f) \<in> set dl \<longrightarrow> ts_exists T a k = f \<and> ts_exists T b k = (\<not> f))"
    and mutable_ok: "tok t \<Longrightarrow> mok (ts_mutable T t) \<and> ts_exists T (ts_mutable T t) = ts_exists T t"
    and insert_ok: "mok t \<Longrightarrow> iok x \<Longrightarrow> \<exists>t'. ts_insert T x t = Some t' \<and> mok t'
      \<and> (\<forall>k. ts_exists T t' k \<longleftrightarrow> k = item_key x \<or> ts_exists T t k)"
    and erase_ok: "mok t \<Longrightarrow> \<exists>t'. ts_erase T i t = Some t' \<and> mok t'
      \<and> (\<forall>k. ts_exists T t' k \<longleftrightarrow> k \<noteq> i \<and> ts_exists T t k)"
    and fixed_ok: "mok t \<Longrightarrow> tok (ts_fixed T t) \<and> ts_exists T (ts_fixed T t) = ts_exists T t"

text \<open>
  What is more than a container law: \<open>compare\<close> reports every difference (the implementation over
  hash trees stops after 65536 of them), and sets with the same hash have the same members.
\<close>

definition txset_exact :: "'ts TxSetOps \<Rightarrow> ('ts \<Rightarrow> bool) \<Rightarrow> bool" where
  "txset_exact T tok \<longleftrightarrow>
     (\<forall>a b k dl. tok a \<longrightarrow> tok b \<longrightarrow> ts_exists T a k \<noteq> ts_exists T b k \<longrightarrow>
        ts_compare T a b = Some dl \<longrightarrow> k \<in> al_keys dl)
   \<and> (\<forall>a b. tok a \<longrightarrow> tok b \<longrightarrow> ts_id T a = ts_id T b \<longrightarrow> ts_exists T a = ts_exists T b)"

section \<open>The invariant\<close>

text \<open>
  A dispute with key \<open>k\<close>: its counters are right, it is about the transaction with that
  identifier, our vote is whether our set has it, only current peers have a vote, and the vote of
  every peer outside \<open>E\<close> whose set is known is whether that set has it.
\<close>

definition dispute_inv ::
  "'ts TxSetOps \<Rightarrow> (SHAMapItem \<Rightarrow> bool) \<Rightarrow> (uint256 \<rightharpoonup> 'ts) \<Rightarrow> (NodeID \<times> ConsensusProposal) list \<Rightarrow>
     'ts \<Rightarrow> NodeID set \<Rightarrow> uint256 \<Rightarrow> DisputedTx \<Rightarrow> bool" where
  "dispute_inv T iok acq cur t E k d \<longleftrightarrow>
     dispute_ok d \<and> item_key (dtx d) = k \<and> iok (dtx d) \<and> (ourVote d \<longleftrightarrow> ts_exists T t k)
   \<and> dom (map_of (votes d)) \<subseteq> dom (map_of cur)
   \<and> (\<forall>n p st. map_of cur n = Some p \<longrightarrow> n \<notin> E \<longrightarrow> acq (position p) = Some st \<longrightarrow>
        map_of (votes d) n = Some (ts_exists T st k))"

definition disputes_inv ::
  "'ts TxSetOps \<Rightarrow> (SHAMapItem \<Rightarrow> bool) \<Rightarrow> (uint256 \<rightharpoonup> 'ts) \<Rightarrow> (NodeID \<times> ConsensusProposal) list \<Rightarrow>
     'ts \<Rightarrow> NodeID set \<Rightarrow> (uint256 \<times> DisputedTx) list \<Rightarrow> bool" where
  "disputes_inv T iok acq cur t E D \<longleftrightarrow>
     al_distinct D \<and> (\<forall>(k, d) \<in> set D. dispute_inv T iok acq cur t E k d)"

text \<open>The sets of all peers outside \<open>F\<close>, where known, have been compared with ours.\<close>

definition compared ::
  "(uint256 \<rightharpoonup> 'ts) \<Rightarrow> (NodeID \<times> ConsensusProposal) list \<Rightarrow> NodeID set \<Rightarrow> uint256 set \<Rightarrow> bool" where
  "compared acq cur F C \<longleftrightarrow>
     (\<forall>n p. map_of cur n = Some p \<longrightarrow> n \<notin> F \<longrightarrow> acq (position p) \<noteq> None \<longrightarrow> position p \<in> C)"

text \<open>Every difference between our set and a compared set is a dispute.\<close>

definition covered ::
  "'ts TxSetOps \<Rightarrow> (uint256 \<rightharpoonup> 'ts) \<Rightarrow> 'ts \<Rightarrow> uint256 set \<Rightarrow> (uint256 \<times> DisputedTx) list \<Rightarrow> bool" where
  "covered T acq t C D \<longleftrightarrow>
     (\<forall>i \<in> C. \<forall>st. acq i = Some st \<longrightarrow>
        (\<forall>k. ts_exists T t k \<noteq> ts_exists T st k \<longrightarrow> k \<in> al_keys D))"

definition result_inv ::
  "'ts TxSetOps \<Rightarrow> ('ts \<Rightarrow> bool) \<Rightarrow> (SHAMapItem \<Rightarrow> bool) \<Rightarrow> (uint256 \<rightharpoonup> 'ts) \<Rightarrow>
     (NodeID \<times> ConsensusProposal) list \<Rightarrow> NodeID set \<Rightarrow> NodeID set \<Rightarrow> 'ts ConsensusResult \<Rightarrow> bool" where
  "result_inv T tok iok acq cur E F r \<longleftrightarrow>
     tok (txns r) \<and> ts_id T (txns r) = position (ourPosition r)
   \<and> acq (position (ourPosition r)) \<noteq> None
   \<and> disputes_inv T iok acq cur (txns r) E (disputes r)
   \<and> compared acq cur F (compares r)
   \<and> compares r \<subseteq> dom acq
   \<and> (txset_exact T tok \<longrightarrow> covered T acq (txns r) (compares r) (disputes r))"

definition acquired_inv :: "'ts TxSetOps \<Rightarrow> ('ts \<Rightarrow> bool) \<Rightarrow> (uint256 \<rightharpoonup> 'ts) \<Rightarrow> bool" where
  "acquired_inv T tok acq \<longleftrightarrow> (\<forall>k st. acq k = Some st \<longrightarrow> tok st \<and> ts_id T st = k)"

definition positions_inv ::
  "uint256 \<Rightarrow> NodeID set \<Rightarrow> (NodeID \<times> ConsensusProposal) list \<Rightarrow> bool" where
  "positions_inv lgr dead cur \<longleftrightarrow>
     al_distinct cur
   \<and> (\<forall>n p. map_of cur n = Some p \<longrightarrow>
        nodeID p = n \<and> previousLedger p = lgr \<and> \<not> isBowOut p \<and> n \<notin> dead)"

definition recent_inv :: "(NodeID \<times> ConsensusProposal list) list \<Rightarrow> bool" where
  "recent_inv recent \<longleftrightarrow>
     al_distinct recent
   \<and> (\<forall>n ps. map_of recent n = Some ps \<longrightarrow> length ps \<le> 10 \<and> (\<forall>p \<in> set ps. nodeID p = n))"

definition base_inv :: "'ts TxSetOps \<Rightarrow> ('ts \<Rightarrow> bool) \<Rightarrow> 'ts Consensus \<Rightarrow> bool" where
  "base_inv T tok s \<longleftrightarrow>
     closeResolution s \<noteq> 0
   \<and> (phase s = popen \<longrightarrow> result s = None)
   \<and> (phase s = establish \<longrightarrow> result s \<noteq> None)
   \<and> acquired_inv T tok (acquired s)
   \<and> positions_inv (prevLedgerID s) (deadNodes s) (currPeerPositions s)
   \<and> recent_inv (recentPeerPositions s)"

definition consensus_inv ::
  "'ts TxSetOps \<Rightarrow> ('ts \<Rightarrow> bool) \<Rightarrow> (SHAMapItem \<Rightarrow> bool) \<Rightarrow> 'ts Consensus \<Rightarrow> bool" where
  "consensus_inv T tok iok s \<longleftrightarrow>
     base_inv T tok s
   \<and> (\<forall>r. result s = Some r \<longrightarrow>
        result_inv T tok iok (acquired s) (currPeerPositions s) {} {} r)"

lemmas inv_defs = result_inv_def disputes_inv_def dispute_inv_def compared_def covered_def

section \<open>Votes of the current peers\<close>

lemma voteOfPeers_Cons:
  "voteOfPeers T acq ((n, p) # peers) k d =
     voteOfPeers T acq peers k (case acq (position p) of None \<Rightarrow> d
       | Some st \<Rightarrow> setVote n (ts_exists T st k) d)"
  by (simp add: voteOfPeers_def)

lemma voteOfPeers_simps [simp]:
  "dtx (voteOfPeers T acq peers k d) = dtx d"
  "ourVote (voteOfPeers T acq peers k d) = ourVote d"
proof (induction peers arbitrary: d)
  case (Cons np peers)
  case 1 show ?case by (cases np) (simp add: voteOfPeers_Cons Cons split: option.split)
  case 2 show ?case by (cases np) (simp add: voteOfPeers_Cons Cons split: option.split)
qed (simp_all add: voteOfPeers_def)

lemma voteOfPeers_ok: "dispute_ok d \<Longrightarrow> dispute_ok (voteOfPeers T acq peers k d)"
proof (induction peers arbitrary: d)
  case (Cons np peers)
  then show ?case by (cases np) (auto simp: voteOfPeers_Cons setVote_ok split: option.split)
qed (simp add: voteOfPeers_def)

lemma voteOfPeers_votes:
  "al_distinct peers \<Longrightarrow> map_of (votes (voteOfPeers T acq peers k d)) n =
     (case map_of peers n of None \<Rightarrow> map_of (votes d) n
      | Some p \<Rightarrow> (case acq (position p) of None \<Rightarrow> map_of (votes d) n
                   | Some st \<Rightarrow> Some (ts_exists T st k)))"
proof (induction peers arbitrary: d)
  case Nil
  then show ?case by (simp add: voteOfPeers_def)
next
  case (Cons np peers)
  obtain m p where np: "np = (m, p)" by fastforce
  have "map_of peers m = None" using Cons.prems np by (simp add: map_of_eq_None_iff)
  then show ?case using Cons np
    by (auto simp: voteOfPeers_Cons map_of_setVote split: option.split)
qed

lemma voteOfPeers_dispute_inv:
  assumes "al_distinct cur" "iok x" "ts_exists T t (item_key x) = v" "k = item_key x"
  shows "dispute_inv T iok acq cur t E k (voteOfPeers T acq cur k (newDispute x v))"
proof -
  let ?d = "voteOfPeers T acq cur k (newDispute x v)"
  have "dom (map_of (votes ?d)) \<subseteq> dom (map_of cur)"
    using assms(1) by (auto simp: voteOfPeers_votes dom_def split: option.splits)
  with assms show ?thesis
    unfolding dispute_inv_def by (simp add: voteOfPeers_ok voteOfPeers_votes)
qed

section \<open>Disputes against another set\<close>

text \<open>
  What the dispute operations may change: the disputes and the compared sets of the result, and
  they share transactions.
\<close>

definition dframe :: "'ts Consensus \<Rightarrow> 'ts Consensus \<Rightarrow> bool" where
  "dframe s s' \<longleftrightarrow> (\<exists>r D C txs. result s = Some r \<and>
     s' = s\<lparr>result := Some (r\<lparr>disputes := D, compares := C\<rparr>), out := out s @ map ShareTx txs\<rparr>)"

lemma dframe_refl: "result s = Some r \<Longrightarrow> dframe s s"
  unfolding dframe_def
  by (rule exI[of _ r], rule exI[of _ "disputes r"], rule exI[of _ "compares r"], rule exI[of _ "[]"])
    simp

lemma dframe_trans: "dframe s t \<Longrightarrow> dframe t u \<Longrightarrow> dframe s u"
  unfolding dframe_def by clarsimp (metis map_append)

lemma dframe_fields:
  assumes "dframe s s'"
  shows "phase s' = phase s" "cmode s' = cmode s" "firstRound s' = firstRound s"
    "haveCloseTimeConsensus s' = haveCloseTimeConsensus s" "convergePercent s' = convergePercent s"
    "openTime s' = openTime s" "closeResolution s' = closeResolution s"
    "prevRoundTime s' = prevRoundTime s" "now s' = now s" "prevCloseTime s' = prevCloseTime s"
    "prevLedgerID s' = prevLedgerID s" "prevLedger s' = prevLedger s" "acquired s' = acquired s"
    "rawCloseTimes s' = rawCloseTimes s" "currPeerPositions s' = currPeerPositions s"
    "recentPeerPositions s' = recentPeerPositions s" "prevProposers s' = prevProposers s"
    "deadNodes s' = deadNodes s"
  using assms unfolding dframe_def by auto

lemma dframe_result:
  assumes "dframe s s'" "result s = Some r"
  obtains D C where "result s' = Some (r\<lparr>disputes := D, compares := C\<rparr>)"
  using assms unfolding dframe_def by auto

lemma dframe_out:
  assumes "dframe s s'"
  obtains txs where "out s' = out s @ map ShareTx txs"
  using assms unfolding dframe_def by auto

lemma disputes_inv_emplace:
  assumes "disputes_inv T iok acq cur t E D" "dispute_inv T iok acq cur t E k d"
  shows "disputes_inv T iok acq cur t E (al_emplace k d D)"
proof -
  have "set (al_emplace k d D) \<subseteq> insert (k, d) (set D)"
    by (auto simp: al_emplace_def split: option.splits)
  with assms show ?thesis unfolding disputes_inv_def by (auto simp del: map_map)
qed

lemma disputes_inv_map:
  assumes "disputes_inv T iok acq cur t E D"
    and "\<And>k d. (k, d) \<in> set D \<Longrightarrow> dispute_inv T iok acq cur t E k d \<Longrightarrow>
      dispute_inv T iok acq' cur' t' E' k (f d)"
  shows "disputes_inv T iok acq' cur' t' E' (map (\<lambda>(k, d). (k, f d)) D)"
  using assms unfolding disputes_inv_def by auto

lemma dispute_inv_setVote:
  assumes "dispute_inv T iok acq cur t E k d" "map_of cur n = Some p"
    "acq (position p) = Some st" "v = ts_exists T st (item_key (dtx d))"
  shows "dispute_inv T iok acq cur t (E - {n}) k (setVote n v d)"
  using assms unfolding dispute_inv_def by (auto simp: map_of_setVote setVote_ok)

lemma compares_disputes_swap: "r\<lparr>compares := C, disputes := D\<rparr> = r\<lparr>disputes := D, compares := C\<rparr>"
  for r :: "'ts ConsensusResult"
  by (cases r) simp

lemma result_inv_update:
  assumes "result_inv T tok iok acq cur E F r" "disputes_inv T iok acq cur (txns r) E' D"
    "compared acq cur F' C" "C \<subseteq> dom acq" "txset_exact T tok \<Longrightarrow> covered T acq (txns r) C D"
  shows "result_inv T tok iok acq cur E' F' (r\<lparr>disputes := D, compares := C\<rparr>)"
  using assms by (simp add: result_inv_def)

lemma compared_mono: "compared acq cur F C \<Longrightarrow> F \<subseteq> F' \<Longrightarrow> C \<subseteq> C' \<Longrightarrow> compared acq cur F' C'"
  unfolding compared_def by blast

lemma covered_insert:
  assumes "covered T acq t C D" "al_keys D \<subseteq> al_keys D'" "acq i = Some st"
    "\<And>k. ts_exists T t k \<noteq> ts_exists T st k \<Longrightarrow> k \<in> al_keys D'"
  shows "covered T acq t (insert i C) D'"
  unfolding covered_def
proof (intro ballI allI impI)
  fix j u k
  assume *: "j \<in> insert i C" "acq j = Some u" "ts_exists T t k \<noteq> ts_exists T u k"
  show "k \<in> al_keys D'"
  proof (cases "j = i")
    case True
    with * assms(3,4) show ?thesis by auto
  next
    case False
    with * assms(1) have "k \<in> al_keys D" unfolding covered_def by (meson insertE)
    with assms(2) show ?thesis by (rule subsetD)
  qed
qed

context txset_interface
begin

lemma createDispute_step:
  assumes r: "result s = Some r" and D: "disputes_inv T iok (acquired s) (currPeerPositions s) (txns r) E (disputes r)"
    and t: "tok (txns r)" and o1: "tok o1" and cur: "al_distinct (currPeerPositions s)"
    and cmp: "ts_compare T (txns r) o1 = Some all" and diff: "(k, f) \<in> set all"
  shows "\<exists>s' D'. createDispute T o1 (k, f) s = Some s' \<and> dframe s s'
    \<and> result s' = Some (r\<lparr>disputes := D'\<rparr>) \<and> insert k (al_keys (disputes r)) \<subseteq> al_keys D'
    \<and> disputes_inv T iok (acquired s) (currPeerPositions s) (txns r) E D'"
proof -
  have ex: "ts_exists T (txns r) k = f" "ts_exists T o1 k = (\<not> f)"
    using compare_sound[OF t o1] cmp diff by auto
  then have found: "(ts_find T (txns r) k \<noteq> None) = f" "(ts_find T o1 k \<noteq> None) = (\<not> f)"
    using exists_find t o1 by auto
  then obtain x where x: "(if f then ts_find T (txns r) k else ts_find T o1 k) = Some x" by auto
  then have xk: "item_key x = k" "iok x" using find_key t o1 by (auto split: if_splits)
  have unfolded: "createDispute T o1 (k, f) s =
      (if map_of (disputes r) k \<noteq> None then Some s
       else let d = voteOfPeers T (acquired s) (currPeerPositions s) k (newDispute x f)
            in Some (setResult (r\<lparr>disputes := al_emplace k d (disputes r)\<rparr>) (emit (ShareTx (dtx d)) s)))"
    using found x xk ex by (auto simp: createDispute_def r Let_def)
  show ?thesis
  proof (cases "map_of (disputes r) k")
    case None
    let ?d = "voteOfPeers T (acquired s) (currPeerPositions s) k (newDispute x f)"
    have "dispute_inv T iok (acquired s) (currPeerPositions s) (txns r) E k ?d"
      using cur xk ex by (intro voteOfPeers_dispute_inv) auto
    note inv = disputes_inv_emplace[OF D this]
    have "dframe s (setResult (r\<lparr>disputes := al_emplace k ?d (disputes r)\<rparr>) (emit (ShareTx (dtx ?d)) s))"
      unfolding dframe_def
      by (rule exI[of _ r], rule exI[of _ "al_emplace k ?d (disputes r)"], rule exI[of _ "compares r"],
          rule exI[of _ "[dtx ?d]"]) (simp add: r setResult_def emit_def)
    with None inv show ?thesis unfolding unfolded Let_def
      by (intro exI[of _ "setResult _ _"] exI[of _ "al_emplace k ?d (disputes r)"])
        (auto simp: setResult_def)
  next
    case (Some d)
    then have "k \<in> al_keys (disputes r)" by (simp add: al_keys_map_of)
    with Some D r dframe_refl[OF r] show ?thesis
      unfolding unfolded by (intro exI[of _ s] exI[of _ "disputes r"]) simp
  qed
qed

lemma createDispute_loop:
  assumes r: "result s = Some r" and D: "disputes_inv T iok (acquired s) (currPeerPositions s) (txns r) E (disputes r)"
    and t: "tok (txns r)" and o1: "tok o1" and cur: "al_distinct (currPeerPositions s)"
    and cmp: "ts_compare T (txns r) o1 = Some all" and dl: "set dl \<subseteq> set all"
  shows "\<exists>s' D'. foldM (createDispute T o1) dl s = Some s' \<and> dframe s s'
    \<and> result s' = Some (r\<lparr>disputes := D'\<rparr>) \<and> al_keys dl \<union> al_keys (disputes r) \<subseteq> al_keys D'
    \<and> disputes_inv T iok (acquired s) (currPeerPositions s) (txns r) E D'"
  using r D cur dl t cmp
proof (induction dl arbitrary: s r)
  case Nil
  then show ?case using dframe_refl[of s r] by (intro exI[of _ s] exI[of _ "disputes r"]) simp
next
  case (Cons df dl)
  obtain k f where df: "df = (k, f)" by fastforce
  obtain s1 D1 where s1: "createDispute T o1 df s = Some s1" "dframe s s1"
    "result s1 = Some (r\<lparr>disputes := D1\<rparr>)" "insert k (al_keys (disputes r)) \<subseteq> al_keys D1"
    "disputes_inv T iok (acquired s) (currPeerPositions s) (txns r) E D1"
    using createDispute_step[OF Cons.prems(1,2,5) o1 Cons.prems(3,6), of k f] Cons.prems(4) df by auto
  note fr = dframe_fields[OF s1(2)]
  obtain s2 D2 where s2: "foldM (createDispute T o1) dl s1 = Some s2" "dframe s1 s2"
    "result s2 = Some (r\<lparr>disputes := D2\<rparr>)" "al_keys dl \<union> al_keys D1 \<subseteq> al_keys D2"
    "disputes_inv T iok (acquired s) (currPeerPositions s) (txns r) E D2"
    using Cons.IH[OF s1(3)] s1(5) Cons.prems fr by auto
  have "insert k (al_keys dl) \<union> al_keys (disputes r) \<subseteq> al_keys D2"
    using s1(4) s2(4) by (meson Un_subset_iff insert_subset subset_trans subsetD)
  with s1 s2 dframe_trans[OF s1(2) s2(2)] show ?case
    unfolding df by (intro exI[of _ s2] exI[of _ D2]) simp
qed

lemma createDisputes_step:
  assumes r: "result s = Some r" and inv: "result_inv T tok iok (acquired s) (currPeerPositions s) E F r"
    and o1: "tok o1" and cur: "al_distinct (currPeerPositions s)"
    and acq: "acquired s (ts_id T o1) = Some o1"
  shows "\<exists>s' r'. createDisputes T o1 s = Some s' \<and> dframe s s' \<and> result s' = Some r'
    \<and> result_inv T tok iok (acquired s) (currPeerPositions s) E F r'
    \<and> insert (ts_id T o1) (compares r) \<subseteq> compares r'"
proof (cases "ts_id T o1 \<in> compares r")
  case True
  with assms dframe_refl[OF r] show ?thesis by (auto simp: createDisputes_def)
next
  case False
  define C where "C = insert (ts_id T o1) (compares r)"
  let ?s1 = "setResult (r\<lparr>compares := C\<rparr>) s"
  have r1: "result ?s1 = Some (r\<lparr>compares := C\<rparr>)" by (simp add: setResult_def)
  have fr1: "dframe s ?s1" unfolding dframe_def
    by (rule exI[of _ r], rule exI[of _ "disputes r"], rule exI[of _ C], rule exI[of _ "[]"])
      (simp add: setResult_def r)
  have t: "tok (txns r)" and D: "disputes_inv T iok (acquired s) (currPeerPositions s) (txns r) E (disputes r)"
    and cmp: "compared (acquired s) (currPeerPositions s) F C" "C \<subseteq> dom (acquired s)"
    and cov: "txset_exact T tok \<Longrightarrow> covered T (acquired s) (txns r) (compares r) (disputes r)"
    using inv acq by (auto simp: result_inv_def C_def elim: compared_mono)
  show ?thesis
  proof (cases "ts_id T (txns r) = ts_id T o1")
    case True
    have "covered T (acquired s) (txns r) C (disputes r)" if "txset_exact T tok"
      unfolding C_def using cov[OF that] acq
      by (rule covered_insert[OF _ subset_refl]) (metis that True t o1 txset_exact_def)
    from result_inv_update[OF inv D cmp this] True False fr1 r r1 show ?thesis
      by (simp add: createDisputes_def C_def subset_insertI)
  next
    case neq: False
    obtain dl where dl: "ts_compare T (txns r) o1 = Some dl" using compare_sound[OF t o1] by blast
    obtain s2 D' where s2: "foldM (createDispute T o1) dl ?s1 = Some s2"
      "dframe ?s1 s2" "result s2 = Some (r\<lparr>compares := C\<rparr>\<lparr>disputes := D'\<rparr>)"
      "al_keys dl \<union> al_keys (disputes r) \<subseteq> al_keys D'"
      "disputes_inv T iok (acquired s) (currPeerPositions s) (txns r) E D'"
      using createDispute_loop[OF r1, of E o1 dl dl] D t o1 cur dl dframe_fields[OF fr1]
      by auto
    have "covered T (acquired s) (txns r) C D'" if "txset_exact T tok"
      unfolding C_def using cov[OF that] _ acq
    proof (rule covered_insert)
      show "k \<in> al_keys D'" if "ts_exists T (txns r) k \<noteq> ts_exists T o1 k" for k
        using \<open>txset_exact T tok\<close> t o1 that dl s2(4) unfolding txset_exact_def by blast
    qed (use s2(4) in blast)
    from result_inv_update[OF inv s2(5) cmp this] False neq dl s2 r dframe_trans[OF fr1 s2(2)]
    show ?thesis by (simp add: createDisputes_def C_def subset_insertI compares_disputes_swap)
  qed
qed

lemma updateDisputes_step:
  assumes r: "result s = Some r" and inv: "result_inv T tok iok (acquired s) (currPeerPositions s) E F r"
    and cur: "al_distinct (currPeerPositions s)" "map_of (currPeerPositions s) n = Some p"
    and o1: "tok o1" "position p = ts_id T o1" "acquired s (ts_id T o1) = Some o1"
  shows "\<exists>s' r'. updateDisputes T n o1 s = Some s' \<and> dframe s s' \<and> result s' = Some r'
    \<and> result_inv T tok iok (acquired s) (currPeerPositions s) (E - {n}) (F - {n}) r'"
proof -
  obtain s1 r1 where s1: "(if ts_id T o1 \<notin> compares r then createDisputes T o1 s else Some s) = Some s1"
    "dframe s s1" "result s1 = Some r1"
    "result_inv T tok iok (acquired s) (currPeerPositions s) E F r1" "ts_id T o1 \<in> compares r1"
    using createDisputes_step[OF r inv o1(1) cur(1) o1(3)] dframe_refl[OF r] r inv
    by (cases "ts_id T o1 \<in> compares r") auto
  define D where "D = map (\<lambda>(k, d). (k, setVote n (ts_exists T o1 (item_key (dtx d))) d)) (disputes r1)"
  have "dispute_inv T iok (acquired s) (currPeerPositions s) (txns r1) (E - {n}) k
      (setVote n (ts_exists T o1 (item_key (dtx d))) d)"
    if "dispute_inv T iok (acquired s) (currPeerPositions s) (txns r1) E k d" for k d
    using that cur(2) o1 by (intro dispute_inv_setVote[where st = o1]) auto
  then have "disputes_inv T iok (acquired s) (currPeerPositions s) (txns r1) (E - {n}) D"
    unfolding D_def using s1(4)
    by (intro disputes_inv_map[of T iok "acquired s" "currPeerPositions s" "txns r1" E "disputes r1"])
      (auto simp: result_inv_def)
  moreover have "al_keys D = al_keys (disputes r1)" unfolding D_def by (rule al_keys_map_values)
  moreover have "compared (acquired s) (currPeerPositions s) (F - {n}) (compares r1)"
    using s1(4,5) cur(2) o1(2) by (auto simp: result_inv_def compared_def)
  ultimately have "result_inv T tok iok (acquired s) (currPeerPositions s) (E - {n}) (F - {n})
      (r1\<lparr>disputes := D, compares := compares r1\<rparr>)"
    using s1(4) by (intro result_inv_update[OF s1(4)]) (simp_all add: result_inv_def covered_def)
  moreover have "dframe s1 (setResult (r1\<lparr>disputes := D\<rparr>) s1)" unfolding dframe_def
    by (rule exI[of _ r1], rule exI[of _ D], rule exI[of _ "compares r1"], rule exI[of _ "[]"])
      (simp add: setResult_def s1(3))
  moreover have "updateDisputes T n o1 s = Some (setResult (r1\<lparr>disputes := D\<rparr>) s1)"
    using s1(1,3) by (simp add: updateDisputes_def r D_def)
  ultimately show ?thesis using dframe_trans[OF s1(2)] by (auto simp: setResult_def)
qed

end

end
