(* ===== verification/Consensus_Steps.thy ===== *)
theory Consensus_Steps
  imports Consensus_Inv
begin

text \<open>
  Every operation of the consensus engine returns (no assertion fails, no empty optional is read)
  and keeps the invariant of \<open>Consensus_Inv\<close>.
\<close>

section \<open>What the engine relies on in its adaptor\<close>

definition adaptor_ok :: "'ts TxSetOps \<Rightarrow> ('ts \<Rightarrow> bool) \<Rightarrow> 'ts Adaptor \<Rightarrow> bool" where
  "adaptor_ok T tok A \<longleftrightarrow>
     (\<forall>i st. a_acquireTxSet A i = Some st \<longrightarrow> tok st \<and> ts_id T st = i)
   \<and> (\<forall>i l. a_acquireLedger A i = Some l \<longrightarrow> l_id l = i \<and> l_closeTimeResolution l \<noteq> 0)
   \<and> (\<forall>l t m. tok (fst (a_onClose A l t m))
        \<and> ts_id T (fst (a_onClose A l t m)) = position (snd (a_onClose A l t m)))
   \<and> 0 < avMIN_CONSENSUS_TIME (a_parms A)"

section \<open>The invariant under the changes the operations make\<close>

lemma dframe_base_inv: "dframe s s' \<Longrightarrow> base_inv T tok s' = base_inv T tok s"
  unfolding dframe_def base_inv_def by auto

lemma consensus_inv_now [simp]: "consensus_inv T tok iok (s\<lparr>now := t\<rparr>) = consensus_inv T tok iok s"
  by (simp add: consensus_inv_def base_inv_def)

lemma consensus_inv_out [simp]: "consensus_inv T tok iok (s\<lparr>out := x\<rparr>) = consensus_inv T tok iok s"
  by (simp add: consensus_inv_def base_inv_def)

lemma consensus_inv_emit [simp]: "consensus_inv T tok iok (emit a s) = consensus_inv T tok iok s"
  by (simp add: emit_def)

lemma consensus_inv_setMode [simp]: "consensus_inv T tok iok (setMode m s) = consensus_inv T tok iok s"
  by (simp add: setMode_def emit_def consensus_inv_def base_inv_def)

definition holders :: "(NodeID \<times> ConsensusProposal) list \<Rightarrow> uint256 \<Rightarrow> NodeID set" where
  "holders cur i = {n. \<exists>p. map_of cur n = Some p \<and> position p = i}"

lemma disputes_inv_mono:
  assumes "disputes_inv T iok acq cur t E D"
    and "\<And>k d. (k, d) \<in> set D \<Longrightarrow> dispute_inv T iok acq cur t E k d \<Longrightarrow> dispute_inv T iok acq' cur' t' E' k d"
  shows "disputes_inv T iok acq' cur' t' E' D"
  using assms unfolding disputes_inv_def by auto

lemma dispute_inv_acquire:
  "dispute_inv T iok acq cur t {} k d \<Longrightarrow> dispute_inv T iok (acq(i \<mapsto> st)) cur t (holders cur i) k d"
  unfolding dispute_inv_def holders_def by auto

text \<open>A new set is acquired; it may be the set our own position names.\<close>

lemma result_inv_acquire_own:
  assumes own: "tok (txns r)" "ts_id T (txns r) = position (ourPosition r)"
      "position (ourPosition r) = i \<or> acq (position (ourPosition r)) \<noteq> None"
    and D: "disputes_inv T iok acq cur (txns r) {} (disputes r)" and C: "compared acq cur {} (compares r)"
      "compares r \<subseteq> dom acq"
    and cov: "txset_exact T tok \<Longrightarrow> covered T acq (txns r) (compares r) (disputes r)"
    and i: "acq i = None"
  shows "result_inv T tok iok (acq(i \<mapsto> st)) cur (holders cur i) (holders cur i) r"
proof -
  have ni: "i \<notin> compares r" using C(2) i by auto
  have "disputes_inv T iok (acq(i \<mapsto> st)) cur (txns r) (holders cur i) (disputes r)"
    using D by (auto intro: disputes_inv_mono dispute_inv_acquire)
  moreover have "compared (acq(i \<mapsto> st)) cur (holders cur i) (compares r)"
    using C(1) unfolding compared_def holders_def by auto
  moreover have "covered T (acq(i \<mapsto> st)) (txns r) (compares r) (disputes r)" if "txset_exact T tok"
    using cov[OF that] ni unfolding covered_def by (metis fun_upd_other)
  ultimately show ?thesis using own C(2) unfolding result_inv_def by auto
qed

lemma result_inv_acquire:
  assumes "result_inv T tok iok acq cur {} {} r" "acq i = None"
  shows "result_inv T tok iok (acq(i \<mapsto> st)) cur (holders cur i) (holders cur i) r"
  using assms by (intro result_inv_acquire_own) (auto simp: result_inv_def)

text \<open>A peer takes a new position.\<close>

lemma result_inv_position:
  assumes "result_inv T tok iok acq cur {} {} r"
  shows "result_inv T tok iok acq (AList.update n p cur) {n} {n} r"
proof -
  have "dispute_inv T iok acq (AList.update n p cur) t {n} k d"
    if "dispute_inv T iok acq cur t {} k d" for t k d
    using that unfolding dispute_inv_def by (auto simp: update_conv)
  then have "disputes_inv T iok acq (AList.update n p cur) (txns r) {n} (disputes r)"
    using assms unfolding result_inv_def by (auto intro: disputes_inv_mono)
  moreover have "compared acq (AList.update n p cur) {n} (compares r)"
    using assms unfolding result_inv_def compared_def by (auto simp: update_conv)
  ultimately show ?thesis using assms unfolding result_inv_def by auto
qed

lemma result_inv_unknown:
  assumes "result_inv T tok iok acq cur {n} {n} r" "map_of cur n = Some p" "acq (position p) = None"
  shows "result_inv T tok iok acq cur {} {} r"
proof -
  have "dispute_inv T iok acq cur t {} k d" if "dispute_inv T iok acq cur t {n} k d" for t k d
    using that assms(2,3) unfolding dispute_inv_def by (metis option.distinct(1) option.inject singletonD)
  then have "disputes_inv T iok acq cur (txns r) {} (disputes r)"
    using assms unfolding result_inv_def by (auto intro: disputes_inv_mono)
  moreover have "compared acq cur {} (compares r)"
    using assms unfolding result_inv_def compared_def by (metis option.inject singletonD)
  ultimately show ?thesis using assms unfolding result_inv_def by auto
qed

text \<open>A peer leaves: its votes and its position are removed.\<close>

lemma dispute_inv_unVote:
  assumes "dispute_inv T iok acq cur t E k d" "al_distinct cur"
  shows "dispute_inv T iok acq (AList.delete n cur) t E k (unVote n d)"
proof -
  have "al_distinct (votes d)" using assms(1) by (simp add: dispute_inv_def dispute_ok_distinct)
  with assms show ?thesis unfolding dispute_inv_def
    by (auto simp: map_of_unVote unVote_ok delete_conv' dest: subsetD)
qed

lemma unVoteAll_simps [simp]:
  "txns (unVoteAll n r) = txns r" "ourPosition (unVoteAll n r) = ourPosition r"
  "compares (unVoteAll n r) = compares r" "roundTime (unVoteAll n r) = roundTime r"
  "resState (unVoteAll n r) = resState r" "proposers (unVoteAll n r) = proposers r"
  "al_keys (disputes (unVoteAll n r)) = al_keys (disputes r)"
  by (simp_all add: unVoteAll_def al_keys_map_values del: set_map)

lemma result_inv_leave:
  assumes "result_inv T tok iok acq cur E F r" "al_distinct cur"
  shows "result_inv T tok iok acq (AList.delete n cur) E F (unVoteAll n r)"
proof -
  have "disputes_inv T iok acq (AList.delete n cur) (txns r) E (disputes (unVoteAll n r))"
    unfolding unVoteAll_def using assms
    by (auto simp: result_inv_def intro!: disputes_inv_map dispute_inv_unVote)
  moreover have "compared acq (AList.delete n cur) F (compares r)"
    using assms unfolding result_inv_def compared_def by (auto simp: delete_conv)
  moreover have "covered T acq t (compares r) (disputes (unVoteAll n r)) =
      covered T acq t (compares r) (disputes r)" for t
    unfolding covered_def unVoteAll_simps ..
  ultimately show ?thesis using assms unfolding result_inv_def by simp
qed

section \<open>What peer messages leave alone\<close>

text \<open>
  The part of the state that peer messages do not change, as a projection, and the actions they
  may cause.
\<close>

definition core :: "'ts Consensus \<Rightarrow> 'ts Consensus" where
  "core s = s\<lparr>now := 0, acquired := Map.empty,
     result := map_option (\<lambda>r. r\<lparr>disputes := [], compares := {}\<rparr>) (result s),
     rawCloseTimes := (rawCloseTimes s)\<lparr>ct_peers := []\<rparr>, currPeerPositions := [],
     recentPeerPositions := [], deadNodes := {}, out := []\<rparr>"

fun sharing :: "'ts action \<Rightarrow> bool" where
  "sharing (ShareTx _) = True"
| "sharing (SharePosition _) = True"
| "sharing (ShareTxSet _) = True"
| "sharing _ = False"

definition emits :: "('ts action \<Rightarrow> bool) \<Rightarrow> 'ts Consensus \<Rightarrow> 'ts Consensus \<Rightarrow> bool" where
  "emits P s s' \<longleftrightarrow> (\<exists>as. out s' = out s @ as \<and> (\<forall>a \<in> set as. P a))"

definition peer_frame :: "'ts Consensus \<Rightarrow> 'ts Consensus \<Rightarrow> bool" where
  "peer_frame s s' \<longleftrightarrow> core s' = core s \<and> emits sharing s s'"

lemma emits_refl [simp]: "emits P s s"
  by (auto simp: emits_def)

lemma emits_trans: "emits P s t \<Longrightarrow> emits P t u \<Longrightarrow> emits P s u"
  unfolding emits_def by (metis UnE append.assoc set_append)

lemma emits_mono: "emits P s t \<Longrightarrow> (\<And>a. P a \<Longrightarrow> Q a) \<Longrightarrow> emits Q s t"
  unfolding emits_def by blast

lemma peer_frame_refl [simp]: "peer_frame s s"
  by (simp add: peer_frame_def)

lemma peer_frame_trans: "peer_frame s t \<Longrightarrow> peer_frame t u \<Longrightarrow> peer_frame s u"
  unfolding peer_frame_def using emits_trans by metis

lemma core_fields:
  assumes "core s' = core s"
  shows "phase s' = phase s" "cmode s' = cmode s" "firstRound s' = firstRound s"
    "haveCloseTimeConsensus s' = haveCloseTimeConsensus s" "convergePercent s' = convergePercent s"
    "openTime s' = openTime s" "closeResolution s' = closeResolution s"
    "prevRoundTime s' = prevRoundTime s" "prevCloseTime s' = prevCloseTime s"
    "prevLedgerID s' = prevLedgerID s" "prevLedger s' = prevLedger s"
    "ct_self (rawCloseTimes s') = ct_self (rawCloseTimes s)" "prevProposers s' = prevProposers s"
    "map_option ourPosition (result s') = map_option ourPosition (result s)"
    "map_option txns (result s') = map_option txns (result s)"
    "map_option roundTime (result s') = map_option roundTime (result s)"
    "result s' = None \<longleftrightarrow> result s = None"
proof -
  show "phase s' = phase s" "cmode s' = cmode s" "firstRound s' = firstRound s"
    "haveCloseTimeConsensus s' = haveCloseTimeConsensus s" "convergePercent s' = convergePercent s"
    "openTime s' = openTime s" "closeResolution s' = closeResolution s"
    "prevRoundTime s' = prevRoundTime s" "prevCloseTime s' = prevCloseTime s"
    "prevLedgerID s' = prevLedgerID s" "prevLedger s' = prevLedger s"
    "prevProposers s' = prevProposers s"
    using arg_cong[OF assms, of phase] arg_cong[OF assms, of cmode] arg_cong[OF assms, of firstRound]
      arg_cong[OF assms, of haveCloseTimeConsensus] arg_cong[OF assms, of convergePercent]
      arg_cong[OF assms, of openTime] arg_cong[OF assms, of closeResolution]
      arg_cong[OF assms, of prevRoundTime] arg_cong[OF assms, of prevCloseTime]
      arg_cong[OF assms, of prevLedgerID] arg_cong[OF assms, of prevLedger]
      arg_cong[OF assms, of prevProposers]
    by (simp_all add: core_def)
  show "ct_self (rawCloseTimes s') = ct_self (rawCloseTimes s)"
    using arg_cong[OF assms, of "\<lambda>s. ct_self (rawCloseTimes s)"] by (simp add: core_def)
  show "map_option ourPosition (result s') = map_option ourPosition (result s)"
    "map_option txns (result s') = map_option txns (result s)"
    "map_option roundTime (result s') = map_option roundTime (result s)"
    "result s' = None \<longleftrightarrow> result s = None"
    using arg_cong[OF assms, of "\<lambda>s. map_option ourPosition (result s)"]
      arg_cong[OF assms, of "\<lambda>s. map_option txns (result s)"]
      arg_cong[OF assms, of "\<lambda>s. map_option roundTime (result s)"]
      arg_cong[OF assms, of "\<lambda>s. result s = None"]
    by (simp_all add: core_def option.map_comp comp_def)
qed

lemma dframe_peer_frame: "dframe s s' \<Longrightarrow> peer_frame s s'"
  unfolding dframe_def peer_frame_def core_def emits_def by auto

lemma peer_frame_share [simp]: "peer_frame s (emit (SharePosition p) s)"
  by (auto simp: peer_frame_def core_def emits_def emit_def)

lemma emit_simps [simp]:
  "recentPeerPositions (emit a s) = recentPeerPositions s" "result (emit a s) = result s"
  "phase (emit a s) = phase s" "cmode (emit a s) = cmode s" "acquired (emit a s) = acquired s"
  "currPeerPositions (emit a s) = currPeerPositions s" "out (emit a s) = out s @ [a]"
  by (simp_all add: emit_def)

section \<open>Transaction sets and peer proposals\<close>

context txset_interface
begin

lemma updateDisputes_loop:
  assumes r: "result s = Some r"
    and inv: "result_inv T tok iok (acquired s) (currPeerPositions s) (holders (currPeerPositions s) i)
      (holders (currPeerPositions s) i) r"
    and cur: "al_distinct (currPeerPositions s)"
    and st: "tok st" "ts_id T st = i" "acquired s i = Some st"
    and body: "\<And>n p u. dframe s u \<Longrightarrow>
      f (n, p) u = (if position p = i then updateDisputes T n st u else Some u)"
  shows "\<exists>s' r'. foldM f (currPeerPositions s) s = Some s' \<and> dframe s s' \<and> result s' = Some r'
    \<and> result_inv T tok iok (acquired s) (currPeerPositions s) {} {} r'"
proof -
  let ?cur = "currPeerPositions s"
  let ?I = "\<lambda>ys t. dframe s t \<and> (\<exists>r'. result t = Some r' \<and>
    result_inv T tok iok (acquired s) ?cur (holders ?cur i - al_keys ys) (holders ?cur i - al_keys ys) r')"
  have "\<exists>t. foldM f ?cur s = Some t \<and> ?I ?cur t"
  proof (rule foldM_total_prefix[where I = ?I])
    show "?I [] s" using r inv dframe_refl[OF r] by simp
  next
    fix ys x zs t
    assume xs: "?cur = ys @ x # zs" and I: "?I ys t"
    obtain n p where x: "x = (n, p)" by fastforce
    have n: "map_of ?cur n = Some p" using xs x by (intro map_of_is_SomeI[OF cur]) simp
    from I obtain r' where fr: "dframe s t" and r': "result t = Some r'"
      "result_inv T tok iok (acquired s) ?cur (holders ?cur i - al_keys ys) (holders ?cur i - al_keys ys) r'"
      by blast
    note fl = dframe_fields[OF fr]
    have keys: "holders ?cur i - al_keys (ys @ [x]) = holders ?cur i - al_keys ys - {n}"
      using x by auto
    show "\<exists>t'. f x t = Some t' \<and> ?I (ys @ [x]) t'"
    proof (cases "position p = i")
      case True
      obtain t' r2 where "updateDisputes T n st t = Some t'" "dframe t t'" "result t' = Some r2"
        "result_inv T tok iok (acquired s) ?cur (holders ?cur i - al_keys ys - {n})
           (holders ?cur i - al_keys ys - {n}) r2"
        using updateDisputes_step[OF r'(1), where E = "holders ?cur i - al_keys ys" and
            F = "holders ?cur i - al_keys ys" and n = n and p = p and ?o1.0 = st] fl r'(2) cur n st True
        by auto
      with True x body[OF fr, of n p] dframe_trans[OF fr] show ?thesis unfolding keys by auto
    next
      case False
      with n have "n \<notin> holders ?cur i" by (simp add: holders_def)
      with False x body[OF fr, of n p] fr r' show ?thesis unfolding keys by simp
    qed
  qed
  moreover have "holders ?cur i - al_keys ?cur = {}"
    by (auto simp: holders_def dest: map_of_SomeD) (metis fst_conv imageI map_of_SomeD)
  ultimately show ?thesis by auto
qed

lemma gotTxSet_step:
  assumes inv: "consensus_inv T tok iok s" and st: "tok st"
  shows "\<exists>s'. gotTxSet T t st s = Some s' \<and> consensus_inv T tok iok s' \<and> peer_frame s s'
    \<and> recentPeerPositions s' = recentPeerPositions s"
proof -
  let ?i = "ts_id T st"
  define s2 where "s2 = s\<lparr>now := t, acquired := (acquired s)(?i \<mapsto> st)\<rparr>"
  have core2: "peer_frame s (s\<lparr>now := t\<rparr>)" "peer_frame s s2"
    by (auto simp: peer_frame_def core_def emits_def s2_def)
  have base: "base_inv T tok s" using inv by (simp add: consensus_inv_def)
  have base2: "base_inv T tok s2"
    using base st by (auto simp: base_inv_def s2_def acquired_inv_def)
  consider "phase s = accepted \<or> acquired s ?i \<noteq> None" | "phase s \<noteq> accepted" "acquired s ?i = None" "result s = None"
    | r where "phase s \<noteq> accepted" "acquired s ?i = None" "result s = Some r" by fastforce
  then show ?thesis
  proof cases
    case 1
    with inv core2 show ?thesis by (auto simp: gotTxSet_def)
  next
    case 2
    with base2 core2 show ?thesis by (auto simp: gotTxSet_def s2_def consensus_inv_def)
  next
    case (3 r)
    have ri: "result_inv T tok iok (acquired s) (currPeerPositions s) {} {} r"
      using inv 3 by (simp add: consensus_inv_def)
    then have neq: "?i \<noteq> position (ourPosition r)" using 3 by (auto simp: result_inv_def)
    have r2: "result s2 = Some r" using 3 by (simp add: s2_def)
    have "\<exists>s' r'. foldM (\<lambda>(n, p) u. if position p = ?i then updateDisputes T n st u else Some u)
        (currPeerPositions s2) s2 = Some s' \<and> dframe s2 s' \<and> result s' = Some r'
      \<and> result_inv T tok iok (acquired s2) (currPeerPositions s2) {} {} r'"
      using result_inv_acquire[OF ri, of ?i st] base2 st 3
      by (intro updateDisputes_loop[OF r2, where i = ?i and st = st])
        (auto simp: s2_def base_inv_def positions_inv_def)
    then obtain s' r' where s': "foldM (\<lambda>(n, p) u. if position p = ?i then updateDisputes T n st u else Some u)
        (currPeerPositions s2) s2 = Some s'" "dframe s2 s'" "result s' = Some r'"
      "result_inv T tok iok (acquired s2) (currPeerPositions s2) {} {} r'" by blast
    then have "consensus_inv T tok iok s'"
      using dframe_base_inv[OF s'(2)] base2 dframe_fields[OF s'(2)] by (simp add: consensus_inv_def)
    moreover have "gotTxSet T t st s = Some s'"
      using 3 neq s'(1) by (simp add: gotTxSet_def s2_def)
    moreover have "recentPeerPositions s' = recentPeerPositions s"
      using dframe_fields[OF s'(2)] by (simp add: s2_def)
    ultimately show ?thesis using peer_frame_trans[OF core2(2) dframe_peer_frame[OF s'(2)]] by simp
  qed
qed

lemma bowOut_step:
  assumes inv: "consensus_inv T tok iok s"
  shows "consensus_inv T tok iok (s\<lparr>result := map_option (unVoteAll n) (result s),
    currPeerPositions := AList.delete n (currPeerPositions s), deadNodes := insert n (deadNodes s)\<rparr>)"
proof -
  have "al_distinct (currPeerPositions s)"
    using inv by (simp add: consensus_inv_def base_inv_def positions_inv_def)
  then show ?thesis
    using inv result_inv_leave[of T tok iok "acquired s" "currPeerPositions s" "{}" "{}" _ n]
    by (auto simp: consensus_inv_def base_inv_def positions_inv_def delete_conv')
qed

lemma newPosition_base_inv:
  assumes "base_inv T tok s" "previousLedger p = prevLedgerID s" "\<not> isBowOut p" "nodeID p \<notin> deadNodes s"
  shows "base_inv T tok (s\<lparr>currPeerPositions := AList.update (nodeID p) p (currPeerPositions s),
    rawCloseTimes := c\<rparr>)"
  using assms by (auto simp: base_inv_def positions_inv_def update_conv')

lemma newPosition_step:
  assumes inv: "consensus_inv T tok iok s" and A: "adaptor_ok T tok A"
    and p: "previousLedger p = prevLedgerID s" "\<not> isBowOut p" "nodeID p \<notin> deadNodes s"
    and s3: "s3 = s\<lparr>currPeerPositions := AList.update (nodeID p) p (currPeerPositions s), rawCloseTimes := c\<rparr>"
  shows "\<exists>s'. (case acquired s3 (position p) of
       None \<Rightarrow> (case a_acquireTxSet A (position p) of
                 Some st \<Rightarrow> gotTxSet T (now s3) st s3 | None \<Rightarrow> Some s3)
     | Some st \<Rightarrow> (if result s3 \<noteq> None then updateDisputes T (nodeID p) st s3 else Some s3)) = Some s'
    \<and> consensus_inv T tok iok s' \<and> peer_frame s3 s' \<and> recentPeerPositions s' = recentPeerPositions s"
proof -
  have base: "base_inv T tok s3"
    unfolding s3 using inv p by (intro newPosition_base_inv) (simp_all add: consensus_inv_def)
  have cur: "map_of (currPeerPositions s3) (nodeID p) = Some p" by (simp add: s3 update_conv')
  have ri: "result_inv T tok iok (acquired s3) (currPeerPositions s3) {nodeID p} {nodeID p} r"
    if "result s3 = Some r" for r
    using that inv by (auto simp: s3 consensus_inv_def intro: result_inv_position)
  show ?thesis
  proof (cases "acquired s3 (position p)")
    case None
    then have inv3: "consensus_inv T tok iok s3"
      using base ri cur result_inv_unknown unfolding consensus_inv_def by blast
    show ?thesis
    proof (cases "a_acquireTxSet A (position p)")
      case (Some st)
      then have "tok st" using A by (simp add: adaptor_ok_def)
      from gotTxSet_step[OF inv3 this, of "now s3"] None Some show ?thesis by (auto simp: s3)
    qed (use None inv3 in \<open>simp add: s3\<close>)
  next
    case (Some st)
    show ?thesis
    proof (cases "result s3")
      case None
      with base have "consensus_inv T tok iok s3" by (simp add: consensus_inv_def)
      with Some None show ?thesis by (simp add: s3)
    next
      case (Some r)
      have st: "tok st" "ts_id T st = position p"
        using base \<open>acquired s3 (position p) = Some st\<close> by (auto simp: base_inv_def acquired_inv_def)
      obtain s' r' where s': "updateDisputes T (nodeID p) st s3 = Some s'" "dframe s3 s'" "result s' = Some r'"
        "result_inv T tok iok (acquired s3) (currPeerPositions s3) {} {} r'"
        using updateDisputes_step[OF Some ri[OF Some] _ cur st(1)] st base
          \<open>acquired s3 (position p) = Some st\<close> by (auto simp: base_inv_def positions_inv_def)
      then have "consensus_inv T tok iok s'"
        using dframe_base_inv[OF s'(2)] base dframe_fields[OF s'(2)] by (simp add: consensus_inv_def)
      with s' Some \<open>acquired s3 (position p) = Some st\<close> dframe_peer_frame[OF s'(2)]
        dframe_fields[OF s'(2)] show ?thesis by (simp add: s3)
    qed
  qed
qed

lemma peerProposalInternal_step:
  assumes inv: "consensus_inv T tok iok s" and A: "adaptor_ok T tok A"
  shows "\<exists>b s'. peerProposalInternal T A t p s = Some (b, s') \<and> consensus_inv T tok iok s'
    \<and> peer_frame s s' \<and> recentPeerPositions s' = recentPeerPositions s"
proof -
  define s1 where "s1 = s\<lparr>now := t\<rparr>"
  have s1: "consensus_inv T tok iok s1" "peer_frame s s1" "recentPeerPositions s1 = recentPeerPositions s"
    using inv by (auto simp: s1_def peer_frame_def core_def emits_def)
  let ?old = "case map_of (currPeerPositions s1) (nodeID p) of None \<Rightarrow> False
    | Some q \<Rightarrow> proposeSeq p \<le> proposeSeq q"
  consider "phase s = accepted"
    | "phase s \<noteq> accepted" "previousLedger p \<noteq> prevLedgerID s1 \<or> nodeID p \<in> deadNodes s1 \<or> ?old"
    | "phase s \<noteq> accepted" "previousLedger p = prevLedgerID s1" "nodeID p \<notin> deadNodes s1" "\<not> ?old" "isBowOut p"
    | "phase s \<noteq> accepted" "previousLedger p = prevLedgerID s1" "nodeID p \<notin> deadNodes s1" "\<not> ?old" "\<not> isBowOut p"
    by blast
  then show ?thesis
  proof cases
    case 1
    with inv show ?thesis by (auto simp: peerProposalInternal_def)
  next
    case 2
    then have "peerProposalInternal T A t p s = Some (False, s1)"
      unfolding peerProposalInternal_def Let_def s1_def[symmetric] by auto
    with s1 show ?thesis by auto
  next
    case 3
    let ?s = "s1\<lparr>result := map_option (unVoteAll (nodeID p)) (result s1),
      currPeerPositions := AList.delete (nodeID p) (currPeerPositions s1),
      deadNodes := insert (nodeID p) (deadNodes s1)\<rparr>"
    have "peerProposalInternal T A t p s = Some (True, ?s)"
      using 3 unfolding peerProposalInternal_def Let_def s1_def[symmetric] by simp
    moreover have "peer_frame s1 ?s"
      by (auto simp: peer_frame_def core_def emits_def unVoteAll_def option.map_comp comp_def)
    ultimately show ?thesis
      using bowOut_step[OF s1(1), of "nodeID p"] peer_frame_trans[OF s1(2)] s1(3) by auto
  next
    case 4
    let ?c = "if isInitial p then (rawCloseTimes s1)\<lparr>ct_peers := om_upd (closeTime p) 0 (\<lambda>n. n + 1)
      (ct_peers (rawCloseTimes s1))\<rparr> else rawCloseTimes s1"
    define s3 where "s3 = s1\<lparr>currPeerPositions := AList.update (nodeID p) p (currPeerPositions s1), rawCloseTimes := ?c\<rparr>"
    have fr: "peer_frame s1 s3" by (auto simp: peer_frame_def core_def emits_def s3_def)
    obtain s' where s': "(case acquired s3 (position p) of
       None \<Rightarrow> (case a_acquireTxSet A (position p) of
                 Some st \<Rightarrow> gotTxSet T (now s3) st s3 | None \<Rightarrow> Some s3)
     | Some st \<Rightarrow> (if result s3 \<noteq> None then updateDisputes T (nodeID p) st s3 else Some s3)) = Some s'"
      "consensus_inv T tok iok s'" "peer_frame s3 s'" "recentPeerPositions s' = recentPeerPositions s1"
      using newPosition_step[OF s1(1) A 4(2,5,3) s3_def] by blast
    let ?u = "s1\<lparr>currPeerPositions := AList.update (nodeID p) p (currPeerPositions s1)\<rparr>"
    have "(if isInitial p then ?u\<lparr>rawCloseTimes := (rawCloseTimes ?u)\<lparr>ct_peers := om_upd (closeTime p) 0
        (\<lambda>n. n + 1) (ct_peers (rawCloseTimes ?u))\<rparr>\<rparr> else ?u) = s3"
      by (cases s1) (simp add: s3_def)
    then have "peerProposalInternal T A t p s = Some (True, s')"
      using 4 s'(1) unfolding peerProposalInternal_def Let_def s1_def[symmetric] by (simp only: simp_thms if_False) simp
    with s'(2,4) s1(3) peer_frame_trans[OF peer_frame_trans[OF s1(2) fr] s'(3)] show ?thesis by auto
  qed
qed

lemma peerProposal_step:
  assumes inv: "consensus_inv T tok iok s" and A: "adaptor_ok T tok A"
  shows "\<exists>b s'. peerProposal T A t p s = Some (b, s') \<and> consensus_inv T tok iok s' \<and> peer_frame s s'"
proof -
  define old where "old = (case map_of (recentPeerPositions s) (nodeID p) of None \<Rightarrow> [] | Some ps \<Rightarrow> ps)"
  define ps where "ps = (if 10 \<le> length old then tl old else old) @ [p]"
  let ?s = "s\<lparr>recentPeerPositions := AList.update (nodeID p) ps (recentPeerPositions s)\<rparr>"
  have old: "length old \<le> 10" "\<forall>q \<in> set old. nodeID q = nodeID p"
    using inv by (auto simp: old_def consensus_inv_def base_inv_def recent_inv_def split: option.splits)
  have "set (tl old) \<subseteq> set old" by (cases old) auto
  with old have "length ps \<le> 10 \<and> (\<forall>q \<in> set ps. nodeID q = nodeID p)"
    by (auto simp: ps_def)
  then have "recent_inv (AList.update (nodeID p) ps (recentPeerPositions s))"
    using inv unfolding consensus_inv_def base_inv_def recent_inv_def
    by (simp add: update_conv')
  then have "consensus_inv T tok iok ?s" using inv by (simp add: consensus_inv_def base_inv_def)
  moreover have "peer_frame s ?s" by (simp add: peer_frame_def core_def emits_def)
  ultimately show ?thesis
    using peerProposalInternal_step[OF _ A, of ?s t p] peer_frame_trans[of s ?s]
    unfolding peerProposal_def Let_def old_def[symmetric] ps_def[symmetric] by blast
qed

lemma playbackProposals_step:
  assumes inv: "consensus_inv T tok iok s" and A: "adaptor_ok T tok A"
  shows "\<exists>s'. playbackProposals T A s = Some s' \<and> consensus_inv T tok iok s' \<and> peer_frame s s'
    \<and> recentPeerPositions s' = recentPeerPositions s"
proof -
  let ?I = "\<lambda>u. consensus_inv T tok iok u \<and> peer_frame s u \<and> recentPeerPositions u = recentPeerPositions s"
  have one: "\<exists>u'. playbackProposal T A p u = Some u' \<and> ?I u'" if u: "?I u" for u p
  proof -
    from peerProposalInternal_step[OF conjunct1[OF u] A, of "now u" p]
    obtain b v where v: "peerProposalInternal T A (now u) p u = Some (b, v)" "consensus_inv T tok iok v"
      "peer_frame u v" "recentPeerPositions v = recentPeerPositions u" by blast
    then have "peer_frame s v" "peer_frame s (emit (SharePosition p) v)"
      using u peer_frame_trans peer_frame_share by metis+
    with u v show ?thesis unfolding playbackProposal_def by auto
  qed
  have "\<exists>u. playbackProposals T A s = Some u \<and> ?I u"
    unfolding playbackProposals_def
  proof (rule foldM_total[where I = ?I])
    show "?I s" using inv by simp
    fix x u assume "?I u"
    then show "\<exists>u'. (case x of (_, props) \<Rightarrow> foldM (playbackProposal T A) props) u = Some u' \<and> ?I u'"
      using foldM_total[where I = ?I and f = "playbackProposal T A" and s = u, OF _ one]
      by (cases x) auto
  qed
  then show ?thesis .
qed

end

end
