(* ===== verification/Consensus_Rounds.thy ===== *)
theory Consensus_Rounds
  imports Consensus_Steps
begin

text \<open>
  The phases of a round: closing the ledger, establishing consensus and changing to another prior
  ledger keep the invariant and return.
\<close>

section \<open>Leaving consensus and clearing a round\<close>

lemma leaveConsensus_fields [simp]:
  "phase (leaveConsensus s) = phase s" "acquired (leaveConsensus s) = acquired s"
  "currPeerPositions (leaveConsensus s) = currPeerPositions s" "now (leaveConsensus s) = now s"
  "closeResolution (leaveConsensus s) = closeResolution s" "prevLedgerID (leaveConsensus s) = prevLedgerID s"
  "prevLedger (leaveConsensus s) = prevLedger s" "deadNodes (leaveConsensus s) = deadNodes s"
  "recentPeerPositions (leaveConsensus s) = recentPeerPositions s"
  "rawCloseTimes (leaveConsensus s) = rawCloseTimes s" "prevProposers (leaveConsensus s) = prevProposers s"
  "prevRoundTime (leaveConsensus s) = prevRoundTime s"
  by (simp_all add: leaveConsensus_def Let_def setMode_def setResult_def emit_def split: option.split)

lemma leaveConsensus_result:
  "result (leaveConsensus s) = (if cmode s = proposing then map_option (\<lambda>r.
     if isBowOut (ourPosition r) then r else r\<lparr>ourPosition := bowOut (now s) (ourPosition r)\<rparr>) (result s)
   else result s)"
  by (simp add: leaveConsensus_def Let_def setMode_def setResult_def emit_def split: option.split)

lemma result_inv_bowOut:
  "result_inv T tok iok acq cur E F r \<Longrightarrow>
     result_inv T tok iok acq cur E F (r\<lparr>ourPosition := bowOut t (ourPosition r)\<rparr>)"
  by (simp add: result_inv_def)

lemma leaveConsensus_inv:
  "consensus_inv T tok iok s \<Longrightarrow> consensus_inv T tok iok (leaveConsensus s)"
  by (auto simp: consensus_inv_def base_inv_def leaveConsensus_result result_inv_bowOut)

lemma clearRound_inv:
  assumes "consensus_inv T tok iok s"
  shows "consensus_inv T tok iok (clearRound lgr s)"
proof -
  have "result_inv T tok iok acq [] {} {} (r\<lparr>disputes := [], compares := {}\<rparr>)"
    if "result_inv T tok iok acq cur {} {} r" for acq cur r
    using that by (simp add: inv_defs)
  with assms show ?thesis
    by (auto simp: consensus_inv_def base_inv_def clearRound_def positions_inv_def)
qed

section \<open>Closing the ledger\<close>

text \<open>
  What the phases of one round leave alone, and the actions a node in mode \<open>m\<close> may cause: it
  proposes only when it is proposing.
\<close>

definition round_frame :: "'ts Consensus \<Rightarrow> 'ts Consensus \<Rightarrow> bool" where
  "round_frame s s' \<longleftrightarrow> cmode s' = cmode s \<and> prevLedgerID s' = prevLedgerID s \<and> prevLedger s' = prevLedger s
   \<and> closeResolution s' = closeResolution s \<and> recentPeerPositions s' = recentPeerPositions s
   \<and> deadNodes s' = deadNodes s \<and> prevRoundTime s' = prevRoundTime s \<and> prevProposers s' = prevProposers s
   \<and> now s' = now s \<and> firstRound s' = firstRound s"

fun proposal_action :: "ConsensusMode \<Rightarrow> 'ts action \<Rightarrow> bool" where
  "proposal_action m (Propose p) = (m = proposing)"
| "proposal_action m a = sharing a"

lemma sharing_proposal_action: "sharing a \<Longrightarrow> proposal_action m a"
  by (cases a) auto

lemma dframe_round_frame: "dframe s s' \<Longrightarrow> round_frame s s'"
  using dframe_fields[of s s'] by (simp add: round_frame_def)

lemma round_frame_trans: "round_frame s t \<Longrightarrow> round_frame t u \<Longrightarrow> round_frame s u"
  by (simp add: round_frame_def)

lemma dframe_emits:
  assumes "dframe s s'"
  shows "emits (proposal_action m) s s'"
proof -
  have "emits sharing s s'" using dframe_peer_frame[OF assms] by (simp add: peer_frame_def)
  then show ?thesis by (rule emits_mono) (rule sharing_proposal_action)
qed

lemma emits_emit: "P a \<Longrightarrow> emits P s (emit a s)"
  by (auto simp: emits_def emit_def)

context txset_interface
begin

lemma createDisputes_loop:
  assumes r: "result s = Some r"
    and inv: "result_inv T tok iok (acquired s) (currPeerPositions s) E (al_keys (currPeerPositions s)) r"
    and base: "acquired_inv T tok (acquired s)" "al_distinct (currPeerPositions s)"
  shows "\<exists>s' r'. foldM (\<lambda>(_, prop) u. case acquired u (position prop) of
       None \<Rightarrow> Some u | Some o1 \<Rightarrow> createDisputes T o1 u) (currPeerPositions s) s = Some s'
    \<and> dframe s s' \<and> result s' = Some r'
    \<and> result_inv T tok iok (acquired s) (currPeerPositions s) E {} r'"
proof -
  let ?cur = "currPeerPositions s"
  let ?f = "\<lambda>(_, prop) u. case acquired u (position prop) of
       None \<Rightarrow> Some u | Some o1 \<Rightarrow> createDisputes T o1 u"
  let ?I = "\<lambda>ys u. dframe s u \<and> (\<exists>r'. result u = Some r' \<and>
    result_inv T tok iok (acquired s) ?cur E (al_keys ?cur - al_keys ys) r')"
  have "\<exists>u. foldM ?f ?cur s = Some u \<and> ?I ?cur u"
  proof (rule foldM_total_prefix[where I = ?I])
    show "?I [] s" using r inv dframe_refl[OF r] by simp
  next
    fix ys x zs u
    assume xs: "?cur = ys @ x # zs" and I: "?I ys u"
    obtain n p where x: "x = (n, p)" by fastforce
    have n: "map_of ?cur n = Some p" using xs x by (intro map_of_is_SomeI[OF base(2)]) simp
    from I obtain r' where fr: "dframe s u" and r': "result u = Some r'"
      "result_inv T tok iok (acquired s) ?cur E (al_keys ?cur - al_keys ys) r'" by blast
    note fl = dframe_fields[OF fr]
    have keys: "al_keys ?cur - al_keys (ys @ [x]) = al_keys ?cur - al_keys ys - {n}" using x by auto
    have drop: "result_inv T tok iok (acquired s) ?cur E (al_keys ?cur - al_keys ys - {n}) r2"
      if "result_inv T tok iok (acquired s) ?cur E (al_keys ?cur - al_keys ys) r2"
        "acquired s (position p) = None \<or> position p \<in> compares r2" for r2
      using that n by (auto simp: result_inv_def compared_def)
    show "\<exists>u'. ?f x u = Some u' \<and> ?I (ys @ [x]) u'"
    proof (cases "acquired s (position p)")
      case None
      with x fr r' fl drop[OF r'(2)] show ?thesis unfolding keys by simp
    next
      case (Some o1)
      then have o1: "tok o1" "ts_id T o1 = position p" using base(1) by (auto simp: acquired_inv_def)
      obtain u' r2 where "createDisputes T o1 u = Some u'" "dframe u u'" "result u' = Some r2"
        "result_inv T tok iok (acquired s) ?cur E (al_keys ?cur - al_keys ys) r2" "position p \<in> compares r2"
        using createDisputes_step[OF r'(1), of E "al_keys ?cur - al_keys ys" o1] r'(2) o1 Some fl base(2)
        by auto
      with x Some fl drop dframe_trans[OF fr] show ?thesis unfolding keys by auto
    qed
  qed
  then show ?thesis by auto
qed

lemma closeLedger_step:
  assumes inv: "consensus_inv T tok iok s" and A: "adaptor_ok T tok A" and none: "result s = None"
  shows "\<exists>s' r. closeLedger T A s = Some s' \<and> consensus_inv T tok iok s' \<and> result s' = Some r
    \<and> phase s' = establish \<and> round_frame s s' \<and> emits (proposal_action (cmode s)) s s'
    \<and> currPeerPositions s' = currPeerPositions s"
proof -
  define s1 where "s1 = s\<lparr>phase := establish, rawCloseTimes := (rawCloseTimes s)\<lparr>ct_self := now s\<rparr>\<rparr>"
  obtain st pos where oc: "a_onClose A (prevLedger s1) (now s1) (cmode s1) = (st, pos)" by fastforce
  then have st: "tok st" "ts_id T st = position pos"
    using A unfolding adaptor_ok_def by (metis fst_conv snd_conv)+
  define r where "r = \<lparr>txns = st, ourPosition = pos, disputes = [], compares = {},
    roundTime = timer_reset (a_clockNow A) \<lparr>tm_start = 0, tm_dur = 0\<rparr>, resState = No, proposers = 0\<rparr>"
  define s2 where "s2 = setResult r s1"
  define s3 where "s3 = (if acquired s2 (ts_id T st) = None
    then emit (ShareTxSet st) (s2\<lparr>acquired := (acquired s2)(ts_id T st \<mapsto> st)\<rparr>) else s2)"
  define s4 where "s4 = (if cmode s3 = proposing then emit (Propose pos) s3 else s3)"
  have base4: "base_inv T tok s4"
    using inv st by (auto simp: base_inv_def consensus_inv_def acquired_inv_def s4_def s3_def s2_def
        setResult_def s1_def emit_def)
  have r4: "result s4 = Some r" by (simp add: s4_def s3_def s2_def setResult_def emit_def)
  have fr4: "round_frame s s4" "phase s4 = establish" "currPeerPositions s4 = currPeerPositions s"
    by (simp_all add: round_frame_def s4_def s3_def s2_def setResult_def s1_def emit_def)
  have em4: "emits (proposal_action (cmode s)) s s4"
    by (auto simp: emits_def s4_def s3_def s2_def setResult_def s1_def emit_def)
  have acq: "acquired s4 (ts_id T st) \<noteq> None" by (auto simp: s4_def s3_def emit_def)
  have ri: "result_inv T tok iok (acquired s4) (currPeerPositions s4) {} (al_keys (currPeerPositions s4)) r"
    using st acq by (auto simp: r_def inv_defs al_keys_map_of)
  have "acquired_inv T tok (acquired s4)" "al_distinct (currPeerPositions s4)"
    using base4 by (simp_all add: base_inv_def positions_inv_def)
  from createDisputes_loop[OF r4 ri this] obtain s' r' where s': "foldM (\<lambda>(_, prop) u. case acquired u (position prop) of
       None \<Rightarrow> Some u | Some o1 \<Rightarrow> createDisputes T o1 u) (currPeerPositions s4) s4 = Some s'"
    "dframe s4 s'" "result s' = Some r'"
    "result_inv T tok iok (acquired s4) (currPeerPositions s4) {} {} r'"
    by blast
  note fl = dframe_fields[OF s'(2)]
  have "closeLedger T A s = foldM (\<lambda>(_, prop) u. case acquired u (position prop) of
       None \<Rightarrow> Some u | Some o1 \<Rightarrow> createDisputes T o1 u) (currPeerPositions s4) s4"
    using none oc st(2) unfolding s4_def s3_def s2_def r_def s1_def
    by (simp add: closeLedger_def newResult_def Let_def)
  then have "closeLedger T A s = Some s'" using s'(1) by simp
  moreover have "consensus_inv T tok iok s'"
    using dframe_base_inv[OF s'(2), of T tok] base4 s' fl by (simp add: consensus_inv_def)
  moreover note round_frame_trans[OF fr4(1) dframe_round_frame[OF s'(2)]]
    emits_trans[OF em4 dframe_emits[OF s'(2)]]
  ultimately show ?thesis using fl fr4 s'(3) by simp
qed

lemma phaseOpen_step:
  assumes inv: "consensus_inv T tok iok s" and A: "adaptor_ok T tok A" and p: "phase s = popen"
  shows "\<exists>s'. phaseOpen T A s = Some s' \<and> consensus_inv T tok iok s' \<and> round_frame s s'
    \<and> emits (proposal_action (cmode s)) s s' \<and> phase s' \<noteq> accepted"
proof -
  let ?s = "s\<lparr>openTime := timer_tick (a_clockNow A) (openTime s)\<rparr>"
  have inv': "consensus_inv T tok iok ?s" using inv by (simp add: consensus_inv_def base_inv_def)
  have "result ?s = None" using inv p by (simp add: consensus_inv_def base_inv_def)
  from closeLedger_step[OF inv' A this] inv' p show ?thesis
    unfolding phaseOpen_def Let_def by (auto simp: round_frame_def emits_def)
qed

end

section \<open>Stale peers\<close>

text \<open>The close times of peers, rounded to the resolution of the round, with their counts.\<close>

definition tallyCloseTimes :: "NetDuration \<Rightarrow> (NodeID \<times> ConsensusProposal) list \<Rightarrow> (NetTime \<times> int) list" where
  "tallyCloseTimes res ps =
     fold (\<lambda>(_, p). om_upd (the (roundCloseTime (closeTime p) res)) 0 (\<lambda>n. n + 1)) ps []"

definition dropStale :: "NetTime \<Rightarrow> (NodeID \<times> ConsensusProposal) list \<Rightarrow> (NodeID \<times> ConsensusProposal) list" where
  "dropStale cutoff cur = filter (\<lambda>(_, p). \<not> isStale cutoff p) cur"

lemma delete_middle:
  assumes "al_distinct (xs @ (n, p) # ys)"
  shows "AList.delete n (xs @ (n, p) # ys) = xs @ ys"
proof -
  have "n \<notin> al_keys xs" "n \<notin> al_keys ys" using assms by auto
  then have "AList.delete n xs = xs" "AList.delete n ys = ys" by (auto intro: AList.delete_idem)
  then show ?thesis by (simp add: AList.delete_eq)
qed

lemma freshness_loop:
  assumes inv: "result_inv T tok iok acq cur {} {} r" and cur: "positions_inv lgr dead cur"
    and res: "res \<noteq> 0"
  shows "\<exists>D. foldM (freshnessStep cutoff res) cur ([], r, []) =
      Some (dropStale cutoff cur, r\<lparr>disputes := D\<rparr>, tallyCloseTimes res (dropStale cutoff cur))
    \<and> result_inv T tok iok acq (dropStale cutoff cur) {} {} (r\<lparr>disputes := D\<rparr>)"
proof -
  let ?I = "\<lambda>ys (kept, r', v). kept = dropStale cutoff ys \<and> v = tallyCloseTimes res kept
    \<and> result_inv T tok iok acq (kept @ drop (length ys) cur) {} {} r'
    \<and> r' = r\<lparr>disputes := disputes r'\<rparr>"
  have "\<exists>t. foldM (freshnessStep cutoff res) cur ([], r, []) = Some t \<and> ?I cur t"
  proof (rule foldM_total_prefix[where I = ?I])
    show "?I [] ([], r, [])" using inv by (simp add: dropStale_def tallyCloseTimes_def)
  next
    fix ys x zs t
    assume xs: "cur = ys @ x # zs" and I: "?I ys t"
    obtain n p where x: "x = (n, p)" by fastforce
    obtain kept r' v where t: "t = (kept, r', v)" by (cases t)
    have n: "nodeID p = n"
      using cur xs x map_of_is_SomeI[of cur n p] by (auto simp: positions_inv_def)
    have d: "al_distinct (dropStale cutoff ys @ (n, p) # zs)"
      using cur xs x by (auto simp: positions_inv_def dropStale_def distinct_map_filter)
    obtain tt where tt: "roundCloseTime (closeTime p) res = Some tt" using roundCloseTime_defined[OF res] by blast
    have I': "kept = dropStale cutoff ys" "v = tallyCloseTimes res kept"
      "result_inv T tok iok acq (dropStale cutoff ys @ (n, p) # zs) {} {} r'"
      "r' = r\<lparr>disputes := disputes r'\<rparr>" using I t xs x by auto
    show "\<exists>t'. freshnessStep cutoff res x t = Some t' \<and> ?I (ys @ [x]) t'"
    proof (cases "isStale cutoff p")
      case True
      have "unVoteAll n r' = r\<lparr>disputes := disputes (unVoteAll n r')\<rparr>"
        by (subst I'(4)) (simp add: unVoteAll_def)
      with True x t n I' xs result_inv_leave[OF I'(3) d, of n] delete_middle[OF d] show ?thesis
        by (simp add: freshnessStep_def dropStale_def)
    next
      case False
      with x t n I' xs tt show ?thesis
        by (simp add: freshnessStep_def dropStale_def tallyCloseTimes_def)
    qed
  qed
  then show ?thesis by (auto split: prod.splits)
qed

section \<open>Updating our position\<close>

context txset_interface
begin

text \<open>The set our disputes stand for after some votes: the mutable copy, once there is one.\<close>

definition current_set :: "'ts \<Rightarrow> 'ts option \<Rightarrow> 'ts" where
  "current_set ours ms = (case ms of None \<Rightarrow> ts_mutable T ours | Some m \<Rightarrow> m)"

lemma updateVotes_foldM:
  assumes "disputes_inv T iok acq cur ours E D" "tok ours"
  shows "\<exists>ms. foldM (updateVoteStep T pct b parms ours) D ([], None) =
      Some (map (\<lambda>(k, d). (k, snd (updateVote pct b parms d))) D, ms)
    \<and> (ms = None \<longrightarrow> (\<forall>(k, d) \<in> set D. ourVote (snd (updateVote pct b parms d)) = ourVote d))
    \<and> mok (current_set ours ms)
    \<and> (\<forall>k. ts_exists T (current_set ours ms) k =
          (case map_of D k of None \<Rightarrow> ts_exists T ours k
           | Some d \<Rightarrow> ourVote (snd (updateVote pct b parms d))))"
  using assms
proof (induction D rule: rev_induct)
  case Nil
  then show ?case using mutable_ok by (simp add: current_set_def)
next
  case (snoc x D)
  obtain i d where x: "x = (i, d)" by fastforce
  define d' where "d' = snd (updateVote pct b parms d)"
  have ch: "updateVote pct b parms d = (ourVote d' \<noteq> ourVote d, d')"
    using updateVote_changed[of pct b parms d] by (simp add: prod_eq_iff d'_def)
  have d: "item_key (dtx d') = i" "iok (dtx d')" "ourVote d = ts_exists T ours i" "map_of D i = None"
    using snoc.prems(1) x by (auto simp: disputes_inv_def dispute_inv_def map_of_eq_None_iff d'_def)
  have "disputes_inv T iok acq cur ours E D" using snoc.prems(1) by (auto simp: disputes_inv_def)
  from snoc.IH[OF this snoc.prems(2)] obtain ms where ms:
    "foldM (updateVoteStep T pct b parms ours) D ([], None) =
      Some (map (\<lambda>(k, d). (k, snd (updateVote pct b parms d))) D, ms)"
    "ms = None \<longrightarrow> (\<forall>(k, d) \<in> set D. ourVote (snd (updateVote pct b parms d)) = ourVote d)"
    "mok (current_set ours ms)"
    "\<And>k. ts_exists T (current_set ours ms) k =
      (case map_of D k of None \<Rightarrow> ts_exists T ours k | Some d \<Rightarrow> ourVote (snd (updateVote pct b parms d)))"
    by blast
  have "\<exists>m'. (if ourVote d' then ts_insert T (dtx d') (current_set ours ms) else ts_erase T i (current_set ours ms)) = Some m'
      \<and> mok m' \<and> (\<forall>k. ts_exists T m' k = (if k = i then ourVote d' else ts_exists T (current_set ours ms) k))"
    using insert_ok[OF ms(3) d(2)] erase_ok[OF ms(3), of i] d(1) by (cases "ourVote d'") auto
  then obtain m' where m': "(if ourVote d' then ts_insert T (dtx d') (current_set ours ms)
      else ts_erase T i (current_set ours ms)) = Some m'" "mok m'"
    "\<And>k. ts_exists T m' k = (if k = i then ourVote d' else ts_exists T (current_set ours ms) k)" by blast
  have mo: "map_of (D @ [x]) k = (if k = i then Some d else map_of D k)" for k
    using d(4) x by (auto simp: map_add_def split: option.split)
  have step: "foldM (updateVoteStep T pct b parms ours) (D @ [x]) ([], None) =
      Some (map (\<lambda>(k, d). (k, snd (updateVote pct b parms d))) (D @ [x]),
       if ourVote d' \<noteq> ourVote d then Some m' else ms)"
    using ms(1) x ch m'(1)
    by (auto simp: foldM_append updateVoteStep_def Let_def current_set_def[symmetric] split: if_splits)
  show ?case
  proof (cases "ourVote d' = ourVote d")
    case True
    with step ms(2-4) x d mo show ?thesis
      by (intro exI[of _ ms]) (auto simp: d'_def[symmetric] simp del: map_of_append)
  next
    case False
    with step m' ms(4) mo d'_def show ?thesis
      by (intro exI[of _ "Some m'"]) (simp add: current_set_def del: map_of_append)
  qed
qed

text \<open>Our own position changes: the votes of the disputes and the set change together.\<close>

lemma disputes_inv_updateVotes:
  assumes D: "disputes_inv T iok acq cur t {} D" and t: "tok t"
  shows "\<exists>ds ms. foldM (updateVoteStep T pct b parms t) D ([], None) = Some (ds, ms)
    \<and> (\<forall>st. st = (case map_option (ts_fixed T) ms of None \<Rightarrow> t | Some m \<Rightarrow> m) \<longrightarrow>
        tok st \<and> disputes_inv T iok acq cur st {} ds \<and> al_keys ds = al_keys D
        \<and> (\<forall>k. k \<notin> al_keys ds \<longrightarrow> ts_exists T st k = ts_exists T t k))"
proof -
  let ?ds = "map (\<lambda>(k, d). (k, snd (updateVote pct b parms d))) D"
  obtain ms where ms: "foldM (updateVoteStep T pct b parms t) D ([], None) = Some (?ds, ms)"
    "mok (current_set t ms)" "\<And>k. ts_exists T (current_set t ms) k =
      (case map_of D k of None \<Rightarrow> ts_exists T t k
       | Some d \<Rightarrow> ourVote (snd (updateVote pct b parms d)))"
    using updateVotes_foldM[OF D t, of pct b parms] by blast
  define st where "st = (case map_option (ts_fixed T) ms of None \<Rightarrow> t | Some m \<Rightarrow> m)"
  have tok: "tok st" and ex: "\<And>k. ts_exists T st k = ts_exists T (current_set t ms) k"
    using ms(2) t mutable_ok[OF t] fixed_ok by (auto simp: st_def current_set_def split: option.split)
  have keys: "al_keys ?ds = al_keys D" by (rule al_keys_map_values)
  have "dispute_inv T iok acq cur st {} k (snd (updateVote pct b parms d))"
    if "(k, d) \<in> set D" "dispute_inv T iok acq cur t {} k d" for k d
  proof -
    have "map_of D k = Some d" using D that(1) by (simp add: disputes_inv_def map_of_is_SomeI)
    with ex[of k] ms(3)[of k] that(2) show ?thesis by (simp add: dispute_inv_def updateVote_ok)
  qed
  with D have "disputes_inv T iok acq cur st {} ?ds" by (rule disputes_inv_map)
  moreover have "ts_exists T st k = ts_exists T t k" if "k \<notin> al_keys ?ds" for k
    using that ex[of k] ms(3)[of k] unfolding keys by (simp add: al_keys_map_of)
  ultimately show ?thesis using ms(1) tok keys unfolding st_def by blast
qed

lemma shareOwnSet_loop:
  assumes r: "result s = Some r" "txns r = st" and base: "base_inv T tok s"
    and st: "tok st" "acquired s (ts_id T st) = Some st"
    and inv: "result_inv T tok iok (acquired s) (currPeerPositions s)
      (holders (currPeerPositions s) (ts_id T st)) (holders (currPeerPositions s) (ts_id T st)) r"
  shows "\<exists>s' r'. foldM (\<lambda>(node, p) u. if position p = ts_id T st
      then do { ru \<leftarrow> result u; updateDisputes T node (txns ru) u } else Some u) (currPeerPositions s) s = Some s'
    \<and> dframe s s' \<and> consensus_inv T tok iok s' \<and> result s' = Some r' \<and> ourPosition r' = ourPosition r
    \<and> roundTime r' = roundTime r"
proof -
  let ?f = "\<lambda>(node, p) u. if position p = ts_id T st
    then do { ru \<leftarrow> result u; updateDisputes T node (txns ru) u } else Some u"
  have body: "?f (n, p) u = (if position p = ts_id T st then updateDisputes T n st u else Some u)"
    if "dframe s u" for n p u
    by (rule dframe_result[OF that r(1)]) (simp add: r(2))
  have "al_distinct (currPeerPositions s)" using base by (simp add: base_inv_def positions_inv_def)
  from updateDisputes_loop[OF r(1) inv this st(1) refl st(2) body]
  obtain s' r' where s': "foldM ?f (currPeerPositions s) s = Some s'" "dframe s s'" "result s' = Some r'"
    "result_inv T tok iok (acquired s) (currPeerPositions s) {} {} r'" by blast
  then have "consensus_inv T tok iok s'"
    using base dframe_base_inv[OF s'(2), of T tok] dframe_fields[OF s'(2)] by (simp add: consensus_inv_def)
  moreover have "ourPosition r' = ourPosition r" "roundTime r' = roundTime r"
    by (rule dframe_result[OF s'(2) r(1)], simp add: s'(3))+
  ultimately show ?thesis using s'(1-3) by blast
qed

lemma adoptPosition_step:
  assumes base: "base_inv T tok (setResult r s)" and ph: "phase s = establish" and st: "tok st"
    and D: "disputes_inv T iok (acquired s) (currPeerPositions s) st {} (disputes r)"
    and C: "compared (acquired s) (currPeerPositions s) {} (compares r)" "compares r \<subseteq> dom (acquired s)"
    and cov: "txset_exact T tok \<Longrightarrow> covered T (acquired s) st (compares r) (disputes r)"
  shows "\<exists>s' r'. adoptPosition T st ct r s = Some s' \<and> consensus_inv T tok iok s' \<and> round_frame s s'
    \<and> phase s' = establish \<and> emits (proposal_action (cmode s)) s s' \<and> result s' = Some r'
    \<and> ourPosition r' = changePosition (ts_id T st) ct (now s) (ourPosition r) \<and> roundTime r' = roundTime r
    \<and> currPeerPositions s' = currPeerPositions s \<and> haveCloseTimeConsensus s' = haveCloseTimeConsensus s"
proof -
  let ?i = "ts_id T st"
  define r3 where "r3 = r\<lparr>txns := st, ourPosition := changePosition ?i ct (now s) (ourPosition r)\<rparr>"
  define s3 where "s3 = setResult r3 s"
  define s3b where "s3b = (if \<not> isBowOut (ourPosition r3) then emit (ShareTxSet st)
    (s3\<lparr>acquired := (acquired s3)(?i \<mapsto> st)\<rparr>) else s3\<lparr>acquired := (acquired s3)(?i \<mapsto> st)\<rparr>)"
  let ?f = "\<lambda>(node, p) u. if position p = ?i
    then do { ru \<leftarrow> result u; updateDisputes T node (txns ru) u } else Some u"
  have base3: "base_inv T tok s3" "base_inv T tok s3b"
    using base ph st by (auto simp: base_inv_def s3_def s3b_def setResult_def acquired_inv_def emit_def)
  have r3: "txns r3 = st" "ourPosition r3 = changePosition ?i ct (now s) (ourPosition r)" "roundTime r3 = roundTime r"
    "disputes r3 = disputes r" "compares r3 = compares r" by (simp_all add: r3_def)
  have fr3: "round_frame s s3" "round_frame s s3b" "emits (proposal_action (cmode s)) s s3"
    "emits (proposal_action (cmode s)) s s3b" "phase s3 = establish" "phase s3b = establish"
    "currPeerPositions s3b = currPeerPositions s" "currPeerPositions s3 = currPeerPositions s"
    "haveCloseTimeConsensus s3 = haveCloseTimeConsensus s" "haveCloseTimeConsensus s3b = haveCloseTimeConsensus s"
    "result s3 = Some r3" "result s3b = Some r3"
    using ph by (auto simp: round_frame_def emits_def s3_def s3b_def setResult_def emit_def)
  have "\<exists>s4 r4. (if acquired s3 ?i = None then foldM ?f (currPeerPositions s3b) s3b else Some s3) = Some s4
    \<and> consensus_inv T tok iok s4 \<and> round_frame s s4 \<and> phase s4 = establish
    \<and> emits (proposal_action (cmode s)) s s4 \<and> result s4 = Some r4 \<and> ourPosition r4 = ourPosition r3
    \<and> roundTime r4 = roundTime r \<and> currPeerPositions s4 = currPeerPositions s
    \<and> haveCloseTimeConsensus s4 = haveCloseTimeConsensus s"
  proof (cases "acquired s ?i")
    case None
    have ri: "result_inv T tok iok (acquired s3b) (currPeerPositions s3b) (holders (currPeerPositions s3b) ?i)
        (holders (currPeerPositions s3b) ?i) r3"
      using result_inv_acquire_own[where r = r3 and acq = "acquired s" and i = ?i and st = st] r3 st D C cov None
      by (simp add: s3b_def s3_def setResult_def)
    have "acquired s3b ?i = Some st" by (simp add: s3b_def)
    from shareOwnSet_loop[OF fr3(12) r3(1) base3(2) st this ri]
    obtain s4 r4 where s4: "foldM ?f (currPeerPositions s3b) s3b = Some s4" "dframe s3b s4" "consensus_inv T tok iok s4"
      "result s4 = Some r4" "ourPosition r4 = ourPosition r3" "roundTime r4 = roundTime r3" by blast
    with fr3 r3 None round_frame_trans[OF fr3(2) dframe_round_frame[OF s4(2)]] dframe_fields[OF s4(2)]
      emits_trans[OF fr3(4) dframe_emits[OF s4(2)]] show ?thesis by (simp add: s3_def setResult_def)
  next
    case (Some x)
    have "result_inv T tok iok (acquired s3) (currPeerPositions s3) {} {} r3"
      using Some st r3 D C cov by (simp add: result_inv_def s3_def setResult_def)
    with base3(1) fr3 have "consensus_inv T tok iok s3" by (simp add: consensus_inv_def)
    with Some fr3 r3 show ?thesis by (simp add: s3_def setResult_def)
  qed
  then obtain s4 r4 where s4: "(if acquired s3 ?i = None then foldM ?f (currPeerPositions s3b) s3b else Some s3) = Some s4"
    "consensus_inv T tok iok s4" "round_frame s s4" "phase s4 = establish"
    "emits (proposal_action (cmode s)) s s4" "result s4 = Some r4" "ourPosition r4 = ourPosition r3"
    "roundTime r4 = roundTime r" "currPeerPositions s4 = currPeerPositions s"
    "haveCloseTimeConsensus s4 = haveCloseTimeConsensus s" by blast
  define s5 where "s5 = (if \<not> isBowOut (ourPosition r4) \<and> cmode s4 = proposing
    then emit (Propose (ourPosition r4)) s4 else s4)"
  have "adoptPosition T st ct r s = Some s5"
    using s4(1,6) unfolding adoptPosition_def s5_def s3b_def s3_def r3_def Let_def by simp
  moreover have "emits (proposal_action (cmode s)) s s5"
    using s4(3,5) emits_trans[OF s4(5) emits_emit] by (auto simp: s5_def round_frame_def)
  ultimately show ?thesis using s4 r3 by (auto simp: s5_def round_frame_def emit_def)
qed

end

end
