(* ===== verification/Consensus_Events.thy ===== *)
theory Consensus_Events
  imports Consensus_Rounds
begin

text \<open>
  The entry points of the consensus engine. \<open>timerEntry\<close>, \<open>startRound\<close>, \<open>simulate\<close> and the
  handlers of peer messages return and keep the invariant, whatever the adaptor answers within
  its contract; the engine is an instance of \<open>invariant_component\<close>.
\<close>

section \<open>The establish phase\<close>

lemma consensusClose_defined:
  assumes "closeResolution s \<noteq> 0"
  shows "\<exists>t have. consensusClose parms votes1 r s = Some (t, have)"
  using roundCloseTime_defined[OF assms, of "closeTime (ourPosition r)"]
  by (cases "closeTimeVote parms (convergePercent s) (int_of_size (length (currPeerPositions s))) votes1")
    (auto simp: consensusClose_def asCloseTime_def split: prod.split)

lemma dropStale_positions_inv:
  "positions_inv lgr dead cur \<Longrightarrow> positions_inv lgr dead (dropStale cutoff cur)"
  unfolding positions_inv_def dropStale_def
  by (auto simp: distinct_map_filter map_of_eq_Some_iff)

lemma shouldPause_defined: "result s = Some r \<Longrightarrow> \<exists>b. shouldPause A s = Some b"
  by (simp add: shouldPause_def Let_def split: prod.split)

text \<open>
  What holds when the establish phase ends: the round took the minimum time, the close time is
  agreed, only fresh positions of peers are left, the verdict on them was not \<open>No\<close>, and the last
  actions are the change of the operating mode and the acceptance of our result.
\<close>

definition accepts :: "'ts Adaptor \<Rightarrow> 'ts Consensus \<Rightarrow> 'ts Consensus \<Rightarrow> bool" where
  "accepts A s s' \<longleftrightarrow> (\<exists>r as. result s' = Some r
     \<and> ledgerMIN_CONSENSUS (a_parms A) \<le> timer_read (roundTime r) \<and> haveCloseTimeConsensus s'
     \<and> list_all (\<lambda>(_, p). \<not> isStale (now s - word_of_int (proposeFRESHNESS (a_parms A))) p) (currPeerPositions s')
     \<and> resState r = checkConsensus (prevProposers s) (length (currPeerPositions s'))
         (length (filter (\<lambda>(_, p). position p = position (ourPosition r)) (currPeerPositions s')))
         (a_proposersFinished A (prevLedger s) (prevLedgerID s)) (prevRoundTime s) (timer_read (roundTime r))
         (a_parms A) (cmode s = proposing)
     \<and> resState r \<noteq> No
     \<and> out s' = as @ [UpdateOperatingMode (length (currPeerPositions s')),
                     OnAccept r (prevLedger s) (closeResolution s) (rawCloseTimes s') (cmode s)])"

text \<open>A step after which the node proposes, or during which it did, started while proposing.\<close>

definition quiet :: "'ts Consensus \<Rightarrow> 'ts Consensus \<Rightarrow> bool" where
  "quiet s s' \<longleftrightarrow> (cmode s' = proposing \<longrightarrow> cmode s = proposing)
     \<and> emits (\<lambda>a. \<forall>p. a = Propose p \<longrightarrow> cmode s = proposing) s s'"

lemma quiet_refl [simp]: "quiet s s"
  by (simp add: quiet_def)

lemma quiet_trans:
  assumes "quiet s t" "quiet t u"
  shows "quiet s u"
proof -
  have "emits (\<lambda>a. \<forall>p. a = Propose p \<longrightarrow> cmode s = proposing) t u"
    using assms unfolding quiet_def by (auto elim: emits_mono)
  with assms show ?thesis unfolding quiet_def by (blast intro: emits_trans)
qed

lemma peer_frame_quiet: "peer_frame s s' \<Longrightarrow> quiet s s'"
  unfolding peer_frame_def quiet_def
  by (auto dest: core_fields(2) elim: emits_mono)

lemma peer_frame_fields:
  assumes "peer_frame s s'"
  shows "cmode s' = cmode s" "prevLedgerID s' = prevLedgerID s" "prevLedger s' = prevLedger s"
    "phase s' = phase s" "prevProposers s' = prevProposers s" "result s' = None \<longleftrightarrow> result s = None"
  using assms core_fields[of s' s] by (auto simp: peer_frame_def)

lemma proposal_action_quiet:
  "round_frame s s' \<Longrightarrow> emits (proposal_action (cmode s)) s s' \<Longrightarrow> quiet s s'"
  unfolding round_frame_def quiet_def by (auto elim: emits_mono)

lemma emit_quiet: "(\<And>p. a \<noteq> Propose p) \<Longrightarrow> quiet s (emit a s)"
  by (auto simp: quiet_def emits_def)

lemma quiet_update:
  assumes "cmode s' = cmode s" "out s' = out s"
  shows "quiet s s'"
  using assms by (simp add: quiet_def emits_def)

lemma setMode_quiet: "m \<noteq> proposing \<Longrightarrow> quiet s (setMode m s)"
  by (auto simp: quiet_def emits_def setMode_def emit_def)

lemma leaveConsensus_quiet: "quiet s (leaveConsensus s)"
  by (auto simp: quiet_def emits_def leaveConsensus_def setMode_def emit_def setResult_def Let_def split: option.split)

context txset_interface
begin

lemma updateOurPositions_step:
  assumes inv: "consensus_inv T tok iok s" and ph: "phase s = establish" and r: "result s = Some r"
    and cut: "cutoff = now s - word_of_int (proposeFRESHNESS (a_parms A))"
  shows "\<exists>s' r'. updateOurPositions T A s = Some s' \<and> consensus_inv T tok iok s' \<and> round_frame s s'
    \<and> phase s' = establish \<and> emits (proposal_action (cmode s)) s s' \<and> result s' = Some r'
    \<and> roundTime r' = roundTime r \<and> currPeerPositions s' = dropStale cutoff (currPeerPositions s)"
proof -
  let ?kept = "dropStale cutoff (currPeerPositions s)"
  have base: "base_inv T tok s" and ri: "result_inv T tok iok (acquired s) (currPeerPositions s) {} {} r"
    using inv r by (auto simp: consensus_inv_def)
  then have pos: "positions_inv (prevLedgerID s) (deadNodes s) (currPeerPositions s)"
    and res: "closeResolution s \<noteq> 0" by (auto simp: base_inv_def)
  obtain D where fresh: "foldM (freshnessStep cutoff (closeResolution s)) (currPeerPositions s) ([], r, []) =
      Some (?kept, r\<lparr>disputes := D\<rparr>, tallyCloseTimes (closeResolution s) ?kept)"
    "result_inv T tok iok (acquired s) ?kept {} {} (r\<lparr>disputes := D\<rparr>)"
    using freshness_loop[OF ri pos res] by blast
  define s1 where "s1 = s\<lparr>currPeerPositions := ?kept\<rparr>"
  obtain ds ms where fold: "foldM (updateVoteStep T (convergePercent s1) (cmode s1 = proposing) (a_parms A)
      (txns r)) D ([], None) = Some (ds, ms)"
    and uv0: "\<And>st. st = (case map_option (ts_fixed T) ms of None \<Rightarrow> txns r | Some m \<Rightarrow> m) \<Longrightarrow>
        tok st \<and> disputes_inv T iok (acquired s) ?kept st {} ds \<and> al_keys ds = al_keys D
        \<and> (\<forall>k. k \<notin> al_keys ds \<longrightarrow> ts_exists T st k = ts_exists T (txns r) k)"
    using disputes_inv_updateVotes[of "acquired s" ?kept "txns r" D "convergePercent s1" "cmode s1 = proposing" "a_parms A"]
      fresh(2) by (auto simp: result_inv_def)
  define ns where "ns = map_option (ts_fixed T) ms"
  define st where "st = (case ns of None \<Rightarrow> txns r | Some m \<Rightarrow> m)"
  define r2 where "r2 = r\<lparr>disputes := ds\<rparr>"
  have uv: "tok st" "disputes_inv T iok (acquired s) ?kept st {} ds" "al_keys ds = al_keys D"
    "\<And>k. k \<notin> al_keys ds \<Longrightarrow> ts_exists T st k = ts_exists T (txns r) k"
    using uv0[of st] by (auto simp: st_def ns_def)
  have C: "compared (acquired s) ?kept {} (compares r)" "compares r \<subseteq> dom (acquired s)"
    using fresh(2) by (auto simp: result_inv_def)
  have cov: "covered T (acquired s) st (compares r) ds" if "txset_exact T tok"
  proof -
    have "covered T (acquired s) (txns r) (compares r) D" using fresh(2) that by (simp add: result_inv_def)
    then show ?thesis using uv(3,4) unfolding covered_def by metis
  qed
  have "closeResolution s1 \<noteq> 0" using res by (simp add: s1_def)
  from consensusClose_defined[OF this] obtain ct hv where
    close: "consensusClose (a_parms A) (tallyCloseTimes (closeResolution s) ?kept) r2 s1 = Some (ct, hv)" by blast
  define s2 where "s2 = setResult r2 (s1\<lparr>haveCloseTimeConsensus := hv\<rparr>)"
  obtain ours where ours: "asCloseTime (closeTime (ourPosition r2)) s2 = Some ours"
    using roundCloseTime_defined[OF res] by (auto simp: asCloseTime_def s2_def setResult_def s1_def)
  define new where "new = (if ns = None \<and> (ct \<noteq> ours \<or> isStale (now s - word_of_int (proposeINTERVAL (a_parms A))) (ourPosition r2))
    then Some (txns r2) else ns)"
  have upd: "updateOurPositions T A s = (case new of None \<Rightarrow> Some s2 | Some x \<Rightarrow> adoptPosition T x ct r2 s2)"
    using r fresh(1) fold close ours unfolding updateOurPositions_def s2_def s1_def r2_def new_def ns_def cut
    by (simp add: Let_def cong: option.case_cong)
  have s2: "round_frame s s2" "phase s2 = establish" "emits (proposal_action (cmode s)) s s2" "result s2 = Some r2"
    "currPeerPositions s2 = ?kept" "acquired s2 = acquired s" "cmode s2 = cmode s" "setResult r2 s2 = s2"
    using ph by (auto simp: s2_def s1_def setResult_def round_frame_def emits_def)
  have base2: "base_inv T tok s2"
    using base dropStale_positions_inv[OF pos] ph r by (simp add: base_inv_def s2_def s1_def setResult_def)
  show ?thesis
  proof (cases new)
    case None
    then have "st = txns r" by (auto simp: new_def st_def split: if_splits)
    then have "result_inv T tok iok (acquired s) ?kept {} {} r2"
      using fresh(2) uv C cov by (simp add: r2_def result_inv_def)
    with base2 s2 have "consensus_inv T tok iok s2" by (simp add: consensus_inv_def)
    with None upd s2 show ?thesis by (simp add: r2_def)
  next
    case (Some x)
    then have "x = st" by (auto simp: new_def st_def r2_def split: if_splits option.splits)
    have r2: "disputes r2 = ds" "compares r2 = compares r" "roundTime r2 = roundTime r" by (simp_all add: r2_def)
    from adoptPosition_step[of r2 s2 st ct] base2 s2 r2 uv(1,2) C cov
    obtain s' r' where s': "adoptPosition T st ct r2 s2 = Some s'" "consensus_inv T tok iok s'"
      "round_frame s2 s'" "phase s' = establish" "emits (proposal_action (cmode s)) s2 s'" "result s' = Some r'"
      "roundTime r' = roundTime r" "currPeerPositions s' = ?kept" by auto
    with Some upd \<open>x = st\<close> round_frame_trans[OF s2(1) s'(3)] emits_trans[OF s2(3) s'(5)] show ?thesis by simp
  qed
qed

lemma phaseEstablish_step:
  assumes inv: "consensus_inv T tok iok s" and A: "adaptor_ok T tok A" and ph: "phase s = establish"
  shows "\<exists>s'. phaseEstablish T A s = Some s' \<and> consensus_inv T tok iok s' \<and> quiet s s'
    \<and> (phase s' = accepted \<longrightarrow> accepts A s s')"
proof -
  obtain r where r: "result s = Some r" using inv ph by (auto simp: consensus_inv_def base_inv_def)
  define r1 where "r1 = r\<lparr>roundTime := timer_tick (a_clockNow A) (roundTime r),
    proposers := length (currPeerPositions s)\<rparr>"
  define s1 where "s1 = (setResult r1 s)\<lparr>convergePercent := narrow_int (timer_read (roundTime r1) * 100
    sdiv max (prevRoundTime s) (avMIN_CONSENSUS_TIME (a_parms A)))\<rparr>"
  have s1: "consensus_inv T tok iok s1" "phase s1 = establish" "result s1 = Some r1" "quiet s s1"
    using inv r ph by (auto simp: consensus_inv_def base_inv_def s1_def setResult_def r1_def result_inv_def
        intro: quiet_update)
  have nz: "max (prevRoundTime s) (avMIN_CONSENSUS_TIME (a_parms A)) \<noteq> 0"
    using A by (auto simp: adaptor_ok_def max_def)
  obtain s2 r2 where s2: "updateOurPositions T A s1 = Some s2" "consensus_inv T tok iok s2" "quiet s1 s2"
    "phase s2 = establish" "result s2 = Some r2" "roundTime r2 = roundTime r1" "round_frame s1 s2"
    "currPeerPositions s2 = dropStale (now s1 - word_of_int (proposeFRESHNESS (a_parms A))) (currPeerPositions s1)"
    using updateOurPositions_step[OF s1(1-3) refl] proposal_action_quiet by blast
  obtain b where pause: "shouldPause A s2 = Some b"
    using shouldPause_defined[OF s2(5)] by blast
  obtain v where hc: "haveConsensus A s2 = Some (v \<noteq> No, setResult (r2\<lparr>resState := v\<rparr>) s2)"
    "v = checkConsensus (prevProposers s2) (length (currPeerPositions s2))
         (length (filter (\<lambda>(_, p). position p = position (ourPosition r2)) (currPeerPositions s2)))
         (a_proposersFinished A (prevLedger s2) (prevLedgerID s2)) (prevRoundTime s2) (timer_read (roundTime r2))
         (a_parms A) (cmode s2 = proposing)"
    using s2(5) sum_length_filter_compl[of "\<lambda>(_, p). position p = position (ourPosition r2)" "currPeerPositions s2"]
    by (simp add: haveConsensus_def Let_def case_prod_unfold)
  define s3 where "s3 = setResult (r2\<lparr>resState := v\<rparr>) s2"
  define s4 where "s4 = emit (UpdateOperatingMode (length (currPeerPositions s3))) s3"
  define s5 where "s5 = s4\<lparr>prevProposers := length (currPeerPositions s4),
    prevRoundTime := timer_read (roundTime (r2\<lparr>resState := v\<rparr>)), phase := accepted\<rparr>"
  define s6 where "s6 = emit (OnAccept (r2\<lparr>resState := v\<rparr>) (prevLedger s5) (closeResolution s5) (rawCloseTimes s5)
    (cmode s5)) s5"
  have r3: "result s3 = Some (r2\<lparr>resState := v\<rparr>)" by (simp add: s3_def setResult_def)
  have "result_inv T tok iok (acquired s2) (currPeerPositions s2) {} {} (r2\<lparr>resState := v\<rparr>)"
    using s2 by (auto simp: consensus_inv_def result_inv_def)
  then have inv5: "consensus_inv T tok iok s3" "consensus_inv T tok iok s6"
    using s2(2,4) by (auto simp: s3_def setResult_def s6_def s5_def s4_def emit_def consensus_inv_def base_inv_def)
  have q5: "quiet s2 s3" "quiet s2 s6"
    by (auto simp: quiet_def s3_def setResult_def s6_def s5_def s4_def emit_def emits_def)
  have "phaseEstablish T A s = Some (if timer_read (roundTime r1) < ledgerMIN_CONSENSUS (a_parms A) then s1
      else if b then s2 else if v = No \<or> \<not> haveCloseTimeConsensus s3 then s3 else s6)"
    using r nz s2(1) pause hc(1) r3 unfolding phaseEstablish_def r1_def s1_def s3_def s4_def s5_def s6_def
    by (simp add: Let_def)
  moreover have "accepts A s s6" if "\<not> timer_read (roundTime r1) < ledgerMIN_CONSENSUS (a_parms A)" "v \<noteq> No"
    "haveCloseTimeConsensus s3"
    using that s2(5-8) hc(2) unfolding accepts_def round_frame_def
    by (simp add: s1_def s3_def s4_def s5_def s6_def setResult_def emit_def dropStale_def list_all_iff case_prod_unfold)
  moreover have "phase s1 \<noteq> accepted" "phase s2 \<noteq> accepted" "phase s3 \<noteq> accepted"
    using s1(2) s2(4) by (simp_all add: s3_def setResult_def)
  ultimately show ?thesis
    using s1 s2(2) inv5 quiet_trans[OF s1(4) s2(3)] quiet_trans[OF quiet_trans[OF s1(4) s2(3)]] q5 by simp
qed

section \<open>Rounds\<close>

lemma resetRound_inv:
  assumes "recent_inv (recentPeerPositions s)" "l_closeTimeResolution ledger \<noteq> 0"
  shows "consensus_inv T tok iok (resetRound A t lgr ledger m s)"
  using assms getNextLedgerTimeResolution_nonzero
  by (simp add: resetRound_def Let_def setMode_def emit_def consensus_inv_def base_inv_def acquired_inv_def
      positions_inv_def)

lemma simulate_step:
  assumes inv: "consensus_inv T tok iok s" and A: "adaptor_ok T tok A" and none: "result s = None"
  shows "\<exists>s'. simulate T A t delay s = Some s' \<and> consensus_inv T tok iok s' \<and> quiet s s' \<and> phase s' = accepted"
proof -
  have inv': "consensus_inv T tok iok (s\<lparr>now := t\<rparr>)" "result (s\<lparr>now := t\<rparr>) = None" using inv none by simp_all
  from closeLedger_step[OF inv'(1) A inv'(2)] obtain s1 r where s1: "closeLedger T A (s\<lparr>now := t\<rparr>) = Some s1"
    "consensus_inv T tok iok s1" "result s1 = Some r" "quiet (s\<lparr>now := t\<rparr>) s1"
    using proposal_action_quiet by blast
  have "quiet s (s\<lparr>now := t\<rparr>)" by (simp add: quiet_update)
  note q = quiet_trans[OF this s1(4)]
  have "result_inv T tok iok (acquired s1) (currPeerPositions s1) {} {} (r\<lparr>roundTime := x, proposers := y\<rparr>)" for x y
    using s1 by (auto simp: consensus_inv_def result_inv_def)
  with s1(1-3) q show ?thesis
    by (auto simp: simulate_def Let_def setResult_def emit_def consensus_inv_def base_inv_def quiet_def emits_def)
qed

end

text \<open>
  The network's preferred ledger settles: once the engine has switched to the ledger the adaptor
  prefers, and the adaptor could supply it, the adaptor still prefers it.
\<close>

definition settled :: "'ts Adaptor \<Rightarrow> uint256 \<Rightarrow> bool" where
  "settled A lgr \<longleftrightarrow> (\<forall>l. a_acquireLedger A lgr = Some l \<longrightarrow> a_getPrevLedger A lgr l switchedLedger = lgr)"

definition adaptor_settles :: "'ts Adaptor \<Rightarrow> bool" where
  "adaptor_settles A \<longleftrightarrow> (\<forall>i l m. settled A (a_getPrevLedger A i l m))"

lemma checkLedger_agreed:
  "a_getPrevLedger A (prevLedgerID s) (prevLedger s) (cmode s) = prevLedgerID s \<Longrightarrow>
     l_id (prevLedger s) = prevLedgerID s \<Longrightarrow> checkLedger restart T A s = Some s"
  by (simp add: checkLedger_def)

context txset_interface
begin

text \<open>What \<open>handleWrongLedger\<close> needs of the function that restarts the round.\<close>

definition restarts :: "'ts Adaptor \<Rightarrow> 'ts restart \<Rightarrow> bool" where
  "restarts A restart \<longleftrightarrow> (\<forall>t lgr l s. consensus_inv T tok iok s \<longrightarrow> cmode s \<noteq> proposing \<longrightarrow>
     a_acquireLedger A lgr = Some l \<longrightarrow> settled A lgr \<longrightarrow>
     (\<exists>s'. restart t lgr l switchedLedger s = Some s' \<and> consensus_inv T tok iok s' \<and> quiet s s'))"

lemma leaveConsensus_not_proposing: "cmode (leaveConsensus s) \<noteq> proposing"
  by (simp add: leaveConsensus_def setMode_def Let_def)

lemma handleWrongLedger_step:
  assumes inv: "consensus_inv T tok iok s" and A: "adaptor_ok T tok A" and restart: "restarts A restart"
    and lgr: "settled A lgr" "lgr \<noteq> prevLedgerID s \<or> l_id (prevLedger s) \<noteq> lgr"
  shows "\<exists>s'. handleWrongLedger restart T A lgr s = Some s' \<and> consensus_inv T tok iok s' \<and> quiet s s'"
proof -
  define s1 where "s1 = leaveConsensus s"
  have s1: "consensus_inv T tok iok s1" "quiet s s1" "cmode s1 \<noteq> proposing"
    using leaveConsensus_inv[OF inv] leaveConsensus_quiet[of s] leaveConsensus_not_proposing[of s]
    by (simp_all add: s1_def)
  have "quiet s1 (clearRound lgr s1)" "cmode (clearRound lgr s1) = cmode s1" "prevLedgerID (clearRound lgr s1) = lgr"
    by (simp_all add: clearRound_def quiet_update)
  note clear = this
  have "\<exists>s2. (if prevLedgerID s1 \<noteq> lgr then playbackProposals T A (clearRound lgr s1) else Some s1) = Some s2
    \<and> consensus_inv T tok iok s2 \<and> quiet s s2 \<and> cmode s2 \<noteq> proposing \<and> prevLedgerID s2 = lgr"
  proof (cases "prevLedgerID s1 = lgr")
    case True
    with s1 show ?thesis by simp
  next
    case False
    from playbackProposals_step[OF clearRound_inv[OF s1(1), of lgr] A] obtain s2 where
      s2: "playbackProposals T A (clearRound lgr s1) = Some s2" "consensus_inv T tok iok s2"
      "peer_frame (clearRound lgr s1) s2" by blast
    note fl = peer_frame_fields[OF s2(3)]
    have "quiet s s2"
      using quiet_trans[OF quiet_trans[OF s1(2) clear(1)] peer_frame_quiet[OF s2(3)]] .
    with False s1 s2 fl clear show ?thesis by simp
  qed
  then obtain s2 where
    s2: "(if prevLedgerID s1 \<noteq> lgr then playbackProposals T A (clearRound lgr s1) else Some s1) = Some s2"
    "consensus_inv T tok iok s2" "quiet s s2" "cmode s2 \<noteq> proposing" "prevLedgerID s2 = lgr" by blast
  have hw: "handleWrongLedger restart T A lgr s = (if l_id (prevLedger s2) = lgr then Some s2
      else (case a_acquireLedger A lgr of
             Some newLedger \<Rightarrow> restart (now s2) lgr newLedger switchedLedger s2
           | None \<Rightarrow> Some (setMode wrongLedger s2)))"
    using lgr(2) s2(5) unfolding handleWrongLedger_def Let_def s1_def[symmetric] s2(1) by auto
  show ?thesis
  proof (cases "a_acquireLedger A lgr")
    case None
    with hw s2 quiet_trans[OF s2(3) setMode_quiet] show ?thesis by simp
  next
    case (Some l)
    with restart s2(2,4) lgr(1) obtain s' where "restart (now s2) lgr l switchedLedger s2 = Some s'"
      "consensus_inv T tok iok s'" "quiet s2 s'" unfolding restarts_def by blast
    with Some hw s2 quiet_trans[OF s2(3)] show ?thesis by simp
  qed
qed

lemma timerEntryWith_step:
  assumes inv: "consensus_inv T tok iok s" and A: "adaptor_ok T tok A"
    and chk: "\<exists>s1. checkLedger restart T A (s\<lparr>now := t\<rparr>) = Some s1 \<and> consensus_inv T tok iok s1 \<and> quiet s s1"
  shows "\<exists>s'. timerEntryWith restart T A t s = Some s' \<and> consensus_inv T tok iok s' \<and> quiet s s'"
proof (cases "phase s = accepted")
  case True
  with inv show ?thesis by (simp add: timerEntryWith_def)
next
  case False
  from chk obtain s1 where s1: "checkLedger restart T A (s\<lparr>now := t\<rparr>) = Some s1" "consensus_inv T tok iok s1" "quiet s s1"
    by blast
  have "\<exists>s'. (case phase s1 of popen \<Rightarrow> phaseOpen T A s1 | establish \<Rightarrow> phaseEstablish T A s1
      | accepted \<Rightarrow> Some s1) = Some s' \<and> consensus_inv T tok iok s' \<and> quiet s1 s'"
    using phaseOpen_step[OF s1(2) A] phaseEstablish_step[OF s1(2) A] s1(2) proposal_action_quiet
    by (cases "phase s1") auto
  with False s1 quiet_trans[OF s1(3)] show ?thesis unfolding timerEntryWith_def by auto
qed

lemma checkLedger_step:
  assumes inv: "consensus_inv T tok iok s" and A: "adaptor_ok T tok A" "adaptor_settles A"
    and restart: "restarts A restart"
  shows "\<exists>s'. checkLedger restart T A s = Some s' \<and> consensus_inv T tok iok s' \<and> quiet s s'"
proof -
  let ?net = "a_getPrevLedger A (prevLedgerID s) (prevLedger s) (cmode s)"
  have "settled A ?net" using A(2) by (simp add: adaptor_settles_def)
  from handleWrongLedger_step[OF inv A(1) restart this] inv show ?thesis
    by (cases "?net = prevLedgerID s") (auto simp: checkLedger_def Let_def)
qed

text \<open>
  Switching to a settled ledger: one level of the recursion is enough, for the timer entry inside
  finds the ledger it asks for.
\<close>

lemma startRoundInternal_settled:
  assumes A: "adaptor_ok T tok A"
  shows "restarts A (startRoundInternal (Suc d) T A)"
  unfolding restarts_def
proof (intro allI impI)
  fix t lgr l s
  assume inv: "consensus_inv T tok iok s" and np: "cmode s \<noteq> proposing" and l: "a_acquireLedger A lgr = Some l"
    and settled: "settled A lgr"
  let ?s0 = "resetRound A t lgr l switchedLedger s"
  have lid: "l_id l = lgr" "l_closeTimeResolution l \<noteq> 0" using A l by (auto simp: adaptor_ok_def)
  have s0: "consensus_inv T tok iok ?s0"
    using inv lid by (intro resetRound_inv) (simp_all add: consensus_inv_def base_inv_def)
  have q0: "quiet s ?s0"
    by (auto simp: resetRound_def Let_def setMode_def emit_def quiet_def emits_def)
  from playbackProposals_step[OF s0 A] obtain s1 where s1: "playbackProposals T A ?s0 = Some s1"
    "consensus_inv T tok iok s1" "peer_frame ?s0 s1" by blast
  have fl: "prevLedgerID s1 = lgr" "prevLedger s1 = l" "cmode s1 = switchedLedger"
    using peer_frame_fields[OF s1(3)] by (simp_all add: resetRound_def Let_def setMode_def emit_def)
  note q1 = quiet_trans[OF q0 peer_frame_quiet[OF s1(3)]]
  have "checkLedger (startRoundInternal d T A) T A (s1\<lparr>now := now s1\<rparr>) = Some (s1\<lparr>now := now s1\<rparr>)"
    using settled l fl lid by (intro checkLedger_agreed) (simp_all add: settled_def)
  then have "\<exists>u. checkLedger (startRoundInternal d T A) T A (s1\<lparr>now := now s1\<rparr>) = Some u
      \<and> consensus_inv T tok iok u \<and> quiet s1 u"
    using s1(2) by (simp add: quiet_update)
  from timerEntryWith_step[OF s1(2) A this]
  show "\<exists>s'. startRoundInternal (Suc d) T A t lgr l switchedLedger s = Some s' \<and> consensus_inv T tok iok s' \<and> quiet s s'"
    using s1(1,2) q1 quiet_trans[OF q1] by (cases "prevProposers s1 div 2 < length (currPeerPositions s1)") auto
qed

lemma timerEntry_step:
  assumes inv: "consensus_inv T tok iok s" and A: "adaptor_ok T tok A" "adaptor_settles A" and d: "1 \<le> d"
  shows "\<exists>s'. timerEntry d T A t s = Some s' \<and> consensus_inv T tok iok s' \<and> quiet s s'"
proof -
  obtain d' where d': "d = Suc d'" using d by (cases d) auto
  have inv': "consensus_inv T tok iok (s\<lparr>now := t\<rparr>)" and q: "quiet s (s\<lparr>now := t\<rparr>)"
    using inv by (simp_all add: quiet_update)
  from checkLedger_step[OF inv' A startRoundInternal_settled[OF A(1), of d']] quiet_trans[OF q]
  have "\<exists>u. checkLedger (startRoundInternal d T A) T A (s\<lparr>now := t\<rparr>) = Some u
      \<and> consensus_inv T tok iok u \<and> quiet s u" unfolding d' by blast
  then show ?thesis unfolding timerEntry_def by (rule timerEntryWith_step[OF inv A(1)])
qed

lemma startRoundInternal_step:
  assumes rec: "recent_inv (recentPeerPositions s)" and A: "adaptor_ok T tok A" "adaptor_settles A"
    and l: "l_closeTimeResolution ledger \<noteq> 0" and d: "2 \<le> d"
  shows "\<exists>s'. startRoundInternal d T A t lgr ledger m s = Some s' \<and> consensus_inv T tok iok s'
    \<and> quiet (resetRound A t lgr ledger m s) s'"
proof -
  obtain d' where d': "d = Suc (Suc d')" using d by (metis Suc_le_D numeral_2_eq_2 Suc_le_mono)
  let ?s0 = "resetRound A t lgr ledger m s"
  from playbackProposals_step[OF resetRound_inv[OF rec l] A(1)] obtain s1 where
    s1: "playbackProposals T A ?s0 = Some s1" "consensus_inv T tok iok s1" "quiet ?s0 s1"
    using peer_frame_quiet by blast
  have "\<exists>s'. timerEntryWith (startRoundInternal (Suc d') T A) T A (now s1) s1 = Some s'
      \<and> consensus_inv T tok iok s' \<and> quiet s1 s'"
    using timerEntry_step[OF s1(2) A, of "Suc d'" "now s1"] by (simp add: timerEntry_def)
  then show ?thesis unfolding d' startRoundInternal.simps(2)
    using s1 quiet_trans[OF s1(3)] by (cases "prevProposers s1 div 2 < length (currPeerPositions s1)") auto
qed

lemma startRound_step:
  assumes inv: "consensus_inv T tok iok s" and A: "adaptor_ok T tok A" "adaptor_settles A"
    and l: "l_closeTimeResolution ledger \<noteq> 0" and d: "2 \<le> d"
  shows "\<exists>s'. startRound d T A t lgr ledger untrusted b s = Some s' \<and> consensus_inv T tok iok s'
    \<and> (\<not> b \<longrightarrow> cmode s' \<noteq> proposing \<and> emits (\<lambda>a. \<forall>p. a \<noteq> Propose p) s s')"
proof -
  have f: "recent_inv (filter (\<lambda>(n, _). n \<notin> untrusted) (recentPeerPositions s))"
    using inv by (auto simp: consensus_inv_def base_inv_def recent_inv_def distinct_map_filter map_of_eq_Some_iff)
  define s2 where "s2 = (if firstRound s
     then s\<lparr>prevRoundTime := ledgerIDLE_INTERVAL (a_parms A), prevCloseTime := l_closeTime ledger, firstRound := False\<rparr>
     else s\<lparr>prevCloseTime := ct_self (rawCloseTimes s)\<rparr>)
     \<lparr>recentPeerPositions := filter (\<lambda>(n, _). n \<notin> untrusted) (recentPeerPositions s)\<rparr>"
  have s2: "recent_inv (recentPeerPositions s2)" "out s2 = out s" using f by (simp_all add: s2_def)
  have "\<exists>l' m. startRound d T A t lgr ledger untrusted b s = startRoundInternal d T A t lgr l' m s2
      \<and> l_closeTimeResolution l' \<noteq> 0 \<and> (\<not> b \<longrightarrow> m \<noteq> proposing)"
    using A(1) l unfolding startRound_def s2_def adaptor_ok_def
    by (cases "a_acquireLedger A lgr"; cases "l_id ledger = lgr"; cases b; simp add: Let_def; blast)
  then obtain l' m where go: "startRound d T A t lgr ledger untrusted b s = startRoundInternal d T A t lgr l' m s2"
    "l_closeTimeResolution l' \<noteq> 0" "\<not> b \<Longrightarrow> m \<noteq> proposing" by blast
  from startRoundInternal_step[OF s2(1) A go(2) d, of t lgr m] obtain s' where
    s': "startRoundInternal d T A t lgr l' m s2 = Some s'" "consensus_inv T tok iok s'"
    "quiet (resetRound A t lgr l' m s2) s'" by blast
  have "cmode (resetRound A t lgr l' m s2) = m" "emits (\<lambda>a. \<forall>p. a \<noteq> Propose p) s (resetRound A t lgr l' m s2)"
    using s2(2) by (auto simp: resetRound_def Let_def setMode_def emit_def emits_def)
  with s' go show ?thesis unfolding quiet_def by (auto intro: emits_trans elim: emits_mono)
qed

end

end
