(* ===== verification/Engine_Component.thy ===== *)
theory Engine_Component
  imports Consensus_Events
begin

text \<open>
  The consensus engine as a component: the calls of its owner as events, the contract under which
  each may be issued, and the engine as an instance of \<open>invariant_component\<close>. The recursion depth
  of two is enough for every call (\<open>startRoundInternal_settled\<close>).
\<close>

datatype 'ts event =
    StartRound "'ts Adaptor" NetTime uint256 CxLedger "NodeID set" bool
  | TimerEntry "'ts Adaptor" NetTime
  | GotTxSet NetTime 'ts
  | PeerProposal "'ts Adaptor" NetTime ConsensusProposal
  | Simulate "'ts Adaptor" NetTime "millis option"

fun engine_step :: "'ts TxSetOps \<Rightarrow> 'ts event \<Rightarrow> 'ts Consensus \<Rightarrow> 'ts Consensus option" where
  "engine_step T (StartRound A t lgr ledger untrusted isProposing) s =
     startRound 2 T A t lgr ledger untrusted isProposing s"
| "engine_step T (TimerEntry A t) s = timerEntry 2 T A t s"
| "engine_step T (GotTxSet t st) s = gotTxSet T t st s"
| "engine_step T (PeerProposal A t p) s = map_option snd (peerProposal T A t p s)"
| "engine_step T (Simulate A t delay) s = simulate T A t delay s"

fun engine_allowed :: "'ts TxSetOps \<Rightarrow> ('ts \<Rightarrow> bool) \<Rightarrow> 'ts event \<Rightarrow> 'ts Consensus \<Rightarrow> bool" where
  "engine_allowed T tok (StartRound A t lgr ledger untrusted isProposing) s \<longleftrightarrow>
     adaptor_ok T tok A \<and> adaptor_settles A \<and> l_closeTimeResolution ledger \<noteq> 0"
| "engine_allowed T tok (TimerEntry A t) s \<longleftrightarrow> adaptor_ok T tok A \<and> adaptor_settles A"
| "engine_allowed T tok (GotTxSet t st) s \<longleftrightarrow> tok st"
| "engine_allowed T tok (PeerProposal A t p) s \<longleftrightarrow> adaptor_ok T tok A"
| "engine_allowed T tok (Simulate A t delay) s \<longleftrightarrow> adaptor_ok T tok A \<and> result s = None"

text \<open>The events that do not start a proposing round.\<close>

fun not_join :: "'ts event \<Rightarrow> bool" where
  "not_join (StartRound A t lgr ledger untrusted isProposing) = (\<not> isProposing)"
| "not_join _ = True"

context txset_interface
begin

lemma engine_step_total:
  assumes "consensus_inv T tok iok s" "engine_allowed T tok e s"
  shows "\<exists>s'. engine_step T e s = Some s' \<and> consensus_inv T tok iok s'
    \<and> (not_join e \<longrightarrow> cmode s \<noteq> proposing \<longrightarrow> cmode s' \<noteq> proposing \<and> emits (\<lambda>a. \<forall>p. a \<noteq> Propose p) s s')"
proof (cases e)
  case (StartRound A t lgr ledger untrusted b)
  with assms startRound_step[OF assms(1), of A ledger 2 t lgr untrusted b] show ?thesis by auto
next
  case (TimerEntry A t)
  with assms timerEntry_step[OF assms(1), of A 2 t] show ?thesis by (auto simp: quiet_def)
next
  case (GotTxSet t st)
  with assms gotTxSet_step[OF assms(1), of st t] show ?thesis
    by (auto dest!: peer_frame_quiet simp: quiet_def)
next
  case (PeerProposal A t p)
  with assms peerProposal_step[OF assms(1), of A t p] show ?thesis
    by (auto dest!: peer_frame_quiet simp: quiet_def)
next
  case (Simulate A t delay)
  with assms simulate_step[OF assms(1), of A t delay] show ?thesis by (auto simp: quiet_def)
qed

end

sublocale txset_interface \<subseteq> engine: invariant_component "engine_step T" "consensus_inv T tok iok" "engine_allowed T tok"
  using engine_step_total by unfold_locales blast

lemma newConsensus_inv: "consensus_inv T tok iok (newConsensus ledger)"
  by (simp add: consensus_inv_def base_inv_def newConsensus_def acquired_inv_def positions_inv_def recent_inv_def
      ledgerDefaultTimeResolution_def ledgerPossibleTimeResolutions_def)

context txset_interface
begin

text \<open>A node that is not proposing does not propose during a run that starts no proposing round.\<close>

lemma run_not_proposing:
  assumes "consensus_inv T tok iok s" "guarded (engine_step T) (engine_allowed T tok) es s"
    "list_all not_join es" "foldM (engine_step T) es s = Some s'" "cmode s \<noteq> proposing"
  shows "cmode s' \<noteq> proposing \<and> emits (\<lambda>a. \<forall>p. a \<noteq> Propose p) s s'"
proof -
  let ?R = "\<lambda>s s'. cmode s \<noteq> proposing \<longrightarrow> cmode s' \<noteq> proposing \<and> emits (\<lambda>a. \<forall>p. a \<noteq> Propose p) s s'"
  have "?R s s'"
  proof (rule engine.run_relation[OF assms(1-4), of ?R])
    fix e and s t :: "'ts Consensus"
    assume "consensus_inv T tok iok s" "engine_allowed T tok e s" "not_join e" "engine_step T e s = Some t"
    with engine_step_total[of s e] show "?R s t" by simp
  qed (auto intro: emits_trans)
  with assms(5) show ?thesis by simp
qed

end

end
