(* ===== verification/Sha_Map.thy ===== *)
theory Sha_Map
  imports Prelude
begin

text \<open>
  The hash tree of transactions and ledger entries: \<^verbatim>\<open>src/ripple/shamap\<close>
  (\<open>SHAMap.cpp\<close>, \<open>SHAMapDelta.cpp\<close>, \<open>SHAMapNodeID.cpp\<close>, \<open>SHAMapInnerNode.cpp\<close>, the leaf nodes).

  A node is a leaf with its item or an inner node with sixteen branches. The model holds the whole
  tree in memory: fetching nodes from the database and the copy-on-write ownership of nodes, which
  decide when a node is shared and not what it contains, are left out; a hash is computed from the
  content instead of being cached. An exception or a failed assertion is the value \<open>None\<close>.
  SHA-512-half is a parameter, a function from bytes to hashes.

  The node stacks of the code are lists, the top first.
\<close>

unbundle bit_operations_syntax

section \<open>Nodes and maps\<close>

datatype SHAMapNodeType = tnINNER | tnTRANSACTION_NM | tnTRANSACTION_MD | tnACCOUNT_STATE

datatype SHAMapTreeNode =
    Leaf SHAMapNodeType SHAMapItem
  | Inner "SHAMapTreeNode option list"

datatype SHAMapState = Modifying | Immutable | Synching | Invalid

record SHAMap =
  root :: SHAMapTreeNode
  mstate :: SHAMapState

definition branchFactor :: nat where
  "branchFactor = 16"

definition leafDepth :: nat where
  "leafDepth = 64"

definition emptyInner :: SHAMapTreeNode where
  "emptyInner = Inner (replicate branchFactor None)"

definition newSHAMap :: SHAMap where
  "newSHAMap = \<lparr>root = emptyInner, mstate = Modifying\<rparr>"

definition snapShot :: "bool \<Rightarrow> SHAMap \<Rightarrow> SHAMap" where
  "snapShot isMutable m = \<lparr>root = root m, mstate = (if isMutable then Modifying else Immutable)\<rparr>"

definition makeTypedLeaf :: "SHAMapNodeType \<Rightarrow> SHAMapItem \<Rightarrow> SHAMapTreeNode option" where
  "makeTypedLeaf ty item = do {
     assertThat (ty \<noteq> tnINNER);
     assertThat (12 \<le> length (item_data item));
     Some (Leaf ty item)
   }"

text \<open>The branches of an inner node; a position outside the array is no branch.\<close>

definition child_at :: "'a option list \<Rightarrow> nat \<Rightarrow> 'a option" where
  "child_at cs i = (if i < length cs then cs ! i else None)"

text \<open>The children, in the order of their branches.\<close>

definition branches :: "'a option list \<Rightarrow> 'a list" where
  "branches cs = List.map_filter id cs"

definition getBranchCount :: "'a option list \<Rightarrow> nat" where
  "getBranchCount cs = length (branches cs)"

definition setChild :: "nat \<Rightarrow> SHAMapTreeNode option \<Rightarrow> SHAMapTreeNode option list \<Rightarrow>
    SHAMapTreeNode option list" where
  "setChild i child cs = cs[i := child]"

section \<open>Node identifiers\<close>

record SHAMapNodeID =
  nid_id :: uint256
  nid_depth :: nat

definition rootID :: SHAMapNodeID where
  "rootID = \<lparr>nid_id = 0, nid_depth = 0\<rparr>"

definition isRoot :: "SHAMapNodeID \<Rightarrow> bool" where
  "isRoot nid \<longleftrightarrow> nid_depth nid = 0"

definition depthMask :: "nat \<Rightarrow> uint256" where
  "depthMask depth = push_bit (256 - 4 * depth) (mask (4 * depth))"

definition getChildNodeID :: "SHAMapNodeID \<Rightarrow> nat \<Rightarrow> SHAMapNodeID option" where
  "getChildNodeID nid m = do {
     assertThat (m < branchFactor);
     assertThat (nid_depth nid < leafDepth);
     assertThat (nid_id nid = nid_id nid AND depthMask (nid_depth nid));
     Some \<lparr>nid_id = nid_id nid OR push_bit (8 * (31 - nid_depth nid div 2))
                       (if odd (nid_depth nid) then of_nat m else push_bit 4 (of_nat m)),
           nid_depth = nid_depth nid + 1\<rparr>
   }"

definition selectBranch :: "SHAMapNodeID \<Rightarrow> uint256 \<Rightarrow> nat option" where
  "selectBranch nid hash = do {
     assertThat (nid_depth nid div 2 < 32);
     let byte = drop_bit (8 * (31 - nid_depth nid div 2)) hash AND 255;
     Some (unat (if odd (nid_depth nid) then byte AND 15 else drop_bit 4 byte))
   }"

section \<open>Walking towards a key\<close>

type_synonym NodeStack = "(SHAMapTreeNode \<times> SHAMapNodeID) list"

lemma child_at_size [termination_simp]:
  assumes "child_at cs i = Some c"
  shows "size c < Suc (size_list (size_option size) cs)"
proof -
  have "Some c \<in> set cs" using assms by (metis child_at_def nth_mem option.distinct(1))
  then have "size_option size (Some c) \<le> size_list (size_option size) cs"
    by (rule size_list_estimation') simp
  then show ?thesis by simp
qed

lemma set_branches: "c \<in> set (branches cs) \<longleftrightarrow> Some c \<in> set cs"
  by (induction cs) (auto simp: branches_def List.map_filter_def)

lemma branches_size:
  assumes "c \<in> set (branches cs)"
  shows "size c < Suc (size_list (size_option size) cs)"
  using size_list_estimation'[of "Some c" cs "size_option size (Some c)" "size_option size"] assms
  by (simp add: set_branches)

lemma branches_Cons: "branches (c # cs) = (case c of None \<Rightarrow> branches cs | Some x \<Rightarrow> x # branches cs)"
  by (simp add: branches_def List.map_filter_def split: option.split)

lemma branches_Nil [simp]: "branches [] = []"
  by (simp add: branches_def List.map_filter_def)

text \<open>The termination measure of loops over a stack of nodes.\<close>

definition stack_size :: "SHAMapTreeNode list \<Rightarrow> nat" where
  "stack_size ns = sum_list (map (\<lambda>n. Suc (size n)) ns)"

lemma stack_size_simps [simp]:
  "stack_size [] = 0" "stack_size (n # ns) = Suc (size n) + stack_size ns"
  "stack_size (ns @ ms) = stack_size ns + stack_size ms" "stack_size (rev ns) = stack_size ns"
  by (simp_all add: stack_size_def rev_map[symmetric])

lemma branches_stack_size: "stack_size (branches cs) \<le> size_list (size_option size) cs"
  by (induction cs) (auto simp: branches_Cons split: option.split)

function walkTowards ::
  "uint256 \<Rightarrow> SHAMapTreeNode \<Rightarrow> SHAMapNodeID \<Rightarrow> NodeStack \<Rightarrow>
     (SHAMapItem option \<times> NodeStack) option" where
  "walkTowards key (Leaf ty item) nid stack = Some (Some item, (Leaf ty item, nid) # stack)"
| "walkTowards key (Inner cs) nid stack = do {
     branch \<leftarrow> selectBranch nid key;
     (case child_at cs branch of
        None \<Rightarrow> Some (None, (Inner cs, nid) # stack)
      | Some child \<Rightarrow> do {
          nid' \<leftarrow> getChildNodeID nid branch;
          walkTowards key child nid' ((Inner cs, nid) # stack)
        })
   }"
  by pat_completeness auto
termination
  by (relation "measure (\<lambda>(_, n, _, _). size n)") (auto simp: child_at_size)

definition walkTowardsKey :: "uint256 \<Rightarrow> SHAMap \<Rightarrow> (SHAMapItem option \<times> NodeStack) option" where
  "walkTowardsKey key m = walkTowards key (root m) rootID []"

definition findKey :: "uint256 \<Rightarrow> SHAMap \<Rightarrow> SHAMapItem option option" where
  "findKey key m = do {
     (leaf, _) \<leftarrow> walkTowardsKey key m;
     Some (case leaf of None \<Rightarrow> None
           | Some item \<Rightarrow> if item_key item \<noteq> key then None else Some item)
   }"

definition peekItem :: "uint256 \<Rightarrow> SHAMap \<Rightarrow> SHAMapItem option option" where
  "peekItem key m = findKey key m"

definition hasItem :: "uint256 \<Rightarrow> SHAMap \<Rightarrow> bool option" where
  "hasItem key m = do { leaf \<leftarrow> findKey key m; Some (leaf \<noteq> None) }"

section \<open>Adding and removing items\<close>

fun dirtyUp :: "NodeStack \<Rightarrow> uint256 \<Rightarrow> SHAMapTreeNode \<Rightarrow> SHAMapTreeNode option" where
  "dirtyUp [] target child = Some child"
| "dirtyUp ((Leaf ty item, nid) # stack) target child = None"
| "dirtyUp ((Inner cs, nid) # stack) target child = do {
     branch \<leftarrow> selectBranch nid target;
     dirtyUp stack target (Inner (setChild branch (Some child) cs))
   }"

text \<open>
  The loop of \<open>addGiveItem\<close> that goes down until the two keys part: it pushes an inner node for
  every level on which they agree.
\<close>

function splitLevels ::
  "uint256 \<Rightarrow> uint256 \<Rightarrow> SHAMapNodeID \<Rightarrow> NodeStack \<Rightarrow> (nat \<times> nat \<times> NodeStack) option" where
  "splitLevels tag other nid stack = do {
     b1 \<leftarrow> selectBranch nid tag;
     b2 \<leftarrow> selectBranch nid other;
     if b1 = b2 then do {
       nid' \<leftarrow> getChildNodeID nid b1;
       splitLevels tag other nid' ((emptyInner, nid) # stack)
     }
     else Some (b1, b2, stack)
   }"
  by pat_completeness auto
termination
  by (relation "measure (\<lambda>(_, _, nid, _). leafDepth - nid_depth nid)")
    (auto simp: getChildNodeID_def assertThat_def split: if_splits)

definition addGiveItem ::
  "SHAMapNodeType \<Rightarrow> SHAMapItem \<Rightarrow> SHAMap \<Rightarrow> (bool \<times> SHAMap) option" where
  "addGiveItem ty item m = do {
     assertThat (mstate m \<noteq> Immutable);
     assertThat (ty \<noteq> tnINNER);
     let tag = item_key item;
     (_, stack) \<leftarrow> walkTowardsKey tag m;
     (case stack of
        [] \<Rightarrow> None
      | (Leaf lty other, nid) # stack' \<Rightarrow>
          if item_key other = tag then Some (False, m)
          else do {
            (b1, b2, stack'') \<leftarrow> splitLevels tag (item_key other) nid stack';
            leaf1 \<leftarrow> makeTypedLeaf ty item;
            leaf2 \<leftarrow> makeTypedLeaf ty other;
            assertThat (mstate m \<noteq> Synching);
            r \<leftarrow> dirtyUp stack'' tag
                  (Inner (setChild b2 (Some leaf2) (setChild b1 (Some leaf1) (replicate branchFactor None))));
            Some (True, m\<lparr>root := r\<rparr>)
          }
      | (Inner cs, nid) # stack' \<Rightarrow> do {
          branch \<leftarrow> selectBranch nid tag;
          assertThat (child_at cs branch = None);
          leaf \<leftarrow> makeTypedLeaf ty item;
          assertThat (mstate m \<noteq> Synching);
          r \<leftarrow> dirtyUp stack' tag (Inner (setChild branch (Some leaf) cs));
          Some (True, m\<lparr>root := r\<rparr>)
        })
   }"

text \<open>The only item below a node, if there is just one.\<close>

function onlyBelow :: "SHAMapTreeNode \<Rightarrow> SHAMapItem option option" where
  "onlyBelow (Leaf ty item) = Some (Some item)"
| "onlyBelow (Inner cs) =
     (case branches cs of
        [] \<Rightarrow> None
      | [node] \<Rightarrow> onlyBelow node
      | _ \<Rightarrow> Some None)"
  by pat_completeness auto
termination
  by (relation "measure size") (auto simp: branches_size)

fun pruneUp ::
  "SHAMapNodeType \<Rightarrow> uint256 \<Rightarrow> NodeStack \<Rightarrow> SHAMapTreeNode option \<Rightarrow> SHAMapTreeNode \<Rightarrow>
     SHAMapTreeNode option" where
  "pruneUp ty key [] prevNode r = Some r"
| "pruneUp ty key ((Leaf lty item, nid) # stack) prevNode r = None"
| "pruneUp ty key ((Inner cs, nid) # stack) prevNode r = do {
     branch \<leftarrow> selectBranch nid key;
     let cs' = setChild branch prevNode cs;
     if isRoot nid then pruneUp ty key stack prevNode (Inner cs')
     else if getBranchCount cs' = 0 then pruneUp ty key stack None r
     else if getBranchCount cs' = 1 then do {
       below \<leftarrow> onlyBelow (Inner cs');
       (case below of
          Some item \<Rightarrow> do {
            leaf \<leftarrow> makeTypedLeaf ty item;
            pruneUp ty key stack (Some leaf) r
          }
        | None \<Rightarrow> pruneUp ty key stack (Some (Inner cs')) r)
     }
     else pruneUp ty key stack (Some (Inner cs')) r
   }"

definition delItem :: "uint256 \<Rightarrow> SHAMap \<Rightarrow> (bool \<times> SHAMap) option" where
  "delItem key m = do {
     assertThat (mstate m \<noteq> Immutable);
     (_, stack) \<leftarrow> walkTowardsKey key m;
     (case stack of
        [] \<Rightarrow> None
      | (Leaf ty item, nid) # stack' \<Rightarrow>
          if item_key item \<noteq> key then Some (False, m)
          else do {
            r \<leftarrow> pruneUp ty key stack' None (root m);
            Some (True, m\<lparr>root := r\<rparr>)
          }
      | (Inner cs, nid) # stack' \<Rightarrow> Some (False, m))
   }"

section \<open>Hashes\<close>

text \<open>The bytes of an integer of \<open>n\<close> bytes, the most significant first.\<close>

definition bytesOf :: "nat \<Rightarrow> 'a::len word \<Rightarrow> 8 word list" where
  "bytesOf n w = map (\<lambda>i. ucast (drop_bit (8 * (n - 1 - i)) w)) [0..<n]"

definition make_hash_prefix :: "32 word \<Rightarrow> 32 word \<Rightarrow> 32 word \<Rightarrow> 32 word" where
  "make_hash_prefix a b c = push_bit 24 a + push_bit 16 b + push_bit 8 c"

text \<open>The prefixes \<open>TXN\<close>, \<open>SND\<close>, \<open>MLN\<close> and \<open>MIN\<close>.\<close>

fun hashPrefix :: "SHAMapNodeType \<Rightarrow> 32 word" where
  "hashPrefix tnTRANSACTION_NM = make_hash_prefix 0x54 0x58 0x4E"
| "hashPrefix tnTRANSACTION_MD = make_hash_prefix 0x53 0x4E 0x44"
| "hashPrefix tnACCOUNT_STATE = make_hash_prefix 0x4D 0x4C 0x4E"
| "hashPrefix tnINNER = make_hash_prefix 0x4D 0x49 0x4E"

definition leafHash :: "(8 word list \<Rightarrow> uint256) \<Rightarrow> SHAMapNodeType \<Rightarrow> SHAMapItem \<Rightarrow> uint256" where
  "leafHash sha512Half ty item =
     (if ty = tnTRANSACTION_NM then sha512Half (bytesOf 4 (hashPrefix ty) @ item_data item)
      else sha512Half (bytesOf 4 (hashPrefix ty) @ item_data item @ bytesOf 32 (item_key item)))"

definition innerHash :: "(8 word list \<Rightarrow> uint256) \<Rightarrow> uint256 option list \<Rightarrow> uint256" where
  "innerHash sha512Half hs =
     (if branches hs = [] then 0
      else sha512Half (bytesOf 4 (hashPrefix tnINNER) @
             concat (map (\<lambda>h. bytesOf 32 (case h of None \<Rightarrow> 0 | Some h \<Rightarrow> h)) hs)))"

primrec nodeHash :: "(8 word list \<Rightarrow> uint256) \<Rightarrow> SHAMapTreeNode \<Rightarrow> uint256" where
  "nodeHash sha512Half (Leaf ty item) = leafHash sha512Half ty item"
| "nodeHash sha512Half (Inner cs) =
     innerHash sha512Half (map (map_option (nodeHash sha512Half)) cs)"

definition getHash :: "(8 word list \<Rightarrow> uint256) \<Rightarrow> SHAMap \<Rightarrow> uint256" where
  "getHash sha512Half m = nodeHash sha512Half (root m)"

definition getChildHash :: "(8 word list \<Rightarrow> uint256) \<Rightarrow> SHAMapTreeNode option \<Rightarrow> uint256" where
  "getChildHash sha512Half c = (case c of None \<Rightarrow> 0 | Some n \<Rightarrow> nodeHash sha512Half n)"

section \<open>Comparing two maps\<close>

type_synonym DeltaItem = "SHAMapItem option \<times> SHAMapItem option"
type_synonym Delta = "(uint256 \<times> DeltaItem) list"

text \<open>
  \<open>Delta\<close> is a \<open>std::map\<close>: \<open>insert\<close> keeps an existing entry. The state of a comparison is the
  table and the number of further differences allowed; \<open>record\<close> adds a difference and tells
  whether to go on.
\<close>

definition delta_insert :: "uint256 \<Rightarrow> DeltaItem \<Rightarrow> Delta \<Rightarrow> Delta" where
  "delta_insert k d differences = om_upd k d (\<lambda>x. x) differences"

definition recordDifference ::
  "uint256 \<Rightarrow> DeltaItem \<Rightarrow> Delta \<times> int \<Rightarrow> bool \<times> Delta \<times> int" where
  "recordDifference k d = (\<lambda>(differences, maxCount).
     (0 < maxCount - 1, delta_insert k d differences, maxCount - 1))"

definition inOrder :: "bool \<Rightarrow> 'a \<Rightarrow> 'a \<Rightarrow> 'a \<times> 'a" where
  "inOrder isFirstMap x y = (if isFirstMap then (x, y) else (y, x))"

function walkBranchLoop ::
  "SHAMapItem option \<Rightarrow> bool \<Rightarrow> SHAMapTreeNode list \<Rightarrow> bool \<Rightarrow> Delta \<times> int \<Rightarrow>
     bool \<times> Delta \<times> int" where
  "walkBranchLoop otherMapItem isFirstMap [] emptyBranch st =
     (case otherMapItem of
        Some other \<Rightarrow>
          if \<not> emptyBranch
          then recordDifference (item_key other) (inOrder isFirstMap None (Some other)) st
          else (True, st)
      | None \<Rightarrow> (True, st))"
| "walkBranchLoop otherMapItem isFirstMap (Inner cs # nodeStack) emptyBranch st =
     walkBranchLoop otherMapItem isFirstMap (rev (branches cs) @ nodeStack) emptyBranch st"
| "walkBranchLoop otherMapItem isFirstMap (Leaf ty item # nodeStack) emptyBranch st =
     (if emptyBranch \<or> map_option item_key otherMapItem \<noteq> Some (item_key item) then
        (case recordDifference (item_key item) (inOrder isFirstMap (Some item) None) st of
           (True, st') \<Rightarrow> walkBranchLoop otherMapItem isFirstMap nodeStack emptyBranch st'
         | (False, st') \<Rightarrow> (False, st'))
      else if map_option item_data otherMapItem \<noteq> Some (item_data item) then
        (case recordDifference (item_key item) (inOrder isFirstMap (Some item) otherMapItem) st of
           (True, st') \<Rightarrow> walkBranchLoop otherMapItem isFirstMap nodeStack True st'
         | (False, st') \<Rightarrow> (False, st'))
      else walkBranchLoop otherMapItem isFirstMap nodeStack True st)"
  by pat_completeness auto
termination
  by (relation "measure (\<lambda>(_, _, nodeStack, _, _). stack_size nodeStack)")
    (auto simp: le_imp_less_Suc branches_stack_size less_Suc_eq_le le_SucI)

definition walkBranch ::
  "SHAMapTreeNode \<Rightarrow> SHAMapItem option \<Rightarrow> bool \<Rightarrow> Delta \<times> int \<Rightarrow> bool \<times> Delta \<times> int" where
  "walkBranch node otherMapItem isFirstMap st =
     walkBranchLoop otherMapItem isFirstMap [node] (otherMapItem = None) st"

text \<open>
  One pair of inner nodes: the branches with different hashes are walked when one side is empty
  and pushed otherwise. The result is the flag, the state and the new stack.
\<close>

fun compareBranches ::
  "(8 word list \<Rightarrow> uint256) \<Rightarrow> (SHAMapTreeNode option \<times> SHAMapTreeNode option) list \<Rightarrow>
     (SHAMapTreeNode \<times> SHAMapTreeNode) list \<Rightarrow> Delta \<times> int \<Rightarrow>
     bool \<times> (Delta \<times> int) \<times> (SHAMapTreeNode \<times> SHAMapTreeNode) list" where
  "compareBranches sha512Half [] nodeStack st = (True, st, nodeStack)"
| "compareBranches sha512Half ((ours, other) # cs) nodeStack st =
     (if getChildHash sha512Half ours \<noteq> getChildHash sha512Half other then
        (case (ours, other) of
           (Some n, None) \<Rightarrow>
             (case walkBranch n None True st of
                (True, st') \<Rightarrow> compareBranches sha512Half cs nodeStack st'
              | (False, st') \<Rightarrow> (False, st', nodeStack))
         | (None, Some n) \<Rightarrow>
             (case walkBranch n None False st of
                (True, st') \<Rightarrow> compareBranches sha512Half cs nodeStack st'
              | (False, st') \<Rightarrow> (False, st', nodeStack))
         | (Some a, Some b) \<Rightarrow> compareBranches sha512Half cs ((a, b) # nodeStack) st
         | (None, None) \<Rightarrow> (False, st, nodeStack))
      else compareBranches sha512Half cs nodeStack st)"

definition pairs_size :: "(SHAMapTreeNode \<times> SHAMapTreeNode) list \<Rightarrow> nat" where
  "pairs_size ps = stack_size (map fst ps)"

lemma compareBranches_size:
  "compareBranches sha512Half cs nodeStack st = (b, st', nodeStack') \<Longrightarrow>
     pairs_size nodeStack' \<le> stack_size (branches (map fst cs)) + pairs_size nodeStack"
proof (induction sha512Half cs nodeStack st rule: compareBranches.induct)
  case (1 sha nodeStack st)
  then show ?case by simp
next
  case (2 sha ours other cs nodeStack st)
  show ?case
  proof (cases "getChildHash sha ours = getChildHash sha other")
    case True
    with 2 show ?thesis by (auto simp: branches_Cons split: option.split)
  next
    case False
    with 2 show ?thesis
      by (fastforce simp: branches_Cons pairs_size_def split: option.splits prod.splits bool.splits)
  qed
qed

lemma zip_branches_size: "stack_size (branches (map fst (zip cs ds))) \<le> size_list (size_option size) cs"
proof (induction cs arbitrary: ds)
  case (Cons c cs)
  show ?case
  proof (cases ds)
    case ds: (Cons d ds')
    from Cons[of ds'] show ?thesis by (auto simp: ds branches_Cons split: option.split)
  qed simp
qed simp

function compareLoop ::
  "(8 word list \<Rightarrow> uint256) \<Rightarrow> (SHAMapTreeNode \<times> SHAMapTreeNode) list \<Rightarrow> Delta \<times> int \<Rightarrow>
     bool \<times> Delta \<times> int" where
  "compareLoop sha512Half [] st = (True, st)"
| "compareLoop sha512Half ((Leaf ty1 ours, Leaf ty2 other) # nodeStack) st =
     (if item_key ours = item_key other then
        if item_data ours \<noteq> item_data other then
          (case recordDifference (item_key ours) (Some ours, Some other) st of
             (True, st') \<Rightarrow> compareLoop sha512Half nodeStack st'
           | (False, st') \<Rightarrow> (False, st'))
        else compareLoop sha512Half nodeStack st
      else
        (case recordDifference (item_key ours) (Some ours, None) st of
           (True, st') \<Rightarrow>
             (case recordDifference (item_key other) (None, Some other) st' of
                (True, st'') \<Rightarrow> compareLoop sha512Half nodeStack st''
              | (False, st'') \<Rightarrow> (False, st''))
         | (False, st') \<Rightarrow> (False, st')))"
| "compareLoop sha512Half ((Inner cs, Leaf ty other) # nodeStack) st =
     (case walkBranch (Inner cs) (Some other) True st of
        (True, st') \<Rightarrow> compareLoop sha512Half nodeStack st'
      | (False, st') \<Rightarrow> (False, st'))"
| "compareLoop sha512Half ((Leaf ty ours, Inner ds) # nodeStack) st =
     (case walkBranch (Inner ds) (Some ours) False st of
        (True, st') \<Rightarrow> compareLoop sha512Half nodeStack st'
      | (False, st') \<Rightarrow> (False, st'))"
| "compareLoop sha512Half ((Inner cs, Inner ds) # nodeStack) st =
     (case compareBranches sha512Half (zip cs ds) nodeStack st of
        (True, st', nodeStack') \<Rightarrow> compareLoop sha512Half nodeStack' st'
      | (False, st', nodeStack') \<Rightarrow> (False, st'))"
  by pat_completeness auto
termination
proof (relation "measure (\<lambda>(_, nodeStack, _). pairs_size nodeStack)", goal_cases)
  case (7 sha cs ds nodeStack st b rest st' nodeStack')
  then have "compareBranches sha (zip cs ds) nodeStack st = (b, st', nodeStack')" by simp
  from compareBranches_size[OF this] zip_branches_size[of cs ds] show ?case
    by (simp add: pairs_size_def)
qed (auto simp: pairs_size_def)

definition compareMaps ::
  "(8 word list \<Rightarrow> uint256) \<Rightarrow> SHAMap \<Rightarrow> SHAMap \<Rightarrow> int \<Rightarrow> (bool \<times> Delta) option" where
  "compareMaps sha512Half m otherMap maxCount = do {
     assertThat (mstate m \<noteq> Invalid \<and> mstate otherMap \<noteq> Invalid);
     Some (if getHash sha512Half m = getHash sha512Half otherMap then (True, [])
           else let (complete, differences, _) =
                      compareLoop sha512Half [(root m, root otherMap)] ([], maxCount)
                in (complete, differences))
   }"

end
