(* ===== verification/Sha_Map_Inv.thy ===== *)
theory Sha_Map_Inv
  imports Sha_Map
begin

text \<open>
  What a \<open>SHAMap\<close> means and when it is well formed: its items, the prefix property (an item is
  below branch \<open>i\<close> of a node of depth \<open>d\<close> exactly when digit \<open>d\<close> of its key is \<open>i\<close>) and the merge
  property (an inner node other than the root has at least two items below it).

  Lookup, insertion and deletion, which walk with explicit stacks, are shown to be lookup,
  insertion and deletion on the set of items.
\<close>

section \<open>Hexadecimal digits of keys\<close>

definition nibbleWord :: "nat \<Rightarrow> uint256 \<Rightarrow> uint256" where
  "nibbleWord d k = (let byte = drop_bit (8 * (31 - d div 2)) k AND 255
                     in if odd d then byte AND 15 else drop_bit 4 byte)"

definition nibble :: "nat \<Rightarrow> uint256 \<Rightarrow> nat" where
  "nibble d k = unat (nibbleWord d k)"

lemma mask_255: "(255 :: uint256) = mask 8" and mask_15: "(15 :: uint256) = mask 4"
  by (simp_all add: mask_eq_exp_minus_1)

lemma byte_shift:
  fixes d :: nat
  assumes "d < 64"
  shows "odd d \<Longrightarrow> 8 * (31 - d div 2) = 4 * (63 - d)" "even d \<Longrightarrow> 8 * (31 - d div 2) + 4 = 4 * (63 - d)"
  using assms by (auto elim!: oddE evenE)

lemma bit_nibbleWord:
  assumes "d < 64"
  shows "bit (nibbleWord d k) j \<longleftrightarrow> j < 4 \<and> bit k (4 * (63 - d) + j)"
proof -
  have i: "8 * (31 - d div 2) + j = 4 * (63 - d) + j" if "odd d"
    using that byte_shift(1)[OF assms] by simp
  have j: "4 + 8 * (31 - d div 2) + j = 4 * (63 - d) + j" if "even d"
    using that byte_shift(2)[OF assms] by simp
  show ?thesis unfolding nibbleWord_def Let_def mask_255 mask_15
    by (auto simp: bit_and_iff bit_drop_bit_eq bit_mask_iff i j)
qed

lemma nibble_less: "d < 64 \<Longrightarrow> nibble d k < 16"
proof -
  assume d: "d < 64"
  have "nibbleWord d k = take_bit 4 (nibbleWord d k)"
    by (rule bit_word_eqI) (auto simp: bit_nibbleWord[OF d] bit_take_bit_iff)
  then have "nibble d k = take_bit 4 (nibble d k)" by (metis nibble_def unsigned_take_bit_eq)
  moreover have "take_bit 4 (nibble d k) < 2 ^ 4" by (rule take_bit_nat_less_exp)
  ultimately show ?thesis by simp
qed

lemma key_eq_nibbles:
  assumes "\<And>d. d < 64 \<Longrightarrow> nibble d a = nibble d b"
  shows "a = b"
proof (rule bit_word_eqI)
  fix i
  assume "i < LENGTH(256)"
  then have i: "63 - i div 4 < 64" "4 * (63 - (63 - i div 4)) + i mod 4 = i" by simp_all
  have "nibbleWord (63 - i div 4) a = nibbleWord (63 - i div 4) b"
    using assms[OF i(1)] unfolding nibble_def by (rule unsigned_word_eqI)
  then have "bit (nibbleWord (63 - i div 4) a) (i mod 4) = bit (nibbleWord (63 - i div 4) b) (i mod 4)"
    by simp
  then show "bit a i = bit b i" unfolding bit_nibbleWord[OF i(1)] i(2) by simp
qed

lemma selectBranch_nibble:
  assumes "nid_depth nid < 64"
  shows "selectBranch nid k = Some (nibble (nid_depth nid) k)"
proof -
  have "nid_depth nid div 2 < 32" using assms by simp
  then show ?thesis by (simp add: selectBranch_def nibble_def nibbleWord_def Let_def)
qed

section \<open>Node identifiers\<close>

definition nid_ok :: "SHAMapNodeID \<Rightarrow> bool" where
  "nid_ok nid \<longleftrightarrow> nid_id nid = nid_id nid AND depthMask (nid_depth nid)"

lemma bit_depthMask: "d \<le> 64 \<Longrightarrow> bit (depthMask d) i \<longleftrightarrow> 256 - 4 * d \<le> i \<and> i < 256"
  by (auto simp: depthMask_def bit_push_bit_iff bit_mask_iff)

lemma nid_ok_bits:
  assumes "nid_depth nid \<le> 64"
  shows "nid_ok nid \<longleftrightarrow> (\<forall>i. bit (nid_id nid) i \<longrightarrow> 256 - 4 * nid_depth nid \<le> i)"
proof -
  have "bit (nid_id nid) i \<Longrightarrow> i < 256" for i using bit_imp_le_length[of "nid_id nid" i] by simp
  then show ?thesis unfolding nid_ok_def bit_eq_iff bit_and_iff bit_depthMask[OF assms] by auto
qed

lemma rootID_ok [simp]: "nid_ok rootID" "nid_depth rootID = 0"
  by (simp_all add: nid_ok_def rootID_def)

lemma getChildNodeID_ok:
  assumes nid: "nid_ok nid" "nid_depth nid < 64" and m: "m < 16"
  shows "\<exists>nid'. getChildNodeID nid m = Some nid' \<and> nid_ok nid' \<and> nid_depth nid' = Suc (nid_depth nid)"
proof -
  let ?d = "nid_depth nid"
  let ?w = "push_bit (8 * (31 - ?d div 2)) (if odd ?d then of_nat m else push_bit 4 (of_nat m)) :: uint256"
  have "256 - 4 * Suc ?d \<le> i" if "bit ?w i" for i
  proof (cases "odd ?d")
    case True
    with that have "8 * (31 - ?d div 2) \<le> i" by (simp add: bit_push_bit_iff)
    with True byte_shift(1)[OF nid(2)] show ?thesis by simp
  next
    case False
    with that have "8 * (31 - ?d div 2) + 4 \<le> i" by (auto simp: bit_push_bit_iff)
    with False byte_shift(2)[OF nid(2)] show ?thesis by simp
  qed
  then have "nid_ok \<lparr>nid_id = nid_id nid OR ?w, nid_depth = ?d + 1\<rparr>"
    using nid by (auto simp: nid_ok_bits bit_or_iff)
  with nid m show ?thesis
    by (simp add: getChildNodeID_def branchFactor_def leafDepth_def nid_ok_def)
qed

section \<open>Items and well-formed nodes\<close>

primrec items :: "SHAMapTreeNode \<Rightarrow> SHAMapItem set" where
  "items (Leaf ty item) = {item}"
| "items (Inner cs) = (\<Union>s \<in> set (map (map_option items) cs). case s of None \<Rightarrow> {} | Some s \<Rightarrow> s)"

declare items.simps(2) [simp del]

lemma items_Inner: "x \<in> items (Inner cs) \<longleftrightarrow> (\<exists>i c. child_at cs i = Some c \<and> x \<in> items c)"
proof
  assume "x \<in> items (Inner cs)"
  then obtain c where "Some c \<in> set cs" "x \<in> items c"
    by (auto simp: items.simps split: option.splits)
  then show "\<exists>i c. child_at cs i = Some c \<and> x \<in> items c"
    by (metis child_at_def in_set_conv_nth)
next
  assume "\<exists>i c. child_at cs i = Some c \<and> x \<in> items c"
  then obtain i c where "child_at cs i = Some c" "x \<in> items c" by blast
  then have "Some c \<in> set cs" by (metis child_at_def nth_mem option.distinct(1))
  with \<open>x \<in> items c\<close> show "x \<in> items (Inner cs)" by (force simp: items.simps)
qed

text \<open>The merge property of one node.\<close>

definition merged :: "SHAMapTreeNode \<Rightarrow> bool" where
  "merged n \<longleftrightarrow> (case n of Leaf _ _ \<Rightarrow> True | Inner _ \<Rightarrow> (\<exists>x \<in> items n. \<exists>y \<in> items n. x \<noteq> y))"

inductive wf_node :: "SHAMapNodeType \<Rightarrow> nat \<Rightarrow> SHAMapTreeNode \<Rightarrow> bool" where
  wf_Leaf: "ty \<noteq> tnINNER \<Longrightarrow> 12 \<le> length (item_data x) \<Longrightarrow> wf_node ty d (Leaf ty x)"
| wf_Inner: "d < 64 \<Longrightarrow> length cs = 16 \<Longrightarrow>
    (\<And>i c. child_at cs i = Some c \<Longrightarrow> wf_node ty (Suc d) c \<and> merged c \<and> (\<forall>x \<in> items c. nibble d (item_key x) = i)) \<Longrightarrow>
    wf_node ty d (Inner cs)"

inductive_cases wf_InnerE: "wf_node ty d (Inner cs)"
inductive_cases wf_LeafE: "wf_node ty d (Leaf lty x)"

inductive_simps wf_Inner_iff: "wf_node ty d (Inner cs)"
inductive_simps wf_Leaf_iff: "wf_node ty d (Leaf lty x)"

definition sha_ok :: "SHAMapNodeType \<Rightarrow> SHAMap \<Rightarrow> bool" where
  "sha_ok ty m \<longleftrightarrow> wf_node ty 0 (root m) \<and> (\<exists>cs. root m = Inner cs)"

definition map_items :: "SHAMap \<Rightarrow> SHAMapItem set" where
  "map_items m = items (root m)"

lemma wf_child:
  assumes "wf_node ty d (Inner cs)" "child_at cs i = Some c"
  shows "wf_node ty (Suc d) c" "merged c" "x \<in> items c \<Longrightarrow> nibble d (item_key x) = i"
  using assms by (auto simp: wf_Inner_iff)

text \<open>The prefix property: an item is below the branch that its key selects.\<close>

lemma items_branch:
  assumes "wf_node ty d (Inner cs)"
  shows "x \<in> items (Inner cs) \<longleftrightarrow> (\<exists>c. child_at cs (nibble d (item_key x)) = Some c \<and> x \<in> items c)"
  using wf_child(3)[OF assms] by (auto simp: items_Inner)

lemma items_key_unique:
  "wf_node ty d n \<Longrightarrow> x \<in> items n \<Longrightarrow> y \<in> items n \<Longrightarrow> item_key x = item_key y \<Longrightarrow> x = y"
proof (induction arbitrary: x y rule: wf_node.induct)
  case (wf_Leaf ty x d)
  then show ?case by simp
next
  case (wf_Inner d cs ty)
  have "wf_node ty d (Inner cs)" using wf_Inner by (intro wf_node.wf_Inner) auto
  from items_branch[OF this] wf_Inner.prems wf_Inner.IH show ?case by (metis option.inject)
qed

lemma wf_items_nonempty: "wf_node ty d n \<Longrightarrow> merged n \<Longrightarrow> items n \<noteq> {}"
  by (cases n) (auto simp: merged_def)

section \<open>Lookup\<close>

lemma walkTowards_found:
  assumes "wf_node ty d n" "nid_ok nid" "nid_depth nid = d"
  shows "\<exists>leaf st. walkTowards k n nid st0 = Some (leaf, st) \<and> st \<noteq> []
    \<and> (\<forall>x. x \<in> items n \<and> item_key x = k \<longleftrightarrow> leaf = Some x \<and> item_key x = k)"
  using assms
proof (induction arbitrary: nid st0 rule: wf_node.induct)
  case (wf_Leaf ty x d)
  then show ?case by auto
next
  case (wf_Inner d cs ty)
  have wf: "wf_node ty d (Inner cs)" using wf_Inner by (intro wf_node.wf_Inner) auto
  let ?b = "nibble d k"
  have b: "selectBranch nid k = Some ?b" "?b < 16"
    using wf_Inner.hyps(1) wf_Inner.prems by (auto simp: selectBranch_nibble nibble_less)
  show ?case
  proof (cases "child_at cs ?b")
    case None
    with b items_branch[OF wf] show ?thesis by auto
  next
    case (Some c)
    from getChildNodeID_ok[of nid ?b] wf_Inner.prems wf_Inner.hyps(1) b(2)
    obtain nid' where nid': "getChildNodeID nid ?b = Some nid'" "nid_ok nid'" "nid_depth nid' = Suc d"
      by auto
    from wf_Inner.IH[OF Some] nid'(2,3) obtain leaf st where
      "walkTowards k c nid' ((Inner cs, nid) # st0) = Some (leaf, st)" "st \<noteq> []"
      "\<forall>x. x \<in> items c \<and> item_key x = k \<longleftrightarrow> leaf = Some x \<and> item_key x = k" by metis
    with Some b nid'(1) items_branch[OF wf] show ?thesis by auto
  qed
qed

lemma findKey_spec:
  assumes "sha_ok ty m"
  shows "\<exists>r. findKey k m = Some r \<and> (\<forall>x. r = Some x \<longleftrightarrow> x \<in> map_items m \<and> item_key x = k)"
proof -
  from assms have "wf_node ty 0 (root m)" by (simp add: sha_ok_def)
  from walkTowards_found[OF this rootID_ok, of k "[]"] show ?thesis
    by (fastforce simp: findKey_def walkTowardsKey_def map_items_def split: option.split)
qed

lemma walkTowards_top:
  "walkTowards k n nid st0 = Some (leaf, st) \<Longrightarrow>
     (case leaf of
        Some y \<Rightarrow> \<exists>lty nid' st'. st = (Leaf lty y, nid') # st'
      | None \<Rightarrow> \<exists>cs nid' st' b. st = (Inner cs, nid') # st' \<and> selectBranch nid' k = Some b \<and> child_at cs b = None)"
proof (induction k n nid st0 rule: walkTowards.induct)
  case (1 key ty item nid stack)
  then show ?case by auto
next
  case (2 key cs nid stack)
  then show ?case
    by (auto split: option.splits Option.bind_splits)
qed

lemma walkTowards_leaf_type:
  "wf_node ty d n \<Longrightarrow> walkTowards k n nid st0 = Some (leaf, (Leaf lty x, nid') # st) \<Longrightarrow> lty = ty"
proof (induction arbitrary: nid st0 rule: wf_node.induct)
  case (wf_Inner d cs ty)
  from wf_Inner.prems obtain b c nid1 where "child_at cs b = Some c"
    "walkTowards k c nid1 ((Inner cs, nid) # st0) = Some (leaf, (Leaf lty x, nid') # st)"
    by (auto split: Option.bind_splits option.splits)
  with wf_Inner.IH show ?case by blast
qed simp

section \<open>Insertion\<close>

lemma child_at_setChild:
  "child_at (setChild b oc cs) i = (if i = b \<and> b < length cs then oc else child_at cs i)"
  by (auto simp: child_at_def setChild_def)

lemma child_at_replicate [simp]: "child_at (replicate n None) i = None"
  by (simp add: child_at_def)

lemma length_setChild [simp]: "length (setChild b oc cs) = length cs"
  by (simp add: setChild_def)

lemma items_setChild:
  assumes "b < length cs"
  shows "x \<in> items (Inner (setChild b oc cs)) \<longleftrightarrow>
    (\<exists>c. oc = Some c \<and> x \<in> items c) \<or> (\<exists>i c. i \<noteq> b \<and> child_at cs i = Some c \<and> x \<in> items c)"
  using assms by (auto simp: items_Inner child_at_setChild)

lemma items_at:
  "x \<in> items (Inner cs) \<longleftrightarrow>
    (\<exists>c. child_at cs b = Some c \<and> x \<in> items c) \<or> (\<exists>i c. i \<noteq> b \<and> child_at cs i = Some c \<and> x \<in> items c)"
  unfolding items_Inner by metis

lemma items_setChild_insert:
  assumes "b < length cs" "items c' = insert x (case child_at cs b of None \<Rightarrow> {} | Some c \<Rightarrow> items c)"
  shows "items (Inner (setChild b (Some c') cs)) = insert x (items (Inner cs))"
proof (rule set_eqI)
  fix y
  show "y \<in> items (Inner (setChild b (Some c') cs)) \<longleftrightarrow> y \<in> insert x (items (Inner cs))"
    unfolding items_setChild[OF assms(1)] insert_iff items_at[of y cs b]
    using assms(2) by (auto split: option.splits)
qed

lemma wf_setChild:
  assumes "wf_node ty d (Inner cs)"
    and "\<And>c. oc = Some c \<Longrightarrow> wf_node ty (Suc d) c \<and> merged c \<and> (\<forall>x \<in> items c. nibble d (item_key x) = b)"
  shows "wf_node ty d (Inner (setChild b oc cs))"
  using assms by (auto simp: wf_Inner_iff child_at_setChild split: if_splits)

lemma wf_emptyInner: "d < 64 \<Longrightarrow> wf_node ty d (Inner (replicate branchFactor None))"
  by (auto simp: branchFactor_def intro!: wf_Inner)

lemma items_emptyInner [simp]: "items (Inner (replicate n None)) = {}"
  by (auto simp: items_Inner)

lemma items_single:
  assumes "b < 16"
  shows "items (Inner (setChild b (Some c) (replicate branchFactor None))) = items c"
proof (rule set_eqI)
  fix z
  have "b < length (replicate branchFactor None :: SHAMapTreeNode option list)"
    using assms by (simp add: branchFactor_def)
  from items_setChild[OF this] show
    "z \<in> items (Inner (setChild b (Some c) (replicate branchFactor None))) \<longleftrightarrow> z \<in> items c" by simp
qed

definition leaf_ok :: "SHAMapNodeType \<Rightarrow> SHAMapItem \<Rightarrow> bool" where
  "leaf_ok ty x \<longleftrightarrow> ty \<noteq> tnINNER \<and> 12 \<le> length (item_data x)"

lemma makeTypedLeaf_ok: "leaf_ok ty x \<Longrightarrow> makeTypedLeaf ty x = Some (Leaf ty x)"
  by (simp add: leaf_ok_def makeTypedLeaf_def)

lemma wf_Leaf_ok: "leaf_ok ty x \<Longrightarrow> wf_node ty d (Leaf ty x)" and merged_Leaf [simp]: "merged (Leaf ty x)"
  by (auto simp: leaf_ok_def merged_def intro: wf_Leaf)

text \<open>The part of \<open>addGiveItem\<close> after the walk, and what it computes, by recursion on the tree.\<close>

definition addTop :: "SHAMapNodeType \<Rightarrow> SHAMapItem \<Rightarrow> NodeStack \<Rightarrow> SHAMapTreeNode option" where
  "addTop ty x stack =
     (case stack of
        [] \<Rightarrow> None
      | (Leaf lty other, nid) # stack' \<Rightarrow> do {
          (b1, b2, stack'') \<leftarrow> splitLevels (item_key x) (item_key other) nid stack';
          leaf1 \<leftarrow> makeTypedLeaf ty x;
          leaf2 \<leftarrow> makeTypedLeaf ty other;
          dirtyUp stack'' (item_key x)
            (Inner (setChild b2 (Some leaf2) (setChild b1 (Some leaf1) (replicate branchFactor None))))
        }
      | (Inner cs, nid) # stack' \<Rightarrow> do {
          branch \<leftarrow> selectBranch nid (item_key x);
          assertThat (child_at cs branch = None);
          leaf \<leftarrow> makeTypedLeaf ty x;
          dirtyUp stack' (item_key x) (Inner (setChild branch (Some leaf) cs))
        })"

function splitNode ::
  "SHAMapNodeType \<Rightarrow> SHAMapItem \<Rightarrow> SHAMapItem \<Rightarrow> SHAMapNodeID \<Rightarrow> SHAMapTreeNode option" where
  "splitNode ty x y nid = do {
     b1 \<leftarrow> selectBranch nid (item_key x);
     b2 \<leftarrow> selectBranch nid (item_key y);
     if b1 = b2 then do {
       nid' \<leftarrow> getChildNodeID nid b1;
       c \<leftarrow> splitNode ty x y nid';
       Some (Inner (setChild b1 (Some c) (replicate branchFactor None)))
     }
     else do {
       leaf1 \<leftarrow> makeTypedLeaf ty x;
       leaf2 \<leftarrow> makeTypedLeaf ty y;
       Some (Inner (setChild b2 (Some leaf2) (setChild b1 (Some leaf1) (replicate branchFactor None))))
     }
   }"
  by pat_completeness auto
termination
  by (relation "measure (\<lambda>(_, _, _, nid). leafDepth - nid_depth nid)")
    (auto simp: getChildNodeID_def assertThat_def split: if_splits)

function addAt :: "SHAMapNodeType \<Rightarrow> SHAMapItem \<Rightarrow> SHAMapTreeNode \<Rightarrow> SHAMapNodeID \<Rightarrow> SHAMapTreeNode option" where
  "addAt ty x (Leaf lty y) nid = splitNode ty x y nid"
| "addAt ty x (Inner cs) nid = do {
     b \<leftarrow> selectBranch nid (item_key x);
     (case child_at cs b of
        None \<Rightarrow> do { leaf \<leftarrow> makeTypedLeaf ty x; Some (Inner (setChild b (Some leaf) cs)) }
      | Some c \<Rightarrow> do {
          nid' \<leftarrow> getChildNodeID nid b;
          c' \<leftarrow> addAt ty x c nid';
          Some (Inner (setChild b (Some c') cs))
        })
   }"
  by pat_completeness auto
termination
  by (relation "measure (\<lambda>(_, _, n, _). size n)") (auto simp: child_at_size)

declare splitLevels.simps [simp del] splitNode.simps [simp del]

lemma splitLevels_dirtyUp:
  "do { (b1, b2, st') \<leftarrow> splitLevels (item_key x) (item_key y) nid st;
        leaf1 \<leftarrow> makeTypedLeaf ty x; leaf2 \<leftarrow> makeTypedLeaf ty y;
        dirtyUp st' (item_key x)
          (Inner (setChild b2 (Some leaf2) (setChild b1 (Some leaf1) (replicate branchFactor None)))) }
   = do { n \<leftarrow> splitNode ty x y nid; dirtyUp st (item_key x) n }"
proof (induction "item_key x" "item_key y" nid st rule: splitLevels.induct)
  case (1 nid st)
  show ?case
  proof (cases "selectBranch nid (item_key x)"; cases "selectBranch nid (item_key y)")
    fix b1 b2
    assume b: "selectBranch nid (item_key x) = Some b1" "selectBranch nid (item_key y) = Some b2"
    show ?thesis
    proof (cases "b1 = b2")
      case True
      show ?thesis
      proof (cases "getChildNodeID nid b1")
        case (Some nid')
        from 1[OF b True Some] show ?thesis
          by (subst splitLevels.simps, subst splitNode.simps)
            (cases "splitNode ty x y nid'"; simp add: b True[symmetric] Some emptyInner_def Option.bind_assoc)
      qed (simp add: splitLevels.simps[of _ _ nid] splitNode.simps[of _ _ _ nid] b True[symmetric])
    qed (simp add: splitLevels.simps[of _ _ nid] splitNode.simps[of _ _ _ nid] b Option.bind_assoc)
  qed (simp_all add: splitLevels.simps[of _ _ nid] splitNode.simps[of _ _ _ nid])
qed

lemma walkTowards_add:
  "do { (leaf, st) \<leftarrow> walkTowards (item_key x) n nid st0; addTop ty x st }
   = do { n' \<leftarrow> addAt ty x n nid; dirtyUp st0 (item_key x) n' }"
proof (induction "item_key x" n nid st0 rule: walkTowards.induct)
  case (1 lty y nid st)
  then show ?case by (simp add: addTop_def splitLevels_dirtyUp)
next
  case (2 cs nid st)
  show ?case
  proof (cases "selectBranch nid (item_key x)")
    case (Some b)
    show ?thesis
    proof (cases "child_at cs b")
      case None
      with Some show ?thesis by (auto simp: addTop_def split: Option.bind_split)
    next
      case c: (Some c)
      with Some 2[OF Some c] show ?thesis by (auto split: Option.bind_split)
    qed
  qed simp
qed

text \<open>Keys that agree on the first \<open>d\<close> digits and differ must part below.\<close>

definition agree :: "nat \<Rightarrow> uint256 \<Rightarrow> uint256 \<Rightarrow> bool" where
  "agree d a b \<longleftrightarrow> (\<forall>j < d. nibble j a = nibble j b)"

lemma agree_Suc: "agree (Suc d) a b \<longleftrightarrow> agree d a b \<and> nibble d a = nibble d b"
  by (auto simp: agree_def less_Suc_eq)

lemma agree_full: "agree d a b \<Longrightarrow> 64 \<le> d \<Longrightarrow> a = b"
  by (rule key_eq_nibbles) (simp add: agree_def)

lemma splitNode_spec:
  assumes "nid_ok nid" "agree (nid_depth nid) (item_key x) (item_key y)" "item_key x \<noteq> item_key y"
    "leaf_ok ty x" "leaf_ok ty y"
  shows "\<exists>cs. splitNode ty x y nid = Some (Inner cs) \<and> wf_node ty (nid_depth nid) (Inner cs)
    \<and> items (Inner cs) = {x, y}"
  using assms
proof (induction ty x y nid rule: splitNode.induct)
  case (1 ty x y nid)
  let ?d = "nid_depth nid" and ?b1 = "nibble (nid_depth nid) (item_key x)"
  let ?b2 = "nibble (nid_depth nid) (item_key y)"
  have d: "?d < 64" using agree_full[of ?d "item_key x" "item_key y"] 1(3,4) by force
  have b: "selectBranch nid (item_key x) = Some ?b1" "selectBranch nid (item_key y) = Some ?b2"
    "?b1 < 16" "?b2 < 16" using d by (auto simp: selectBranch_nibble nibble_less)
  have xy: "x \<noteq> y" using 1(4) by auto
  show ?case
  proof (cases "?b1 = ?b2")
    case True
    from getChildNodeID_ok[OF 1(2) d b(3)] obtain nid' where
      nid': "getChildNodeID nid ?b1 = Some nid'" "nid_ok nid'" "nid_depth nid' = Suc ?d" by blast
    from 1(1)[OF b(1,2) True nid'(1)] nid' 1(3-6) True obtain cs where
      cs: "splitNode ty x y nid' = Some (Inner cs)" "wf_node ty (Suc ?d) (Inner cs)" "items (Inner cs) = {x, y}"
      by (auto simp: agree_Suc)
    have "merged (Inner cs)" using cs(3) xy by (auto simp: merged_def)
    then have "wf_node ty ?d (Inner (setChild ?b1 (Some (Inner cs)) (replicate branchFactor None)))"
      using cs True d by (intro wf_setChild wf_emptyInner) auto
    moreover have "items (Inner (setChild ?b1 (Some (Inner cs)) (replicate branchFactor None))) = {x, y}"
      using cs(3) by (simp add: items_single[OF b(3)])
    ultimately show ?thesis using b(1,2) nid'(1) cs(1) True by (subst splitNode.simps) simp
  next
    case False
    have "wf_node ty ?d (Inner (setChild ?b2 (Some (Leaf ty y)) (setChild ?b1 (Some (Leaf ty x)) (replicate branchFactor None))))"
      using d 1(5,6) by (intro wf_setChild wf_emptyInner) (auto simp: wf_Leaf_ok)
    moreover have "items (Inner (setChild ?b2 (Some (Leaf ty y)) (setChild ?b1 (Some (Leaf ty x)) (replicate branchFactor None)))) = {x, y}"
      using b(3,4) False by (subst items_setChild_insert[where x = y])
        (auto simp: branchFactor_def child_at_setChild items_single[unfolded branchFactor_def])
    ultimately show ?thesis using b(1,2) 1(5,6) False
      by (subst splitNode.simps) (simp add: makeTypedLeaf_ok)
  qed
qed

lemma addAt_spec:
  assumes "wf_node ty d n" "nid_ok nid" "nid_depth nid = d" "leaf_ok ty x"
    "\<And>y. y \<in> items n \<Longrightarrow> agree d (item_key x) (item_key y) \<and> item_key y \<noteq> item_key x"
  shows "\<exists>cs. addAt ty x n nid = Some (Inner cs) \<and> wf_node ty d (Inner cs) \<and> items (Inner cs) = insert x (items n)"
  using assms
proof (induction arbitrary: nid rule: wf_node.induct)
  case (wf_Leaf ty y d)
  then have "leaf_ok ty y" by (simp add: leaf_ok_def)
  with wf_Leaf splitNode_spec[of nid x y ty] show ?case by auto
next
  case (wf_Inner d cs ty)
  have wf: "wf_node ty d (Inner cs)" using wf_Inner by (intro wf_node.wf_Inner) auto
  let ?b = "nibble d (item_key x)"
  have b: "selectBranch nid (item_key x) = Some ?b" "?b < 16"
    using wf_Inner.hyps(1) wf_Inner.prems(2) by (auto simp: selectBranch_nibble nibble_less)
  show ?case
  proof (cases "child_at cs ?b")
    case None
    have "wf_node ty d (Inner (setChild ?b (Some (Leaf ty x)) cs))"
      using wf wf_Inner.prems(3) by (intro wf_setChild) (auto simp: wf_Leaf_ok)
    moreover have "items (Inner (setChild ?b (Some (Leaf ty x)) cs)) = insert x (items (Inner cs))"
      using b(2) wf_Inner.hyps(2) None by (intro items_setChild_insert) auto
    ultimately show ?thesis using None b(1) wf_Inner.prems(3) by (simp add: makeTypedLeaf_ok)
  next
    case (Some c)
    from getChildNodeID_ok[of nid ?b] wf_Inner.prems(1,2) wf_Inner.hyps(1) b(2)
    obtain nid' where nid': "getChildNodeID nid ?b = Some nid'" "nid_ok nid'" "nid_depth nid' = Suc d" by auto
    have "\<And>y. y \<in> items c \<Longrightarrow> agree (Suc d) (item_key x) (item_key y) \<and> item_key y \<noteq> item_key x"
      using wf_Inner.prems(4) Some wf_child(3)[OF wf Some] by (metis agree_Suc items_Inner)
    with wf_Inner.IH[OF Some] nid' wf_Inner.prems(3) obtain cs' where
      cs': "addAt ty x c nid' = Some (Inner cs')" "wf_node ty (Suc d) (Inner cs')" "items (Inner cs') = insert x (items c)"
      by blast
    have "merged (Inner cs')"
      using cs'(3) wf_Inner.prems(4) wf_items_nonempty[OF wf_child(1,2)[OF wf Some]] Some
      unfolding merged_def by (fastforce simp: items_Inner)
    then have "wf_node ty d (Inner (setChild ?b (Some (Inner cs')) cs))"
      using wf cs' wf_child(3)[OF wf Some] by (intro wf_setChild) auto
    moreover have "items (Inner (setChild ?b (Some (Inner cs')) cs)) = insert x (items (Inner cs))"
      using b(2) wf_Inner.hyps(2) cs'(3) Some by (intro items_setChild_insert) auto
    ultimately show ?thesis using Some b(1) nid'(1) cs'(1) by simp
  qed
qed

lemma addGiveItem_spec:
  assumes ok: "sha_ok ty m" and st: "mstate m = Modifying" and x: "leaf_ok ty x"
  shows "\<exists>m'. addGiveItem ty x m = Some (\<forall>y \<in> map_items m. item_key y \<noteq> item_key x, m') \<and> sha_ok ty m'
    \<and> mstate m' = Modifying
    \<and> map_items m' = (if \<forall>y \<in> map_items m. item_key y \<noteq> item_key x then insert x (map_items m) else map_items m)"
proof -
  have wf: "wf_node ty 0 (root m)" using ok by (simp add: sha_ok_def)
  from walkTowards_found[OF wf rootID_ok, of "item_key x" "[]"] obtain leaf stk where
    walk: "walkTowards (item_key x) (root m) rootID [] = Some (leaf, stk)"
    "\<And>y. y \<in> items (root m) \<and> item_key y = item_key x \<longleftrightarrow> leaf = Some y \<and> item_key y = item_key x" by blast
  note top = walkTowards_top[OF walk(1)]
  show ?thesis
  proof (cases "\<forall>y \<in> map_items m. item_key y \<noteq> item_key x")
    case False
    then obtain y where y: "leaf = Some y" "item_key y = item_key x"
      using walk(2) by (auto simp: map_items_def)
    from top y(1) obtain lty nid stk' where "stk = (Leaf lty y, nid) # stk'" by auto
    with walk(1) y(2) st x False ok show ?thesis
      by (auto simp: addGiveItem_def walkTowardsKey_def leaf_ok_def)
  next
    case True
    from addAt_spec[OF wf rootID_ok x] True obtain cs where
      cs: "addAt ty x (root m) rootID = Some (Inner cs)" "wf_node ty 0 (Inner cs)" "items (Inner cs) = insert x (items (root m))"
      by (auto simp: agree_def map_items_def)
    have "addTop ty x stk = Some (Inner cs)"
      using walkTowards_add[of x "root m" rootID "[]" ty] cs(1) walk(1) by simp
    moreover have new: "\<And>y. leaf = Some y \<Longrightarrow> item_key y \<noteq> item_key x"
      using walk(2) True by (auto simp: map_items_def)
    have "addGiveItem ty x m = do { r \<leftarrow> addTop ty x stk; Some (True, m\<lparr>root := r\<rparr>) }"
      using walk(1) new top st x unfolding addGiveItem_def walkTowardsKey_def
      by (cases leaf) (auto simp: addTop_def leaf_ok_def Let_def Option.bind_assoc case_prod_unfold)
    ultimately show ?thesis using cs(2,3) st True by (auto simp: sha_ok_def map_items_def)
  qed
qed

section \<open>Deletion\<close>

lemma child_at_Cons [simp]: "child_at (c # cs) 0 = c" "child_at (c # cs) (Suc i) = child_at cs i"
  by (auto simp: child_at_def)

lemma child_at_Nil [simp]: "child_at [] i = None"
  by (simp add: child_at_def)

lemma branches_Nil_iff: "branches cs = [] \<longleftrightarrow> (\<forall>i. child_at cs i = None)"
proof
  show "branches cs = [] \<Longrightarrow> \<forall>i. child_at cs i = None"
    by (metis child_at_def empty_iff list.set(1) not_Some_eq nth_mem set_branches)
  show "\<forall>i. child_at cs i = None \<Longrightarrow> branches cs = []"
    by (metis child_at_def in_set_conv_nth list.set_intros(1) neq_Nil_conv option.distinct(1) set_branches)
qed

lemma branches_first: "branches cs = a # xs \<Longrightarrow> \<exists>i. child_at cs i = Some a"
  by (metis child_at_def in_set_conv_nth list.set_intros(1) set_branches)

lemma branches_two:
  "branches cs = a # b # xs \<Longrightarrow> \<exists>i j. i \<noteq> j \<and> child_at cs i = Some a \<and> child_at cs j = Some b"
proof (induction cs)
  case (Cons c cs)
  show ?case
  proof (cases c)
    case None
    with Cons obtain i j where "i \<noteq> j" "child_at cs i = Some a" "child_at cs j = Some b"
      by (auto simp: branches_Cons)
    then show ?thesis by (intro exI[of _ "Suc i"] exI[of _ "Suc j"]) simp
  next
    case (Some y)
    with Cons.prems have "y = a" "branches cs = b # xs" by (auto simp: branches_Cons)
    from branches_first[OF this(2)] obtain j where "child_at cs j = Some b" by blast
    with Some \<open>y = a\<close> show ?thesis by (intro exI[of _ 0] exI[of _ "Suc j"]) simp
  qed
qed simp

lemma branches_one:
  assumes "branches cs = [a]"
  shows "\<exists>i. child_at cs i = Some a \<and> (\<forall>j c. child_at cs j = Some c \<longrightarrow> c = a)"
proof -
  have "c = a" if "child_at cs j = Some c" for j c
    using that assms by (metis child_at_def empty_iff insert_iff list.set(1,2) nth_mem option.distinct(1) set_branches)
  with branches_first[OF assms] show ?thesis by blast
qed

lemma onlyBelow_merged:
  "wf_node ty d n \<Longrightarrow> merged n \<Longrightarrow> onlyBelow n = (case n of Leaf _ y \<Rightarrow> Some (Some y) | Inner _ \<Rightarrow> Some None)"
proof (induction rule: wf_node.induct)
  case (wf_Leaf ty x d)
  then show ?case by simp
next
  case (wf_Inner d cs ty)
  show ?case
  proof (cases "branches cs")
    case Nil
    then have "items (Inner cs) = {}" by (simp add: set_eq_iff items_Inner branches_Nil_iff)
    with wf_Inner.prems show ?thesis by (simp add: merged_def)
  next
    case (Cons a xs)
    show ?thesis
    proof (cases xs)
      case Nil
      with Cons branches_one[of cs a] obtain i where i: "child_at cs i = Some a"
        "\<And>j c. child_at cs j = Some c \<Longrightarrow> c = a" by blast
      have "items (Inner cs) = items a" unfolding set_eq_iff items_Inner using i by blast
      with wf_Inner.prems obtain bs where "a = Inner bs" by (cases a) (auto simp: merged_def)
      with Cons Nil wf_Inner.IH[OF i(1)] show ?thesis by simp
    qed (use Cons in simp)
  qed
qed

text \<open>What one level of the upward loop of \<open>delItem\<close> leaves of a node other than the root.\<close>

definition collapse :: "SHAMapNodeType \<Rightarrow> SHAMapTreeNode option list \<Rightarrow> SHAMapTreeNode option option" where
  "collapse ty cs =
     (if getBranchCount cs = 0 then Some None
      else if getBranchCount cs = 1 then do {
        below \<leftarrow> onlyBelow (Inner cs);
        (case below of
           Some item \<Rightarrow> do { leaf \<leftarrow> makeTypedLeaf ty item; Some (Some leaf) }
         | None \<Rightarrow> Some (Some (Inner cs)))
      }
      else Some (Some (Inner cs)))"

lemma pruneUp_inner:
  assumes "\<not> isRoot nid"
  shows "pruneUp ty k ((Inner cs, nid) # st) prev r =
    do { b \<leftarrow> selectBranch nid k; prev' \<leftarrow> collapse ty (setChild b prev cs); pruneUp ty k st prev' r }"
  using assms by (auto simp: collapse_def Let_def Option.bind_assoc split: Option.bind_split option.split)

lemma collapse_spec:
  assumes wf: "wf_node ty d (Inner cs)"
  shows "\<exists>p. collapse ty cs = Some p \<and> (case p of None \<Rightarrow> items (Inner cs) = {}
    | Some n \<Rightarrow> wf_node ty d n \<and> merged n \<and> items n = items (Inner cs))"
proof (cases "branches cs")
  case Nil
  then have "items (Inner cs) = {}" by (simp add: set_eq_iff items_Inner branches_Nil_iff)
  with Nil show ?thesis by (simp add: collapse_def getBranchCount_def)
next
  case (Cons a xs)
  show ?thesis
  proof (cases xs)
    case Nil
    with Cons branches_one[of cs a] obtain i where i: "child_at cs i = Some a"
      "\<And>j c. child_at cs j = Some c \<Longrightarrow> c = a" by blast
    have it: "items a = items (Inner cs)" unfolding set_eq_iff items_Inner using i by blast
    note a = wf_child(1,2)[OF wf i(1)]
    show ?thesis
    proof (cases a)
      case (Leaf lty y)
      with a(1) have "lty = ty" "leaf_ok ty y" by (auto simp: wf_Leaf_iff leaf_ok_def)
      with Cons Nil Leaf it show ?thesis
        by (simp add: collapse_def getBranchCount_def makeTypedLeaf_ok wf_Leaf_ok)
    next
      case (Inner bs)
      with it a(2) have "merged (Inner cs)" by (simp add: merged_def)
      with Cons Nil Inner onlyBelow_merged[OF a] wf show ?thesis
        by (simp add: collapse_def getBranchCount_def)
    qed
  next
    case xs: (Cons b ys)
    from branches_two[of cs a b ys] Cons xs obtain i j where
      ij: "i \<noteq> j" "child_at cs i = Some a" "child_at cs j = Some b" by blast
    from wf_items_nonempty[OF wf_child(1,2)[OF wf ij(2)]] wf_items_nonempty[OF wf_child(1,2)[OF wf ij(3)]]
    obtain x y where xy: "x \<in> items a" "y \<in> items b" by blast
    then have "x \<noteq> y" using wf_child(3)[OF wf ij(2)] wf_child(3)[OF wf ij(3)] ij(1) by metis
    moreover have "x \<in> items (Inner cs)" "y \<in> items (Inner cs)" using xy ij items_Inner by blast+
    ultimately have "merged (Inner cs)" by (auto simp: merged_def)
    with Cons xs wf show ?thesis by (simp add: collapse_def getBranchCount_def)
  qed
qed

function delBelow :: "SHAMapNodeType \<Rightarrow> uint256 \<Rightarrow> SHAMapTreeNode \<Rightarrow> SHAMapNodeID \<Rightarrow> SHAMapTreeNode option option" where
  "delBelow ty k (Leaf lty y) nid = Some None"
| "delBelow ty k (Inner cs) nid = do {
     b \<leftarrow> selectBranch nid k;
     c \<leftarrow> child_at cs b;
     nid' \<leftarrow> getChildNodeID nid b;
     prev \<leftarrow> delBelow ty k c nid';
     collapse ty (setChild b prev cs)
   }"
  by pat_completeness auto
termination
  by (relation "measure (\<lambda>(_, _, n, _). size n)") (auto simp: child_at_size)

lemma walkTowards_del:
  "walkTowards k n nid st0 = Some (Some y, leafEntry # st) \<Longrightarrow> 0 < nid_depth nid \<Longrightarrow>
     pruneUp ty k st None r = do { prev \<leftarrow> delBelow ty k n nid; pruneUp ty k st0 prev r }"
proof (induction k n nid st0 rule: walkTowards.induct)
  case (1 key lty item nid stack)
  then show ?case by simp
next
  case (2 key cs nid stack)
  from 2(2) obtain b c nid' where b: "selectBranch nid key = Some b" "child_at cs b = Some c"
    "getChildNodeID nid b = Some nid'" "walkTowards key c nid' ((Inner cs, nid) # stack) = Some (Some y, leafEntry # st)"
    by (auto split: Option.bind_splits option.splits)
  have "0 < nid_depth nid'" using b(3) by (auto simp: getChildNodeID_def assertThat_def split: if_splits)
  from 2(1)[OF b this] b(1-3) 2(3) show ?case
    by (simp add: pruneUp_inner isRoot_def Option.bind_assoc del: pruneUp.simps)
qed

lemma items_setChild_remove:
  assumes wf: "wf_node ty d (Inner cs)" and c: "child_at cs (nibble d (item_key x)) = Some c"
    and p: "(case p of None \<Rightarrow> {} | Some n \<Rightarrow> items n) = items c - {x}"
  shows "items (Inner (setChild (nibble d (item_key x)) p cs)) = items (Inner cs) - {x}"
proof (rule set_eqI)
  fix z
  let ?b = "nibble d (item_key x)"
  have len: "?b < length cs" using c by (auto simp: child_at_def split: if_splits)
  have other: "z \<noteq> x" if "i \<noteq> ?b" "child_at cs i = Some c'" "z \<in> items c'" for i c'
    using that wf_child(3)[OF wf that(2,3)] by auto
  have "(\<exists>n. p = Some n \<and> z \<in> items n) \<longleftrightarrow> z \<in> items c \<and> z \<noteq> x" using p by (auto split: option.splits)
  with other c show "z \<in> items (Inner (setChild ?b p cs)) \<longleftrightarrow> z \<in> items (Inner cs) - {x}"
    unfolding items_setChild[OF len] Diff_iff items_at[of z cs ?b] by auto
qed

lemma delBelow_spec:
  assumes "wf_node ty d n" "nid_ok nid" "nid_depth nid = d" "x \<in> items n"
  shows "\<exists>p. delBelow ty (item_key x) n nid = Some p \<and> (case p of None \<Rightarrow> items n = {x}
    | Some n' \<Rightarrow> wf_node ty d n' \<and> merged n' \<and> items n' = items n - {x})"
  using assms
proof (induction arbitrary: nid rule: wf_node.induct)
  case (wf_Leaf ty y d)
  then show ?case by simp
next
  case (wf_Inner d cs ty)
  have wf: "wf_node ty d (Inner cs)" using wf_Inner by (intro wf_node.wf_Inner) auto
  let ?b = "nibble d (item_key x)"
  have b: "selectBranch nid (item_key x) = Some ?b" "?b < 16"
    using wf_Inner.hyps(1) wf_Inner.prems(2) by (auto simp: selectBranch_nibble nibble_less)
  obtain c where c: "child_at cs ?b = Some c" "x \<in> items c"
    using items_branch[OF wf] wf_Inner.prems(3) by blast
  from getChildNodeID_ok[of nid ?b] wf_Inner.prems wf_Inner.hyps(1) b(2)
  obtain nid' where nid': "getChildNodeID nid ?b = Some nid'" "nid_ok nid'" "nid_depth nid' = Suc d" by auto
  from wf_Inner.IH[OF c(1)] nid' c(2) obtain p where
    p: "delBelow ty (item_key x) c nid' = Some p" "case p of None \<Rightarrow> items c = {x}
      | Some n' \<Rightarrow> wf_node ty (Suc d) n' \<and> merged n' \<and> items n' = items c - {x}" by blast
  have wf': "wf_node ty d (Inner (setChild ?b p cs))"
    using wf p(2) wf_child(3)[OF wf c(1)] by (intro wf_setChild) auto
  have it: "items (Inner (setChild ?b p cs)) = items (Inner cs) - {x}"
    using wf c(1) p(2) by (intro items_setChild_remove) (auto split: option.splits)
  from collapse_spec[OF wf'] obtain q where q: "collapse ty (setChild ?b p cs) = Some q"
    "case q of None \<Rightarrow> items (Inner (setChild ?b p cs)) = {}
      | Some n \<Rightarrow> wf_node ty d n \<and> merged n \<and> items n = items (Inner (setChild ?b p cs))" by blast
  have "delBelow ty (item_key x) (Inner cs) nid = Some q" using b(1) c(1) nid'(1) p(1) q(1) by simp
  with q(2) wf_Inner.prems(3) show ?case unfolding it by (auto split: option.splits)
qed

lemma delItem_spec:
  assumes ok: "sha_ok ty m" and st: "mstate m = Modifying"
  shows "\<exists>m'. delItem k m = Some (\<exists>x \<in> map_items m. item_key x = k, m') \<and> sha_ok ty m' \<and> mstate m' = Modifying
    \<and> map_items m' = {x \<in> map_items m. item_key x \<noteq> k}"
proof -
  obtain cs where cs: "root m = Inner cs" and wf: "wf_node ty 0 (Inner cs)"
    using ok by (auto simp: sha_ok_def)
  from walkTowards_found[OF wf rootID_ok, of k "[]"] obtain leaf stk where
    walk: "walkTowards k (Inner cs) rootID [] = Some (leaf, stk)"
    "\<And>y. y \<in> items (Inner cs) \<and> item_key y = k \<longleftrightarrow> leaf = Some y \<and> item_key y = k" by blast
  note top = walkTowards_top[OF walk(1)]
  show ?thesis
  proof (cases "\<exists>x \<in> items (Inner cs). item_key x = k")
    case False
    then have "\<And>y. leaf = Some y \<Longrightarrow> item_key y \<noteq> k" using walk(2) by auto
    with walk(1) top st ok cs False show ?thesis
      by (cases leaf) (auto simp: delItem_def walkTowardsKey_def map_items_def)
  next
    case True
    then obtain x where x: "x \<in> items (Inner cs)" "item_key x = k" "leaf = Some x" using walk(2) by blast
    obtain lty nid stk' where stk: "stk = (Leaf lty x, nid) # stk'" using top x(3) by auto
    let ?b = "nibble 0 k"
    have b: "selectBranch rootID k = Some ?b" "?b < 16" by (simp_all add: selectBranch_nibble nibble_less)
    obtain c where c: "child_at cs ?b = Some c" "x \<in> items c" using items_branch[OF wf] x(1,2) by blast
    from getChildNodeID_ok[OF rootID_ok(1) _ b(2)] obtain nid' where
      nid': "getChildNodeID rootID ?b = Some nid'" "nid_ok nid'" "nid_depth nid' = Suc 0" by auto
    from delBelow_spec[OF wf_child(1)[OF wf c(1)] nid'(2,3) c(2)] obtain p where
      p: "delBelow ty k c nid' = Some p" "case p of None \<Rightarrow> items c = {x}
        | Some n' \<Rightarrow> wf_node ty (Suc 0) n' \<and> merged n' \<and> items n' = items c - {x}"
      using x(2) by metis
    have lty: "lty = ty"
      using walkTowards_leaf_type[OF wf walk(1)[unfolded stk]] .
    have w: "walkTowards k c nid' [(Inner cs, rootID)] = Some (Some x, (Leaf lty x, nid) # stk')"
      using walk(1) b(1) c(1) nid'(1) x(3) stk by simp
    have "pruneUp ty k stk' None (root m) = Some (Inner (setChild ?b p cs))"
      using walkTowards_del[OF w, of ty "root m"] nid'(3) p(1) b(1) by (simp add: isRoot_def)
    moreover have "wf_node ty 0 (Inner (setChild ?b p cs))"
      using wf p(2) wf_child(3)[OF wf c(1)] by (intro wf_setChild) auto
    moreover have "items (Inner (setChild ?b p cs)) = items (Inner cs) - {x}"
      using items_setChild_remove[OF wf, of x c p] x(2) c(1) p(2) by (auto split: option.splits)
    moreover have "y = x \<longleftrightarrow> item_key y = k" if "y \<in> items (Inner cs)" for y
      using items_key_unique[OF wf that x(1)] x(2) by auto
    then have "items (Inner cs) - {x} = {y \<in> items (Inner cs). item_key y \<noteq> k}" by blast
    ultimately show ?thesis using walk(1) stk x cs st True lty
      by (auto simp: delItem_def walkTowardsKey_def map_items_def sha_ok_def)
  qed
qed

section \<open>Uniqueness of the tree\<close>

lemma merged_inner: "merged n \<Longrightarrow> (\<exists>es. n = Inner es) \<longleftrightarrow> (\<exists>x y. x \<in> items n \<and> y \<in> items n \<and> x \<noteq> y)"
  by (cases n) (auto simp: merged_def)

lemma child_items_subset:
  assumes wf: "wf_node ty d (Inner es)" "wf_node ty d (Inner es')" and eq: "items (Inner es) = items (Inner es')"
    and c: "child_at es i = Some c"
  shows "\<exists>c'. child_at es' i = Some c' \<and> items c \<subseteq> items c'"
proof -
  have to: "\<exists>c'. child_at es' i = Some c' \<and> x \<in> items c'" if "x \<in> items c" for x
    using items_branch[OF wf(2), of x] wf_child(3)[OF wf(1) c that] that eq c items_Inner by metis
  obtain x where "x \<in> items c" using wf_items_nonempty[OF wf_child(1,2)[OF wf(1) c]] by blast
  with to obtain c' where "child_at es' i = Some c'" by blast
  with to show ?thesis by (metis option.inject subsetI)
qed

text \<open>The items determine the tree.\<close>

lemma wf_unique:
  "wf_node ty d a \<Longrightarrow> wf_node ty d b \<Longrightarrow> items a = items b \<Longrightarrow>
     (\<exists>cs. a = Inner cs) = (\<exists>cs. b = Inner cs) \<Longrightarrow> a = b"
proof (induction arbitrary: b rule: wf_node.induct)
  case (wf_Leaf ty x d)
  then obtain lty y where "b = Leaf lty y" by (cases b) auto
  with wf_Leaf.prems show ?case by (auto simp: wf_Leaf_iff)
next
  case (wf_Inner d cs ty)
  have wf: "wf_node ty d (Inner cs)" using wf_Inner by (intro wf_node.wf_Inner) auto
  obtain ds where ds: "b = Inner ds" using wf_Inner.prems(3) by auto
  have wf2: "wf_node ty d (Inner ds)" and len: "length cs = 16" "length ds = 16"
    using wf_Inner.prems(1) wf_Inner.hyps(2) ds by (auto simp: wf_Inner_iff)
  have eq: "items (Inner cs) = items (Inner ds)" using wf_Inner.prems(2) ds by simp
  note sub = child_items_subset
  have "child_at cs i = child_at ds i" for i
  proof (cases "child_at cs i")
    case None
    then show ?thesis using sub[OF wf2 wf eq[symmetric], of i] by (cases "child_at ds i") auto
  next
    case (Some c)
    from sub[OF wf wf2 eq Some] obtain c' where
      c': "child_at ds i = Some c'" "items c \<subseteq> items c'" by auto
    from sub[OF wf2 wf eq[symmetric] c'(1)] Some have eq: "items c = items c'" using c'(2) by auto
    have "(\<exists>es. c = Inner es) = (\<exists>es. c' = Inner es)"
      using merged_inner[OF wf_child(2)[OF wf Some]] merged_inner[OF wf_child(2)[OF wf2 c'(1)]] eq by simp
    with wf_Inner.IH[OF Some] wf_child(1)[OF wf2 c'(1)] eq Some c'(1) show ?thesis by auto
  qed
  then have "cs = ds" using len by (auto simp: child_at_def list_eq_iff_nth_eq) (metis)
  with ds show ?case by simp
qed

end
