(* ===== verification/Sha_Map_Compare.thy ===== *)
theory Sha_Map_Compare
  imports Sha_Map_Inv "HOL-Library.Multiset"
begin

text \<open>
  \<open>SHAMap::compare\<close> is correct. The stack loops are shown to record, in order and up to the limit,
  a list of differences that is a pure function of the two trees; that list has no duplicates, its
  members are differences of the two sets of items, and when no two different subtrees have the
  same hash every difference is in it.
\<close>

section \<open>Differences between two sets of items\<close>

definition item_of :: "SHAMapItem set \<Rightarrow> uint256 \<Rightarrow> SHAMapItem option \<Rightarrow> bool" where
  "item_of A k a \<longleftrightarrow> (\<forall>x. a = Some x \<longleftrightarrow> x \<in> A \<and> item_key x = k)"

definition item_diff :: "SHAMapItem set \<Rightarrow> SHAMapItem set \<Rightarrow> (uint256 \<times> DeltaItem) set" where
  "item_diff A B = {(k, a, b). item_of A k a \<and> item_of B k b \<and> a \<noteq> b}"

lemma item_diff_self [simp]: "item_diff A A = {}"
proof -
  have "a = b" if "item_of A k a" "item_of A k b" for k a b
    using that by (cases a; cases b) (auto simp: item_of_def)
  then show ?thesis by (auto simp: item_diff_def)
qed

lemma item_diff_key:
  assumes "(k, d) \<in> item_diff A B"
  shows "\<exists>x \<in> A \<union> B. item_key x = k"
  using assms by (cases "fst d"; cases "snd d") (auto simp: item_diff_def item_of_def)

lemma item_of_restrict:
  assumes "\<And>x. item_key x = k \<Longrightarrow> x \<in> A \<longleftrightarrow> x \<in> A'"
  shows "item_of A k a \<longleftrightarrow> item_of A' k a"
  using assms by (auto simp: item_of_def)

lemma item_diff_restrict:
  assumes "\<And>x. item_key x = k \<Longrightarrow> x \<in> A \<longleftrightarrow> x \<in> A'" "\<And>x. item_key x = k \<Longrightarrow> x \<in> B \<longleftrightarrow> x \<in> B'"
  shows "(k, d) \<in> item_diff A B \<longleftrightarrow> (k, d) \<in> item_diff A' B'"
  using item_of_restrict[of k A A'] item_of_restrict[of k B B'] assms by (auto simp: item_diff_def)

lemma item_of_None: "item_of A k None \<longleftrightarrow> (\<forall>x \<in> A. item_key x \<noteq> k)"
  by (auto simp: item_of_def)

section \<open>Recording a list of differences\<close>

fun recordAll :: "(uint256 \<times> DeltaItem) list \<Rightarrow> Delta \<times> int \<Rightarrow> bool \<times> Delta \<times> int" where
  "recordAll [] st = (True, st)"
| "recordAll ((k, d) # ds) st =
     (case recordDifference k d st of
        (True, st') \<Rightarrow> recordAll ds st'
      | (False, st') \<Rightarrow> (False, st'))"

lemma recordAll_append:
  "recordAll (ds @ es) st =
     (case recordAll ds st of (True, st') \<Rightarrow> recordAll es st' | (False, st') \<Rightarrow> (False, st'))"
  by (induction ds st rule: recordAll.induct) (auto split: prod.splits bool.splits)

lemma om_insert_new:
  "k \<notin> al_keys D \<Longrightarrow> set (om_upd k d (\<lambda>x. x) D) = insert (k, d) (set D)"
  "k \<notin> al_keys D \<Longrightarrow> length (om_upd k d (\<lambda>x. x) D) = Suc (length D)"
  by (induction D) auto

text \<open>The limit: of a list without duplicates the first \<open>max 1 maxCount\<close> entries are recorded.\<close>

lemma recordAll_spec:
  assumes "om_sorted D" "distinct (map fst ds)" "fst ` set ds \<inter> al_keys D = {}"
    "recordAll ds (D, mc) = (c, D', mc')"
  shows "om_sorted D' \<and> set D' = set D \<union> set (take (nat (max 1 mc)) ds)
    \<and> length D' = length D + min (length ds) (nat (max 1 mc)) \<and> (c \<longleftrightarrow> length ds < nat (max 1 mc))"
  using assms
proof (induction ds arbitrary: D mc)
  case (Cons kd ds)
  obtain k d where kd: "kd = (k, d)" by (cases kd)
  let ?D = "om_upd k d (\<lambda>x. x) D"
  have k: "k \<notin> al_keys D" using Cons.prems(3) kd by auto
  have D: "om_sorted ?D" "set ?D = insert (k, d) (set D)" "length ?D = Suc (length D)"
    "al_keys ?D = insert k (al_keys D)"
    using om_sorted_upd[OF Cons.prems(1)] om_insert_new[OF k] om_upd_keys by auto
  show ?case
  proof (cases "0 < mc - 1")
    case True
    then have n: "nat (max 1 mc) = Suc (nat (max 1 (mc - 1)))" by simp
    have "recordAll ds (?D, mc - 1) = (c, D', mc')"
      using Cons.prems(4) True by (simp add: kd recordDifference_def delta_insert_def)
    from Cons.IH[OF D(1) _ _ this] Cons.prems(2,3) D show ?thesis
      unfolding n by (auto simp: kd)
  next
    case False
    then have n: "nat (max 1 mc) = 1" by simp
    show ?thesis using Cons.prems(4) False D unfolding n
      by (auto simp: kd recordDifference_def delta_insert_def)
  qed
qed auto

section \<open>Lists grouped by an index\<close>

lemma distinct_concat_index:
  assumes "\<And>i. i < length xss \<Longrightarrow> distinct (xss ! i)"
    "\<And>i x. i < length xss \<Longrightarrow> x \<in> set (xss ! i) \<Longrightarrow> g x = i"
  shows "distinct (concat xss)"
  using assms
proof (induction xss rule: rev_induct)
  case (snoc ys xss)
  have a: "distinct (xss ! i)" if "i < length xss" for i
    using snoc.prems(1)[of i] that by (simp add: nth_append)
  have b: "g x = i" if "i < length xss" "x \<in> set (xss ! i)" for i x
    using snoc.prems(2)[of i x] that by (simp add: nth_append)
  have c: "distinct ys" "\<And>x. x \<in> set ys \<Longrightarrow> g x = length xss"
    using snoc.prems[of "length xss"] by (simp_all add: nth_append)
  have "set (concat xss) \<inter> set ys = {}"
    using b c(2) by (auto simp: in_set_conv_nth[of _ xss]) (metis nat_neq_iff)
  with snoc.IH[OF a b] c(1) show ?case by simp
qed simp

lemma concat_branches: "concat (map f (branches cs)) = concat (map (case_option [] f) cs)"
  by (induction cs) (auto simp: branches_Cons split: option.split)

section \<open>The leaves below a node\<close>

text \<open>The leaves in the order in which the stack loop meets them.\<close>

function visit :: "SHAMapTreeNode list \<Rightarrow> SHAMapItem list" where
  "visit [] = []"
| "visit (Inner cs # ns) = visit (rev (branches cs) @ ns)"
| "visit (Leaf ty x # ns) = x # visit ns"
  by pat_completeness auto
termination
  by (relation "measure stack_size") (auto simp: le_imp_less_Suc branches_stack_size less_Suc_eq_le le_SucI)

lemma visit_append: "visit (ns @ ms) = visit ns @ visit ms"
proof (induction ns rule: visit.induct)
  case (2 cs ns)
  from 2[simplified] show ?case by simp
qed simp_all

lemma visit_concat: "visit ns = concat (map (\<lambda>n. visit [n]) ns)"
proof (induction ns)
  case (Cons n ns)
  have "visit (n # ns) = visit [n] @ visit ns" using visit_append[of "[n]" ns] by simp
  with Cons show ?case by simp
qed simp

lemma mset_concat_rev: "mset (concat (map f (rev xs))) = mset (concat (map f xs))"
  by (induction xs) auto

lemma mset_visit_Inner:
  "mset (visit [Inner cs]) = mset (concat (map (case_option [] (\<lambda>n. visit [n])) cs))"
proof -
  have "visit [Inner cs] = concat (map (\<lambda>n. visit [n]) (rev (branches cs)))"
    using visit_concat[of "rev (branches cs)"] by simp
  then show ?thesis by (simp only: mset_concat_rev concat_branches)
qed

lemma set_visit: "set (visit [n]) = items n"
proof (induction n)
  case (Inner cs)
  have "set (visit [Inner cs]) = set (concat (map (case_option [] (\<lambda>n. visit [n])) cs))"
    by (metis mset_visit_Inner set_mset_mset)
  also have "\<dots> = items (Inner cs)"
    using Inner by (auto simp: items.simps split: option.splits)
  finally show ?case .
qed simp

lemma child_at_nth: "i < length cs \<Longrightarrow> child_at cs i = cs ! i"
  by (simp add: child_at_def)

lemma distinct_visit: "wf_node ty d n \<Longrightarrow> distinct (map item_key (visit [n]))"
proof (induction rule: wf_node.induct)
  case (wf_Inner d cs ty)
  let ?xss = "map (map item_key \<circ> case_option [] (\<lambda>n. visit [n])) cs"
  have IH: "distinct (map item_key (visit [c])) \<and> (\<forall>x \<in> items c. nibble d (item_key x) = i)"
    if "i < length cs" "cs ! i = Some c" for i c
    using wf_Inner.IH[of i c] that by (simp add: child_at_nth)
  have "distinct (concat ?xss)"
  proof (rule distinct_concat_index[where g = "nibble d"])
    fix i assume "i < length ?xss"
    then have i: "i < length cs" by simp
    show "distinct (?xss ! i)" using IH[OF i] i by (cases "cs ! i") auto
    fix k assume "k \<in> set (?xss ! i)"
    then show "nibble d k = i" using IH[OF i] i by (cases "cs ! i") (auto simp: set_visit)
  qed
  moreover have "mset (map item_key (visit [Inner cs])) = mset (concat ?xss)"
    using mset_visit_Inner[of cs] by (metis map_concat map_map mset_map)
  ultimately show ?case by (metis mset_eq_imp_distinct_iff)
qed simp

section \<open>Walking a branch\<close>

text \<open>The differences that \<open>walkBranch\<close> meets, for the leaves in their order.\<close>

fun walkDeltas :: "SHAMapItem option \<Rightarrow> bool \<Rightarrow> SHAMapItem list \<Rightarrow> bool \<Rightarrow> (uint256 \<times> DeltaItem) list" where
  "walkDeltas other f [] e =
     (case other of Some o1 \<Rightarrow> if \<not> e then [(item_key o1, inOrder f None (Some o1))] else [] | None \<Rightarrow> [])"
| "walkDeltas other f (x # xs) e =
     (if e \<or> map_option item_key other \<noteq> Some (item_key x)
      then (item_key x, inOrder f (Some x) None) # walkDeltas other f xs e
      else if map_option item_data other \<noteq> Some (item_data x)
      then (item_key x, inOrder f (Some x) other) # walkDeltas other f xs True
      else walkDeltas other f xs True)"

lemma walkBranchLoop_record:
  "walkBranchLoop other f ns e st = recordAll (walkDeltas other f (visit ns) e) st"
proof (induction other f ns e st rule: walkBranchLoop.induct)
  case (1 other f e st)
  then show ?case by (auto split: option.split prod.split bool.split)
next
  case (2 other f cs ns e st)
  then show ?case by simp
next
  case (3 other f ty x ns e st)
  then show ?case by (auto split: prod.split bool.split)
qed

definition oriented :: "bool \<Rightarrow> 'a set \<Rightarrow> 'a set \<Rightarrow> 'a set \<times> 'a set" where
  "oriented f X Y = (if f then (X, Y) else (Y, X))"

abbreviation diff_dir :: "bool \<Rightarrow> SHAMapItem set \<Rightarrow> SHAMapItem set \<Rightarrow> (uint256 \<times> DeltaItem) set" where
  "diff_dir f X Y \<equiv> item_diff (fst (oriented f X Y)) (snd (oriented f X Y))"

lemma diff_dir_iff:
  "(k, inOrder f a b) \<in> diff_dir f X Y \<longleftrightarrow> item_of X k a \<and> item_of Y k b \<and> a \<noteq> b"
  by (auto simp: item_diff_def oriented_def inOrder_def)

lemma diff_dir_cases:
  assumes "(k, d) \<in> diff_dir f X Y"
  obtains a b where "d = inOrder f a b" "item_of X k a" "item_of Y k b" "a \<noteq> b"
  using assms by (cases d) (auto simp: item_diff_def oriented_def inOrder_def split: if_splits)

text \<open>With the other side matched or empty every remaining leaf is a difference.\<close>

lemma walkDeltas_True: "walkDeltas other f xs True = map (\<lambda>x. (item_key x, inOrder f (Some x) None)) xs"
  by (induction xs) (auto split: option.split)

lemma walkDeltas_miss:
  assumes "\<forall>x \<in> set xs. item_key x \<noteq> item_key o1"
  shows "walkDeltas (Some o1) f xs False =
    map (\<lambda>x. (item_key x, inOrder f (Some x) None)) xs @ [(item_key o1, inOrder f None (Some o1))]"
  using assms by (induction xs) auto

lemma walkDeltas_hit:
  assumes "\<forall>x \<in> set xs. item_key x \<noteq> item_key o1" "item_key y = item_key o1"
  shows "walkDeltas (Some o1) f (xs @ y # ys) False =
    map (\<lambda>x. (item_key x, inOrder f (Some x) None)) xs
      @ (if item_data y = item_data o1 then [] else [(item_key y, inOrder f (Some y) (Some o1))])
      @ map (\<lambda>x. (item_key x, inOrder f (Some x) None)) ys"
  using assms by (induction xs) (auto simp: walkDeltas_True)

lemma item_of_Some: "inj_on item_key X \<Longrightarrow> item_of X k (Some x) \<longleftrightarrow> x \<in> X \<and> item_key x = k"
  by (auto simp: item_of_def inj_on_def)

lemma diff_dir_char:
  assumes "inj_on item_key X" "inj_on item_key Y"
  shows "diff_dir f X Y =
    (\<lambda>x. (item_key x, inOrder f (Some x) None)) ` {x \<in> X. \<forall>y \<in> Y. item_key y \<noteq> item_key x}
    \<union> (\<lambda>y. (item_key y, inOrder f None (Some y))) ` {y \<in> Y. \<forall>x \<in> X. item_key x \<noteq> item_key y}
    \<union> (\<lambda>(x, y). (item_key x, inOrder f (Some x) (Some y))) ` {(x, y) \<in> X \<times> Y. item_key x = item_key y \<and> x \<noteq> y}"
    (is "_ = ?R")
proof (intro set_eqI iffI)
  note so = item_of_Some[OF assms(1)] item_of_Some[OF assms(2)] item_of_None
  fix p assume "p \<in> diff_dir f X Y"
  then obtain k a b where p: "p = (k, inOrder f a b)" "item_of X k a" "item_of Y k b" "a \<noteq> b"
    by (metis diff_dir_cases surj_pair)
  show "p \<in> ?R"
  proof (cases a)
    case None
    then obtain y where "b = Some y" using p(4) by (cases b) auto
    with None p show ?thesis by (auto simp: so)
  next
    case (Some x)
    show ?thesis
    proof (cases b)
      case None
      with p Some show ?thesis by (intro UnI1 image_eqI[of _ _ x]) (auto simp: so)
    next
      case b: (Some y)
      with p Some show ?thesis by (intro UnI2 image_eqI[of _ _ "(x, y)"]) (auto simp: so)
    qed
  qed
next
  note so = item_of_Some[OF assms(1)] item_of_Some[OF assms(2)] item_of_None diff_dir_iff
  fix p assume "p \<in> ?R"
  then show "p \<in> diff_dir f X Y" by (auto simp: so)
qed

text \<open>Exactly the differences between the leaves and the single item of the other side.\<close>

lemma walkDeltas_spec:
  assumes "distinct (map item_key xs)"
  shows "set (walkDeltas other f xs (other = None)) = diff_dir f (set xs) (set_option other)
    \<and> distinct (map fst (walkDeltas other f xs (other = None)))"
proof -
  have inj: "inj_on item_key (set xs)" "inj_on item_key (set_option other)"
    using assms by (auto simp: distinct_map inj_on_def)
  note char = diff_dir_char[OF inj, of f]
  consider "other = None" | (miss) o1 where "other = Some o1" "\<forall>x \<in> set xs. item_key x \<noteq> item_key o1"
    | (hit) o1 y where "other = Some o1" "y \<in> set xs" "item_key y = item_key o1"
    by (cases other) auto
  then show ?thesis
  proof cases
    case 1
    with assms show ?thesis unfolding char by (auto simp: walkDeltas_True comp_def)
  next
    case miss
    have "{(x, y) \<in> set xs \<times> {o1}. item_key x = item_key y \<and> x \<noteq> y} = {}" using miss(2) by auto
    with miss assms show ?thesis unfolding char
      by (auto simp: walkDeltas_miss[OF miss(2)] comp_def)
  next
    case hit
    obtain us vs where xs: "xs = us @ y # vs" using split_list[OF hit(2)] by blast
    have k: "\<forall>x \<in> set us. item_key x \<noteq> item_key o1" "\<forall>x \<in> set vs. item_key x \<noteq> item_key o1"
      using assms unfolding xs hit(3)[symmetric] by (auto simp: image_iff)
    have eq: "item_data y = item_data o1 \<longleftrightarrow> y = o1" using hit(3) by (cases y; cases o1) simp
    have a: "{x \<in> set xs. \<forall>z \<in> set_option other. item_key z \<noteq> item_key x} = set us \<union> set vs"
      using k hit unfolding xs by auto
    have b: "{z \<in> set_option other. \<forall>x \<in> set xs. item_key x \<noteq> item_key z} = {}" using hit by auto
    have c: "{(x, z) \<in> set xs \<times> set_option other. item_key x = item_key z \<and> x \<noteq> z} =
      (if y = o1 then {} else {(y, o1)})"
      using k hit unfolding xs by auto
    have w: "walkDeltas other f xs (other = None) =
      map (\<lambda>x. (item_key x, inOrder f (Some x) None)) us
      @ (if y = o1 then [] else [(item_key y, inOrder f (Some y) (Some o1))])
      @ map (\<lambda>x. (item_key x, inOrder f (Some x) None)) vs"
      unfolding xs hit(1) using walkDeltas_hit[OF k(1) hit(3)] eq by simp
    show ?thesis unfolding char a b c w using assms unfolding xs by (auto simp: comp_def)
  qed
qed

lemma walkBranch_record:
  assumes "wf_node ty d n"
  shows "\<exists>ds. (\<forall>st. walkBranch n other f st = recordAll ds st)
    \<and> set ds = diff_dir f (items n) (set_option other) \<and> distinct (map fst ds)"
  using walkDeltas_spec[OF distinct_visit[OF assms], of other f] unfolding set_visit
  by (intro exI[of _ "walkDeltas other f (visit [n]) (other = None)"])
    (simp add: walkBranch_def walkBranchLoop_record)

section \<open>The comparison loop\<close>

text \<open>
  For a pair of inner nodes: the differences of the branches that only one of them has, and the
  pairs of branches that both have, where the hashes differ.
\<close>

definition oneSided :: "(8 word list \<Rightarrow> uint256) \<Rightarrow> SHAMapTreeNode option \<times> SHAMapTreeNode option \<Rightarrow> (uint256 \<times> DeltaItem) list" where
  "oneSided sha = (\<lambda>(c, d).
     if getChildHash sha c = getChildHash sha d then []
     else (case (c, d) of
             (Some n, None) \<Rightarrow> walkDeltas None True (visit [n]) True
           | (None, Some n) \<Rightarrow> walkDeltas None False (visit [n]) True
           | _ \<Rightarrow> []))"

definition bothSides :: "(8 word list \<Rightarrow> uint256) \<Rightarrow> SHAMapTreeNode option \<times> SHAMapTreeNode option \<Rightarrow> (SHAMapTreeNode \<times> SHAMapTreeNode) list" where
  "bothSides sha = (\<lambda>(c, d).
     if getChildHash sha c = getChildHash sha d then []
     else (case (c, d) of (Some a, Some b) \<Rightarrow> [(a, b)] | _ \<Rightarrow> []))"

abbreviation branchDeltas where "branchDeltas sha ps \<equiv> concat (map (oneSided sha) ps)"
abbreviation branchPairs where "branchPairs sha ps \<equiv> concat (map (bothSides sha) ps)"

lemma compareBranches_record:
  "case recordAll (branchDeltas sha ps) st of
     (True, st') \<Rightarrow> compareBranches sha ps ns st = (True, st', rev (branchPairs sha ps) @ ns)
   | (False, st') \<Rightarrow> (\<exists>ns'. compareBranches sha ps ns st = (False, st', ns'))"
proof (induction ps arbitrary: ns st)
  case (Cons p ps)
  obtain c d where p: "p = (c, d)" by (cases p)
  show ?case
  proof (cases "getChildHash sha c = getChildHash sha d")
    case True
    then have "oneSided sha (c, d) = []" "bothSides sha (c, d) = []"
      by (simp_all add: oneSided_def bothSides_def)
    with True Cons[where ns = ns and st = st] show ?thesis by (auto simp: p split: prod.splits bool.splits)
  next
    case False
    then have "c \<noteq> None \<or> d \<noteq> None" by (cases c; cases d) auto
    then consider a where "c = Some a" "d = None" | b where "c = None" "d = Some b"
      | a b where "c = Some a" "d = Some b" by (cases c; cases d) auto
    then show ?thesis
    proof cases
      case 1
      with False have "oneSided sha (c, d) = walkDeltas None True (visit [a]) True" "bothSides sha (c, d) = []"
        by (simp_all add: oneSided_def bothSides_def)
      with 1 False Cons[where ns = ns and st = "snd (recordAll (walkDeltas None True (visit [a]) True) st)"] show ?thesis
        by (auto simp: p walkBranch_def walkBranchLoop_record recordAll_append
            split: prod.splits bool.splits)
    next
      case 2
      with False have "oneSided sha (c, d) = walkDeltas None False (visit [b]) True" "bothSides sha (c, d) = []"
        by (simp_all add: oneSided_def bothSides_def)
      with 2 False Cons[where ns = ns and st = "snd (recordAll (walkDeltas None False (visit [b]) True) st)"] show ?thesis
        by (auto simp: p walkBranch_def walkBranchLoop_record recordAll_append
            split: prod.splits bool.splits)
    next
      case 3
      with False have "oneSided sha (c, d) = []" "bothSides sha (c, d) = [(a, b)]"
        by (simp_all add: oneSided_def bothSides_def)
      with 3 False Cons[where ns = "(a, b) # ns" and st = st] show ?thesis
        by (auto simp: p split: prod.splits bool.splits)
    qed
  qed
qed simp

lemma branchPairs_size: "pairs_size (branchPairs sha ps) \<le> stack_size (branches (map fst ps))"
  by (induction ps) (auto simp: pairs_size_def bothSides_def branches_Cons split: option.split)

lemma pairs_size_append: "pairs_size (ps @ qs) = pairs_size ps + pairs_size qs"
  and pairs_size_rev: "pairs_size (rev ps) = pairs_size ps"
  by (induction ps) (auto simp: pairs_size_def)

function cmpDeltas :: "(8 word list \<Rightarrow> uint256) \<Rightarrow> (SHAMapTreeNode \<times> SHAMapTreeNode) list \<Rightarrow> (uint256 \<times> DeltaItem) list" where
  "cmpDeltas sha [] = []"
| "cmpDeltas sha ((Leaf ty1 x, Leaf ty2 y) # ns) =
     (if item_key x = item_key y
      then if item_data x \<noteq> item_data y then [(item_key x, Some x, Some y)] else []
      else [(item_key x, Some x, None), (item_key y, None, Some y)]) @ cmpDeltas sha ns"
| "cmpDeltas sha ((Inner cs, Leaf ty y) # ns) = walkDeltas (Some y) True (visit [Inner cs]) False @ cmpDeltas sha ns"
| "cmpDeltas sha ((Leaf ty x, Inner ds) # ns) = walkDeltas (Some x) False (visit [Inner ds]) False @ cmpDeltas sha ns"
| "cmpDeltas sha ((Inner cs, Inner ds) # ns) =
     branchDeltas sha (zip cs ds) @ cmpDeltas sha (rev (branchPairs sha (zip cs ds)) @ ns)"
  by pat_completeness auto
termination
proof (relation "measure (\<lambda>(_, ns). pairs_size ns)", goal_cases)
  case (5 sha cs ds ns)
  show ?case using branchPairs_size[of sha "zip cs ds"] zip_branches_size[of cs ds]
    by (simp add: pairs_size_append pairs_size_rev) (simp add: pairs_size_def)
qed (auto simp: pairs_size_def)

lemma compareLoop_record: "compareLoop sha ps st = recordAll (cmpDeltas sha ps) st"
proof (induction sha ps st rule: compareLoop.induct)
  case (5 sha cs ds ns st)
  have "case recordAll (branchDeltas sha (zip cs ds)) st of
     (True, st') \<Rightarrow> compareBranches sha (zip cs ds) ns st = (True, st', rev (branchPairs sha (zip cs ds)) @ ns)
   | (False, st') \<Rightarrow> (\<exists>ns'. compareBranches sha (zip cs ds) ns st = (False, st', ns'))"
    by (rule compareBranches_record)
  with 5 show ?case by (auto simp: recordAll_append split: prod.splits bool.splits)
qed (auto simp: recordAll_append walkBranch_def walkBranchLoop_record split: prod.splits bool.splits)

lemma cmpDeltas_append: "cmpDeltas sha (ps @ qs) = cmpDeltas sha ps @ cmpDeltas sha qs"
proof (induction sha ps rule: cmpDeltas.induct)
  case (5 sha cs ds ns)
  then show ?case by simp
qed simp_all

lemma cmpDeltas_concat: "cmpDeltas sha ps = concat (map (\<lambda>p. cmpDeltas sha [p]) ps)"
proof (induction ps)
  case (Cons p ps)
  with cmpDeltas_append[of sha "[p]" ps] show ?case by simp
qed simp

text \<open>All differences of one branch of a pair of inner nodes.\<close>

definition branchAll :: "(8 word list \<Rightarrow> uint256) \<Rightarrow> SHAMapTreeNode option \<times> SHAMapTreeNode option \<Rightarrow> (uint256 \<times> DeltaItem) list" where
  "branchAll sha p = oneSided sha p @ cmpDeltas sha (bothSides sha p)"

lemma mset_cmpDeltas_Inner:
  "mset (cmpDeltas sha [(Inner cs, Inner ds)]) = mset (concat (map (branchAll sha) (zip cs ds)))"
proof -
  have "mset (branchDeltas sha ps) + mset (cmpDeltas sha (branchPairs sha ps)) = mset (concat (map (branchAll sha) ps))" for ps
    by (induction ps) (auto simp: branchAll_def cmpDeltas_append)
  moreover have "mset (cmpDeltas sha (rev ps)) = mset (cmpDeltas sha ps)" for ps
    by (simp only: cmpDeltas_concat[of sha "rev ps"] cmpDeltas_concat[of sha ps] mset_concat_rev)
  ultimately show ?thesis by simp
qed

section \<open>Correctness\<close>

text \<open>No two different well-formed nodes over a set of items have the same hash.\<close>

definition collision_free :: "(8 word list \<Rightarrow> uint256) \<Rightarrow> SHAMapNodeType \<Rightarrow> SHAMapItem set \<Rightarrow> bool" where
  "collision_free sha ty U \<longleftrightarrow>
     (\<forall>a b d e. wf_node ty d a \<longrightarrow> wf_node ty e b \<longrightarrow> items a \<union> items b \<subseteq> U \<longrightarrow>
        nodeHash sha a = nodeHash sha b \<longrightarrow> a = b)"

lemma collision_free_subset: "collision_free sha ty U \<Longrightarrow> V \<subseteq> U \<Longrightarrow> collision_free sha ty V"
  unfolding collision_free_def by (meson order_trans)

lemma collision_free_eq:
  assumes "collision_free sha ty U" "wf_node ty d a" "wf_node ty e b" "items a \<union> items b \<subseteq> U"
    "nodeHash sha a = nodeHash sha b"
  shows "a = b"
  using assms unfolding collision_free_def by blast

lemma nodeHash_emptyInner: "nodeHash sha emptyInner = 0"
proof -
  have "branches (map (map_option (nodeHash sha)) (replicate n None)) = []" for n
    by (simp add: branches_Nil_iff child_at_def)
  then show ?thesis by (simp add: emptyInner_def innerHash_def)
qed

lemma nodeHash_nonzero:
  assumes "collision_free sha ty U" "wf_node ty d a" "items a \<subseteq> U" "items a \<noteq> {}"
  shows "nodeHash sha a \<noteq> 0"
proof
  assume "nodeHash sha a = 0"
  moreover have "wf_node ty 0 emptyInner" "items emptyInner = {}"
    using wf_emptyInner[of 0 ty] by (simp_all add: emptyInner_def)
  ultimately have "a = emptyInner" using assms nodeHash_emptyInner[of sha]
    by (intro collision_free_eq[OF assms(1,2)]) auto
  with assms(4) show False by (simp add: emptyInner_def)
qed

text \<open>A list of differences that is sound, without duplicates, and complete without collisions.\<close>

definition diff_list ::
  "(8 word list \<Rightarrow> uint256) \<Rightarrow> SHAMapNodeType \<Rightarrow> SHAMapItem set \<Rightarrow> SHAMapItem set \<Rightarrow> (uint256 \<times> DeltaItem) list \<Rightarrow> bool" where
  "diff_list sha ty A B L \<longleftrightarrow> set L \<subseteq> item_diff A B \<and> distinct (map fst L)
     \<and> (collision_free sha ty (A \<union> B) \<longrightarrow> item_diff A B \<subseteq> set L)"

lemma diff_list_exact: "set L = item_diff A B \<Longrightarrow> distinct (map fst L) \<Longrightarrow> diff_list sha ty A B L"
  by (simp add: diff_list_def)

definition oitems :: "SHAMapTreeNode option \<Rightarrow> SHAMapItem set" where
  "oitems c = (case c of None \<Rightarrow> {} | Some n \<Rightarrow> items n)"

lemma oitems_simps [simp]: "oitems None = {}" "oitems (Some n) = items n"
  by (simp_all add: oitems_def)

lemma oitems_subset: "oitems (child_at cs i) \<subseteq> items (Inner cs)"
  unfolding subset_iff items_Inner by (cases "child_at cs i") auto

lemma diff_dir_simps: "diff_dir True X Y = item_diff X Y" "diff_dir False X Y = item_diff Y X"
  by (simp_all add: oriented_def)

lemma walkDeltas_diff_list:
  assumes "wf_node ty d n"
  shows "diff_list sha ty (items n) (set_option other) (walkDeltas other True (visit [n]) (other = None))"
    "diff_list sha ty (set_option other) (items n) (walkDeltas other False (visit [n]) (other = None))"
  using walkDeltas_spec[OF distinct_visit[OF assms], of other] unfolding set_visit
  by (auto intro!: diff_list_exact simp: diff_dir_simps)

lemma branchAll_diff_list:
  assumes c: "\<And>n. c = Some n \<Longrightarrow> wf_node ty d n \<and> merged n" and e: "\<And>n. e = Some n \<Longrightarrow> wf_node ty d n \<and> merged n"
    and both: "\<And>a b. c = Some a \<Longrightarrow> e = Some b \<Longrightarrow> diff_list sha ty (items a) (items b) (cmpDeltas sha [(a, b)])"
  shows "diff_list sha ty (oitems c) (oitems e) (branchAll sha (c, e))"
proof (cases "getChildHash sha c = getChildHash sha e")
  case True
  have ne: "items n \<noteq> {}" if "wf_node ty d n \<and> merged n" for n using wf_items_nonempty that by blast
  have "oitems c = oitems e" if cf: "collision_free sha ty (oitems c \<union> oitems e)"
  proof (cases "c = None \<or> e = None")
    case True
    have "nodeHash sha n \<noteq> 0" if "c = Some n \<or> e = Some n" for n
      using that c e ne by (intro nodeHash_nonzero[OF cf]) auto
    with True \<open>getChildHash sha c = getChildHash sha e\<close> show ?thesis
      by (cases c; cases e) (auto simp: getChildHash_def)
  next
    case False
    then obtain a b where ab: "c = Some a" "e = Some b" by auto
    with True have "a = b" using c e by (intro collision_free_eq[OF cf]) (auto simp: getChildHash_def)
    with ab show ?thesis by simp
  qed
  with True show ?thesis by (auto simp: diff_list_def branchAll_def oneSided_def bothSides_def)
next
  case False
  then have "c \<noteq> None \<or> e \<noteq> None" by (cases c; cases e) auto
  then consider a where "c = Some a" "e = None" | b where "c = None" "e = Some b"
    | a b where "c = Some a" "e = Some b" by (cases c; cases e) auto
  then show ?thesis
  proof cases
    case 1
    with False walkDeltas_diff_list(1)[where other = None] c show ?thesis
      by (auto simp: branchAll_def oneSided_def bothSides_def)
  next
    case 2
    with False walkDeltas_diff_list(2)[where other = None] e show ?thesis
      by (auto simp: branchAll_def oneSided_def bothSides_def)
  next
    case 3
    with False both show ?thesis by (auto simp: branchAll_def oneSided_def bothSides_def)
  qed
qed

text \<open>The differences of two inner nodes are those of their branches.\<close>

lemma item_diff_branch:
  assumes "wf_node ty d (Inner cs)" "wf_node ty d (Inner es)"
  shows "(k, p) \<in> item_diff (items (Inner cs)) (items (Inner es)) \<longleftrightarrow>
    (k, p) \<in> item_diff (oitems (child_at cs (nibble d k))) (oitems (child_at es (nibble d k)))"
  using items_branch[OF assms(1)] items_branch[OF assms(2)]
  by (intro item_diff_restrict) (auto simp: oitems_def split: option.splits)

lemma item_diff_nibble:
  assumes "wf_node ty d (Inner cs)" "wf_node ty d (Inner es)"
    and "(k, p) \<in> item_diff (oitems (child_at cs i)) (oitems (child_at es i))"
  shows "nibble d k = i"
  using item_diff_key[OF assms(3)] wf_child(3)[OF assms(1), of i] wf_child(3)[OF assms(2), of i]
  by (auto simp: oitems_def split: option.splits)

lemma diff_list_Inner:
  assumes wf: "wf_node ty d (Inner cs)" "wf_node ty d (Inner es)"
    and L: "\<And>i. i < 16 \<Longrightarrow> diff_list sha ty (oitems (cs ! i)) (oitems (es ! i)) (branchAll sha (cs ! i, es ! i))"
  shows "diff_list sha ty (items (Inner cs)) (items (Inner es)) (cmpDeltas sha [(Inner cs, Inner es)])"
proof -
  let ?Ls = "map (branchAll sha) (zip cs es)"
  have len: "length cs = 16" "length es = 16" "d < 64" using wf by (auto simp: wf_Inner_iff)
  have nth: "?Ls ! i = branchAll sha (cs ! i, es ! i)" "child_at cs i = cs ! i" "child_at es i = es ! i"
    if "i < 16" for i using that len by (simp_all add: child_at_nth)
  have nib: "nibble d k = i" if "i < 16" "(k, p) \<in> set (?Ls ! i)" for k p i
    using item_diff_nibble[OF wf, of k p i] L[OF that(1)] that(2) nth[OF that(1)] by (auto simp: diff_list_def)
  have "distinct (concat (map (map fst) ?Ls))"
    using nib L nth len by (intro distinct_concat_index[where g = "nibble d"]) (auto simp: diff_list_def)
  then have dist: "distinct (map fst (concat ?Ls))" by (simp add: map_concat)
  have sound: "p \<in> item_diff (items (Inner cs)) (items (Inner es))" if p: "p \<in> set (concat ?Ls)" for p
  proof -
    from p obtain i where i: "i < 16" "p \<in> set (?Ls ! i)" using len
      by (auto simp: in_set_conv_nth[of _ ?Ls] in_set_conv_nth[of _ "zip cs es"])
    obtain k q where kq: "p = (k, q)" by (cases p)
    have "p \<in> item_diff (oitems (child_at cs i)) (oitems (child_at es i))"
      using i L[OF i(1)] nth[OF i(1)] by (auto simp: diff_list_def)
    with nib i kq show ?thesis using item_diff_branch[OF wf, of k q] by simp
  qed
  have complete: "p \<in> set (concat ?Ls)"
    if cf: "collision_free sha ty (items (Inner cs) \<union> items (Inner es))"
      and p: "p \<in> item_diff (items (Inner cs)) (items (Inner es))" for p
  proof -
    obtain k q where kq: "p = (k, q)" by (cases p)
    let ?i = "nibble d k"
    have i: "?i < 16" using nibble_less len by simp
    have "oitems (cs ! ?i) \<union> oitems (es ! ?i) \<subseteq> items (Inner cs) \<union> items (Inner es)"
      using nth[OF i] oitems_subset[of cs ?i] oitems_subset[of es ?i] by auto
    from collision_free_subset[OF cf this] L[OF i] p have "p \<in> set (?Ls ! ?i)"
      using nth[OF i] item_diff_branch[OF wf, of k q] kq by (auto simp: diff_list_def)
    moreover have "?Ls ! ?i \<in> set ?Ls" using i len by (intro nth_mem) simp
    ultimately show ?thesis unfolding set_concat by blast
  qed
  have m: "mset (cmpDeltas sha [(Inner cs, Inner es)]) = mset (concat ?Ls)" by (rule mset_cmpDeltas_Inner)
  have "set (cmpDeltas sha [(Inner cs, Inner es)]) = set (concat ?Ls)" using m by (rule mset_eq_setD)
  moreover have "distinct (map fst (cmpDeltas sha [(Inner cs, Inner es)]))"
    using m dist by (metis mset_eq_imp_distinct_iff mset_map)
  ultimately show ?thesis using sound complete unfolding diff_list_def by blast
qed

lemma item_diff_single:
  "item_diff {x} {y} =
     (if item_key x = item_key y then if x = y then {} else {(item_key x, Some x, Some y)}
      else {(item_key x, Some x, None), (item_key y, None, Some y)})"
proof -
  have "{a \<in> {x}. \<forall>b \<in> {y}. item_key b \<noteq> item_key a} = (if item_key x = item_key y then {} else {x})"
    "{b \<in> {y}. \<forall>a \<in> {x}. item_key a \<noteq> item_key b} = (if item_key x = item_key y then {} else {y})"
    "{(a, b) \<in> {x} \<times> {y}. item_key a = item_key b \<and> a \<noteq> b} = (if item_key x = item_key y \<and> x \<noteq> y then {(x, y)} else {})"
    by auto
  then show ?thesis using diff_dir_char[of "{x}" "{y}" True] unfolding diff_dir_simps
    by (simp add: inOrder_def insert_commute)
qed

lemma cmpDeltas_diff_list:
  "wf_node ty d a \<Longrightarrow> wf_node ty d b \<Longrightarrow> diff_list sha ty (items a) (items b) (cmpDeltas sha [(a, b)])"
proof (induction arbitrary: b rule: wf_node.induct)
  case (wf_Leaf ty x d)
  show ?case
  proof (cases b)
    case (Leaf lty y)
    have "item_key x = item_key y \<Longrightarrow> item_data x = item_data y \<longleftrightarrow> x = y" by (cases x; cases y) auto
    with Leaf show ?thesis by (intro diff_list_exact) (auto simp: item_diff_single)
  next
    case (Inner es)
    with wf_Leaf.prems have "wf_node ty d (Inner es)" by simp
    from walkDeltas_diff_list(2)[OF this, of sha "Some x"] Inner show ?thesis by simp
  qed
next
  case (wf_Inner d cs ty)
  have wf: "wf_node ty d (Inner cs)" using wf_Inner by (intro wf_node.wf_Inner) auto
  show ?case
  proof (cases b)
    case (Leaf lty y)
    with walkDeltas_diff_list(1)[OF wf, of sha "Some y"] show ?thesis by simp
  next
    case (Inner es)
    with wf_Inner.prems have wf2: "wf_node ty d (Inner es)" by simp
    have len: "length cs = 16" "length es = 16" using wf wf2 by (auto simp: wf_Inner_iff)
    have "diff_list sha ty (oitems (cs ! i)) (oitems (es ! i)) (branchAll sha (cs ! i, es ! i))" if "i < 16" for i
      using wf_child(1,2)[OF wf, of i] wf_child(1,2)[OF wf2, of i] wf_Inner.IH[of i] that len
      by (intro branchAll_diff_list[where d = "Suc d"]) (auto simp: child_at_nth)
    from diff_list_Inner[OF wf wf2 this] Inner show ?thesis by simp
  qed
qed

text \<open>What a comparison returns.\<close>

lemma compareMaps_spec:
  assumes "sha_ok ty m" "sha_ok ty n" "mstate m \<noteq> Invalid" "mstate n \<noteq> Invalid"
  shows "\<exists>c D. compareMaps sha m n maxCount = Some (c, D) \<and> om_sorted D
    \<and> set D \<subseteq> item_diff (map_items m) (map_items n)
    \<and> length D \<le> nat (max 1 maxCount)
    \<and> (c \<longrightarrow> collision_free sha ty (map_items m \<union> map_items n) \<longrightarrow> set D = item_diff (map_items m) (map_items n))
    \<and> (\<not> c \<longrightarrow> length D = nat (max 1 maxCount))"
proof (cases "getHash sha m = getHash sha n")
  case True
  have "item_diff (map_items m) (map_items n) = {}" if "collision_free sha ty (map_items m \<union> map_items n)"
    using collision_free_eq[OF that, of 0 "root m" 0 "root n"] assms True
    by (auto simp: sha_ok_def getHash_def map_items_def)
  with True assms show ?thesis by (auto simp: compareMaps_def)
next
  case False
  let ?L = "cmpDeltas sha [(root m, root n)]"
  have L: "diff_list sha ty (map_items m) (map_items n) ?L"
    unfolding map_items_def using assms(1,2) by (intro cmpDeltas_diff_list[where d = 0]) (simp_all add: sha_ok_def)
  obtain c D mc where r: "recordAll ?L ([], maxCount) = (c, D, mc)" by (metis prod_cases3)
  from recordAll_spec[OF _ _ _ r] L have D: "om_sorted D" "set D = set (take (nat (max 1 maxCount)) ?L)"
    "length D = min (length ?L) (nat (max 1 maxCount))" "c \<longleftrightarrow> length ?L < nat (max 1 maxCount)"
    by (auto simp: diff_list_def)
  have "compareMaps sha m n maxCount = Some (c, D)"
    using False assms(3,4) r by (simp add: compareMaps_def compareLoop_record)
  moreover have "set D \<subseteq> set ?L" using D(2) by (metis set_take_subset)
  moreover have "c \<Longrightarrow> set D = set ?L" using D(2,4) by simp
  ultimately show ?thesis using L D(1,3,4) unfolding diff_list_def by auto
qed

end
