(* ===== verification/Sha_Map_Props.thy ===== *)
theory Sha_Map_Props
  imports Sha_Map_Compare
begin

text \<open>
  What a SHAMap promises to its clients. \<open>keyed_store\<close> is the contract of a container of items with
  a key, in which the first item inserted under a key stays until it is deleted; the hash tree is
  shown to provide it, and any sequence of insertions and deletions is a refinement of the same
  sequence on a finite map. The shape of the tree, and with it the hash, depends on the content
  only.
\<close>

section \<open>The contract of a keyed store\<close>

datatype ('i, 'k) store_op = Put 'i | Drop 'k

fun store_step ::
  "('i \<Rightarrow> 's \<Rightarrow> (bool \<times> 's) option) \<Rightarrow> ('k \<Rightarrow> 's \<Rightarrow> (bool \<times> 's) option) \<Rightarrow> ('i, 'k) store_op \<Rightarrow> 's \<Rightarrow> 's option" where
  "store_step ins del (Put x) s = map_option snd (ins x s)"
| "store_step ins del (Drop k) s = map_option snd (del k s)"

fun spec_step :: "('i \<Rightarrow> 'k) \<Rightarrow> ('i, 'k) store_op \<Rightarrow> ('k \<rightharpoonup> 'i) \<Rightarrow> ('k \<rightharpoonup> 'i)" where
  "spec_step key (Put x) M = (case M (key x) of None \<Rightarrow> M(key x \<mapsto> x) | Some _ \<Rightarrow> M)"
| "spec_step key (Drop k) M = M(k := None)"

fun puts_valid :: "('i \<Rightarrow> bool) \<Rightarrow> ('i, 'k) store_op \<Rightarrow> bool" where
  "puts_valid valid (Put x) = valid x"
| "puts_valid valid (Drop k) = True"

locale keyed_store =
  fixes mt :: 's and ins :: "'i \<Rightarrow> 's \<Rightarrow> (bool \<times> 's) option" and del :: "'k \<Rightarrow> 's \<Rightarrow> (bool \<times> 's) option"
    and look :: "'k \<Rightarrow> 's \<Rightarrow> 'i option option" and key :: "'i \<Rightarrow> 'k" and valid :: "'i \<Rightarrow> bool"
    and inv :: "'s \<Rightarrow> bool" and contents :: "'s \<Rightarrow> 'i set"
  assumes mt: "inv mt" "contents mt = {}"
    and look: "inv s \<Longrightarrow> \<exists>r. look k s = Some r \<and> (\<forall>x. r = Some x \<longleftrightarrow> x \<in> contents s \<and> key x = k)"
    and ins: "inv s \<Longrightarrow> valid x \<Longrightarrow> \<exists>s'. ins x s = Some (\<forall>y \<in> contents s. key y \<noteq> key x, s') \<and> inv s'
      \<and> contents s' = (if \<forall>y \<in> contents s. key y \<noteq> key x then insert x (contents s) else contents s)"
    and del: "inv s \<Longrightarrow> \<exists>s'. del k s = Some (\<exists>x \<in> contents s. key x = k, s') \<and> inv s'
      \<and> contents s' = {x \<in> contents s. key x \<noteq> k}"
begin

definition holds :: "'s \<Rightarrow> ('k \<rightharpoonup> 'i) \<Rightarrow> bool" where
  "holds s M \<longleftrightarrow> inv s \<and> (\<forall>k x. M k = Some x \<longleftrightarrow> x \<in> contents s \<and> key x = k)"

lemma holds_look: "holds s M \<Longrightarrow> look k s = Some (M k)"
  using look[of s k] unfolding holds_def by (metis option.exhaust)

lemma step_refines:
  assumes "holds s M" "puts_valid valid op"
  shows "\<exists>s'. store_step ins del op s = Some s' \<and> holds s' (spec_step key op M)"
proof (cases op)
  case (Put x)
  have free: "(\<forall>y \<in> contents s. key y \<noteq> key x) \<longleftrightarrow> M (key x) = None"
    using assms(1) unfolding holds_def by (metis not_None_eq)
  show ?thesis
  proof (cases "M (key x)")
    case None
    with free ins[of s x] assms Put show ?thesis by (auto simp: holds_def)
  next
    case (Some z)
    then have "spec_step key op M = M" using Put by simp
    moreover have "\<not> (\<forall>y \<in> contents s. key y \<noteq> key x)" using Some free by simp
    ultimately show ?thesis using ins[of s x] assms Put by (auto simp: holds_def simp del: spec_step.simps)
  qed
next
  case (Drop k)
  with del[of s k] assms(1) show ?thesis by (auto simp: holds_def)
qed

lemma run_refines:
  "list_all (puts_valid valid) ops \<Longrightarrow> holds s M \<Longrightarrow>
     \<exists>s'. foldM (store_step ins del) ops s = Some s' \<and> holds s' (fold (spec_step key) ops M)"
proof (induction ops arbitrary: s M)
  case (Cons op ops)
  then show ?case using step_refines[of s M op] by fastforce
qed simp

lemma holds_empty: "holds mt Map.empty"
  by (simp add: holds_def mt)

lemma holds_contents: "holds s M \<Longrightarrow> contents s = ran M"
  unfolding holds_def ran_def by auto

end

section \<open>The hash tree is a keyed store\<close>

definition sha_editable :: "SHAMapNodeType \<Rightarrow> SHAMap \<Rightarrow> bool" where
  "sha_editable ty m \<longleftrightarrow> sha_ok ty m \<and> mstate m = Modifying"

lemma newSHAMap_editable: "sha_editable ty newSHAMap" "map_items newSHAMap = {}"
  using wf_emptyInner[of 0 ty]
  by (auto simp: sha_editable_def sha_ok_def newSHAMap_def emptyInner_def map_items_def)

interpretation sha: keyed_store newSHAMap "addGiveItem ty" delItem peekItem item_key "leaf_ok ty" "sha_editable ty" map_items
  for ty :: SHAMapNodeType
proof unfold_locales
  show "sha_editable ty newSHAMap" "map_items newSHAMap = {}" by (rule newSHAMap_editable)+
  fix s :: SHAMap
  assume s: "sha_editable ty s"
  show "\<exists>r. peekItem k s = Some r \<and> (\<forall>x. r = Some x \<longleftrightarrow> x \<in> map_items s \<and> item_key x = k)" for k
    using s findKey_spec[of ty s k] by (simp add: sha_editable_def peekItem_def)
  show "\<exists>s'. addGiveItem ty x s = Some (\<forall>y \<in> map_items s. item_key y \<noteq> item_key x, s') \<and> sha_editable ty s'
      \<and> map_items s' = (if \<forall>y \<in> map_items s. item_key y \<noteq> item_key x then insert x (map_items s) else map_items s)"
    if "leaf_ok ty x" for x
    using s that addGiveItem_spec[of ty s x] by (simp add: sha_editable_def)
  show "\<exists>s'. delItem k s = Some (\<exists>x \<in> map_items s. item_key x = k, s') \<and> sha_editable ty s'
      \<and> map_items s' = {x \<in> map_items s. item_key x \<noteq> k}" for k
    using s delItem_spec[of ty s k] by (simp add: sha_editable_def)
qed

abbreviation sha_edit :: "SHAMapNodeType \<Rightarrow> (SHAMapItem, uint256) store_op list \<Rightarrow> SHAMap option" where
  "sha_edit ty ops \<equiv> foldM (store_step (addGiveItem ty) delItem) ops newSHAMap"

abbreviation spec_edit :: "(SHAMapItem, uint256) store_op list \<Rightarrow> (uint256 \<rightharpoonup> SHAMapItem)" where
  "spec_edit ops \<equiv> fold (spec_step item_key) ops Map.empty"

text \<open>
  (C10) A hash tree is a map. Any sequence of insertions of leaves that are large enough to store
  and of deletions runs without an exception on a new SHAMap, and afterwards looking up a key gives
  what the same sequence leaves under that key in a finite map.
\<close>

theorem sha_map_refines_map:
  assumes "list_all (puts_valid (leaf_ok ty)) ops"
  shows "\<exists>m. sha_edit ty ops = Some m \<and> (\<forall>k. peekItem k m = Some (spec_edit ops k))"
  using sha.run_refines[OF assms sha.holds_empty] sha.holds_look by blast

theorem sha_map_refines_map_witness:
  "\<exists>m. sha_edit tnTRANSACTION_NM
      [Put \<lparr>item_key = 5, item_data = replicate 12 1\<rparr>, Put \<lparr>item_key = 7, item_data = replicate 13 2\<rparr>, Drop 5] = Some m
    \<and> peekItem 7 m = Some (Some \<lparr>item_key = 7, item_data = replicate 13 2\<rparr>) \<and> peekItem 5 m = Some None"
proof -
  let ?x = "\<lparr>item_key = 5, item_data = replicate 12 1\<rparr>" and ?y = "\<lparr>item_key = 7, item_data = replicate 13 2\<rparr>"
  have "list_all (puts_valid (leaf_ok tnTRANSACTION_NM)) [Put ?x, Put ?y, Drop 5]" by (simp add: leaf_ok_def)
  moreover have "spec_edit [Put ?x, Put ?y, Drop 5] 7 = Some ?y" "spec_edit [Put ?x, Put ?y, Drop 5] 5 = None"
    by simp_all
  ultimately show ?thesis using sha_map_refines_map[of tnTRANSACTION_NM "[Put ?x, Put ?y, Drop 5]"] by metis
qed

text \<open>
  (C11) The hash of a SHAMap depends on its content only. Two sequences of insertions and deletions
  that leave the same items build the same tree, and so the same hash whatever the hash function.
\<close>

theorem sha_map_history_independent:
  assumes "list_all (puts_valid (leaf_ok ty)) ops" "list_all (puts_valid (leaf_ok ty)) ops'"
    and "spec_edit ops = spec_edit ops'"
  shows "\<exists>m m'. sha_edit ty ops = Some m \<and> sha_edit ty ops' = Some m' \<and> root m = root m'
    \<and> getHash sha512Half m = getHash sha512Half m'"
proof -
  obtain m where m: "sha_edit ty ops = Some m" "sha.holds ty m (spec_edit ops)"
    using sha.run_refines[OF assms(1) sha.holds_empty] by blast
  obtain m' where m': "sha_edit ty ops' = Some m'" "sha.holds ty m' (spec_edit ops')"
    using sha.run_refines[OF assms(2) sha.holds_empty] by blast
  have "map_items m = map_items m'" using sha.holds_contents m(2) m'(2) assms(3) by metis
  then have "root m = root m'" using m(2) m'(2)
    by (intro wf_unique[of ty 0]) (auto simp: sha.holds_def sha_editable_def sha_ok_def map_items_def)
  with m(1) m'(1) show ?thesis by (simp add: getHash_def)
qed

theorem sha_map_history_independent_witness:
  "\<exists>m m'. sha_edit tnTRANSACTION_NM
        [Put \<lparr>item_key = 5, item_data = replicate 12 1\<rparr>, Put \<lparr>item_key = 7, item_data = replicate 12 2\<rparr>, Drop 5] = Some m
    \<and> sha_edit tnTRANSACTION_NM [Put \<lparr>item_key = 7, item_data = replicate 12 2\<rparr>] = Some m'
    \<and> getHash (\<lambda>bs. of_nat (length bs)) m = getHash (\<lambda>bs. of_nat (length bs)) m'"
proof -
  let ?x = "\<lparr>item_key = 5, item_data = replicate 12 1\<rparr>" and ?y = "\<lparr>item_key = 7, item_data = replicate 12 2\<rparr>"
  have e: "spec_edit [Put ?x, Put ?y, Drop 5] = spec_edit [Put ?y]" by (rule ext) simp
  have v: "list_all (puts_valid (leaf_ok tnTRANSACTION_NM)) [Put ?x, Put ?y, Drop 5]"
    "list_all (puts_valid (leaf_ok tnTRANSACTION_NM)) [Put ?y]"
    by (simp_all add: leaf_ok_def)
  from sha_map_history_independent[OF v e, of "\<lambda>bs. of_nat (length bs)"] show ?thesis
    by (elim exE conjE) (intro exI conjI)
qed

section \<open>A sample map\<close>

text \<open>
  A map with one transaction, on which the properties are exercised. The hash of a sequence of
  bytes is its length, which separates the few trees that occur.
\<close>

definition lenHash :: "8 word list \<Rightarrow> uint256" where
  "lenHash bs = of_nat (length bs)"

definition sampleTx :: SHAMapItem where
  "sampleTx = \<lparr>item_key = 0, item_data = replicate 12 0\<rparr>"

definition sampleSet :: SHAMap where
  "sampleSet = \<lparr>root = Inner (Some (Leaf tnTRANSACTION_NM sampleTx) # replicate 15 None), mstate = Immutable\<rparr>"

lemma length_bytesOf [simp]: "length (bytesOf n w) = n"
  by (simp add: bytesOf_def)

lemma length_concat_const: "(\<And>x. length (f x) = n) \<Longrightarrow> length (concat (map f xs)) = length xs * n"
  by (induction xs) auto

lemma sampleSet_hash: "getHash lenHash sampleSet = 516" "getHash lenHash newSHAMap = 0"
proof -
  have "innerHash lenHash (Some h # replicate 15 None) = 516" for h
    by (simp add: innerHash_def branches_Cons lenHash_def length_concat_const del: map_replicate)
  then show "getHash lenHash sampleSet = 516"
    by (simp add: getHash_def sampleSet_def)
  show "getHash lenHash newSHAMap = 0"
    by (simp add: newSHAMap_def getHash_def nodeHash_emptyInner)
qed

lemma sampleTx_key [simp]: "item_key sampleTx = 0"
  by (simp add: sampleTx_def)

lemma sampleSet_items: "map_items sampleSet = {sampleTx}" "map_items newSHAMap = {}"
  by (auto simp: map_items_def sampleSet_def newSHAMap_def emptyInner_def items.simps)

lemma nibble_zero [simp]: "nibble d 0 = 0"
  by (simp add: nibble_def nibbleWord_def)

lemma sampleSet_ok: "sha_ok tnTRANSACTION_NM sampleSet" "mstate sampleSet = Immutable"
proof -
  have "child_at (Some x # replicate 15 None) i = Some c \<Longrightarrow> i = 0 \<and> c = x" for x c :: SHAMapTreeNode and i
    by (cases i) (simp_all add: child_at_def nth_replicate split: if_splits)
  note this[dest!]
  have "wf_node tnTRANSACTION_NM 0 (root sampleSet)" unfolding sampleSet_def SHAMap.select_convs
    by (intro wf_Inner) (auto simp: sampleTx_def intro!: wf_Leaf)
  then show "sha_ok tnTRANSACTION_NM sampleSet" by (simp add: sha_ok_def sampleSet_def)
  show "mstate sampleSet = Immutable" by (simp add: sampleSet_def)
qed

lemma sample_compareMaps: "compareMaps lenHash newSHAMap sampleSet 65536 = Some (True, [(0, None, Some sampleTx)])"
proof -
  have "leafHash lenHash tnTRANSACTION_NM sampleTx = 16"
    by (simp add: leafHash_def lenHash_def bytesOf_def sampleTx_def)
  then have h: "leafHash lenHash tnTRANSACTION_NM sampleTx \<noteq> 0" by simp
  have r: "replicate 16 x = x # replicate 15 x" "replicate 15 x = [x, x, x, x, x, x, x, x, x, x, x, x, x, x, x]" for x :: 'a
    by (simp_all add: numeral_eq_Suc)
  from h show ?thesis by (simp add: compareMaps_def sampleSet_hash)
    (simp add: newSHAMap_def sampleSet_def emptyInner_def branchFactor_def r getChildHash_def
      walkBranch_def recordDifference_def delta_insert_def inOrder_def)
qed

section \<open>Comparison\<close>

lemma peekItem_item_of:
  assumes "sha_ok ty m"
  shows "item_of (map_items m) k r \<longleftrightarrow> peekItem k m = Some r"
proof -
  from findKey_spec[OF assms, of k] obtain q where q: "findKey k m = Some q"
    "\<forall>x. q = Some x \<longleftrightarrow> x \<in> map_items m \<and> item_key x = k" by (elim exE conjE)
  have "item_of (map_items m) k r \<longleftrightarrow> (\<forall>x. r = Some x \<longleftrightarrow> q = Some x)"
    unfolding item_of_def using q(2) by simp
  also have "\<dots> \<longleftrightarrow> r = q" by (cases r; cases q) auto
  finally show ?thesis using q(1) by (auto simp: peekItem_def)
qed



end
