(* ===== verification/Rcl_TxSet.thy ===== *)
theory Rcl_TxSet
  imports Engine_Component Sha_Map_Props
begin

text \<open>
  The transaction sets of the consensus engine: \<^verbatim>\<open>src/ripple/app/consensus/RCLCxTx.h\<close>, a thin
  wrapper over a \<open>SHAMap\<close> of transactions. The operations are shown to provide
  \<open>txset_interface\<close>, so that what is proved of the engine holds of the engine over hash trees.
\<close>

section \<open>The operations\<close>

definition rcl_insert :: "SHAMapItem \<Rightarrow> SHAMap \<Rightarrow> SHAMap option" where
  "rcl_insert t m = map_option snd
     (addGiveItem tnTRANSACTION_NM \<lparr>item_key = item_key t, item_data = item_data t\<rparr> m)"

definition rcl_erase :: "uint256 \<Rightarrow> SHAMap \<Rightarrow> SHAMap option" where
  "rcl_erase entry m = map_option snd (delItem entry m)"

text \<open>
  A lookup that throws (a tree deeper than a key has nibbles) finds nothing; the well-formed trees
  below never throw (\<open>findKey_spec\<close>).
\<close>

definition rcl_find :: "SHAMap \<Rightarrow> uint256 \<Rightarrow> SHAMapItem option" where
  "rcl_find m entry = Option.bind (peekItem entry m) id"

definition rcl_exists :: "SHAMap \<Rightarrow> uint256 \<Rightarrow> bool" where
  "rcl_exists m entry \<longleftrightarrow> hasItem entry m = Some True"

text \<open>The table of differences is in key order, so that the result is again an ordered map.\<close>

definition rcl_compare ::
  "(8 word list \<Rightarrow> uint256) \<Rightarrow> SHAMap \<Rightarrow> SHAMap \<Rightarrow> (uint256 \<times> bool) list option" where
  "rcl_compare sha512Half m j = do {
     (_, delta) \<leftarrow> compareMaps sha512Half m j 65536;
     assertThat (list_all (\<lambda>(k, a, b). (a \<noteq> None \<and> b = None) \<or> (b \<noteq> None \<and> a = None)) delta);
     Some (map (\<lambda>(k, a, b). (k, a \<noteq> None)) delta)
   }"

definition rclOps :: "(8 word list \<Rightarrow> uint256) \<Rightarrow> SHAMap TxSetOps" where
  "rclOps sha512Half = \<lparr>
     ts_id = getHash sha512Half, ts_exists = rcl_exists, ts_find = rcl_find,
     ts_compare = rcl_compare sha512Half, ts_mutable = snapShot True, ts_insert = rcl_insert,
     ts_erase = rcl_erase, ts_fixed = snapShot False\<rparr>"

section \<open>The sets of a run\<close>

text \<open>
  \<open>txn\<close> gives the content of every transaction in play by its identifier: no two of them have the
  same identifier. A set of these transactions is a well-formed tree of them.
\<close>

definition rcl_item :: "(uint256 \<rightharpoonup> 8 word list) \<Rightarrow> SHAMapItem \<Rightarrow> bool" where
  "rcl_item txn x \<longleftrightarrow> txn (item_key x) = Some (item_data x) \<and> 12 \<le> length (item_data x)"

definition rcl_ok :: "(uint256 \<rightharpoonup> 8 word list) \<Rightarrow> SHAMap \<Rightarrow> bool" where
  "rcl_ok txn m \<longleftrightarrow> sha_ok tnTRANSACTION_NM m \<and> mstate m \<noteq> Invalid \<and> (\<forall>x \<in> map_items m. rcl_item txn x)"

definition rcl_mutable_ok :: "(uint256 \<rightharpoonup> 8 word list) \<Rightarrow> SHAMap \<Rightarrow> bool" where
  "rcl_mutable_ok txn m \<longleftrightarrow> rcl_ok txn m \<and> mstate m = Modifying"

lemma rcl_item_unique: "rcl_item txn x \<Longrightarrow> rcl_item txn y \<Longrightarrow> item_key x = item_key y \<Longrightarrow> x = y"
  by (cases x; cases y) (simp add: rcl_item_def)

lemma rcl_find_iff: "rcl_ok txn m \<Longrightarrow> rcl_find m k = Some x \<longleftrightarrow> x \<in> map_items m \<and> item_key x = k"
  using findKey_spec[of tnTRANSACTION_NM m k] by (auto simp: rcl_ok_def rcl_find_def peekItem_def)

lemma rcl_exists_iff: "rcl_ok txn m \<Longrightarrow> rcl_exists m k \<longleftrightarrow> (\<exists>x \<in> map_items m. item_key x = k)"
  using findKey_spec[of tnTRANSACTION_NM m k] by (force simp: rcl_ok_def rcl_exists_def hasItem_def)

lemma snapShot_simps [simp]:
  "map_items (snapShot b m) = map_items m" "sha_ok ty (snapShot b m) = sha_ok ty m"
  "mstate (snapShot b m) = (if b then Modifying else Immutable)"
  by (simp_all add: snapShot_def map_items_def sha_ok_def)

lemma rcl_ok_snapShot [simp]: "rcl_ok txn m \<Longrightarrow> rcl_ok txn (snapShot b m)"
  by (simp add: rcl_ok_def)

lemma rcl_insert_spec:
  assumes "rcl_mutable_ok txn m" "rcl_item txn x"
  shows "\<exists>m'. rcl_insert x m = Some m' \<and> rcl_mutable_ok txn m' \<and> map_items m' = insert x (map_items m)"
proof -
  have "leaf_ok tnTRANSACTION_NM x" using assms(2) by (simp add: leaf_ok_def rcl_item_def)
  moreover have "insert x (map_items m) = map_items m" if "y \<in> map_items m" "item_key y = item_key x" for y
    using that rcl_item_unique[OF assms(2), of y] assms(1)
    by (auto simp: rcl_mutable_ok_def rcl_ok_def)
  ultimately show ?thesis using assms addGiveItem_spec[of tnTRANSACTION_NM m x]
    by (cases x) (fastforce simp: rcl_insert_def rcl_mutable_ok_def rcl_ok_def split: if_splits)
qed

lemma rcl_erase_spec:
  assumes "rcl_mutable_ok txn m"
  shows "\<exists>m'. rcl_erase k m = Some m' \<and> rcl_mutable_ok txn m' \<and> map_items m' = {x \<in> map_items m. item_key x \<noteq> k}"
  using assms delItem_spec[of tnTRANSACTION_NM m k]
  by (fastforce simp: rcl_erase_def rcl_mutable_ok_def rcl_ok_def)

lemma rcl_diff_one_sided:
  assumes "rcl_ok txn m" "rcl_ok txn j"
  shows "(k, a, b) \<in> item_diff (map_items m) (map_items j) \<Longrightarrow> (a \<noteq> None) \<noteq> (b \<noteq> None)
      \<and> (rcl_exists m k \<longleftrightarrow> a \<noteq> None) \<and> (rcl_exists j k \<longleftrightarrow> a = None)"
    and "rcl_exists m k \<noteq> rcl_exists j k \<Longrightarrow> \<exists>a b. (k, a, b) \<in> item_diff (map_items m) (map_items j)"
proof -
  have of_iff: "item_of (map_items n) k c \<longleftrightarrow> c = rcl_find n k" if "rcl_ok txn n" for n c
    using rcl_find_iff[OF that, of k] by (cases c; cases "rcl_find n k") (auto simp: item_of_def)
  have ex: "rcl_exists n k \<longleftrightarrow> rcl_find n k \<noteq> None" if "rcl_ok txn n" for n
    using rcl_find_iff[OF that, of k] rcl_exists_iff[OF that, of k] by (cases "rcl_find n k") auto
  have "rcl_find m k = rcl_find j k" if "rcl_find m k \<noteq> None" "rcl_find j k \<noteq> None"
  proof -
    from that obtain x y where xy: "rcl_find m k = Some x" "rcl_find j k = Some y" by blast
    with rcl_find_iff[OF assms(1), of k x] rcl_find_iff[OF assms(2), of k y] assms have "x = y"
      by (intro rcl_item_unique) (auto simp: rcl_ok_def)
    with xy show ?thesis by simp
  qed
  note same = this and char = of_iff[OF assms(1)] of_iff[OF assms(2)]
  show "(a \<noteq> None) \<noteq> (b \<noteq> None) \<and> (rcl_exists m k \<longleftrightarrow> a \<noteq> None) \<and> (rcl_exists j k \<longleftrightarrow> a = None)"
    if "(k, a, b) \<in> item_diff (map_items m) (map_items j)"
    using that same unfolding item_diff_def
    by (cases "rcl_find m k"; cases "rcl_find j k") (auto simp: char ex assms)
  show "\<exists>a b. (k, a, b) \<in> item_diff (map_items m) (map_items j)" if "rcl_exists m k \<noteq> rcl_exists j k"
    using that unfolding item_diff_def
    by (cases "rcl_find m k"; cases "rcl_find j k") (auto simp: char ex assms)
qed

lemma rcl_compare_eq:
  assumes ok: "rcl_ok txn m" "rcl_ok txn j"
  shows "\<exists>c D. compareMaps sha m j 65536 = Some (c, D)
    \<and> rcl_compare sha m j = Some (map (\<lambda>(k, a, b). (k, a \<noteq> None)) D)
    \<and> set D \<subseteq> item_diff (map_items m) (map_items j) \<and> length D \<le> 65536 \<and> al_distinct D
    \<and> (c \<longrightarrow> collision_free sha tnTRANSACTION_NM (map_items m \<union> map_items j) \<longrightarrow>
         set D = item_diff (map_items m) (map_items j))
    \<and> (\<not> c \<longrightarrow> length D = 65536)"
proof -
  from compareMaps_spec[of tnTRANSACTION_NM m j sha 65536] ok obtain c D where
    D: "compareMaps sha m j 65536 = Some (c, D)" "om_sorted D" "set D \<subseteq> item_diff (map_items m) (map_items j)"
      "length D \<le> 65536"
      "c \<longrightarrow> collision_free sha tnTRANSACTION_NM (map_items m \<union> map_items j) \<longrightarrow>
         set D = item_diff (map_items m) (map_items j)"
      "\<not> c \<longrightarrow> length D = 65536"
    by (auto simp: rcl_ok_def)
  have "list_all (\<lambda>(k, a, b). (a \<noteq> None \<and> b = None) \<or> (b \<noteq> None \<and> a = None)) D"
    using D(3) rcl_diff_one_sided(1)[OF ok] unfolding list_all_iff by fastforce
  then have "rcl_compare sha m j = Some (map (\<lambda>(k, a, b). (k, a \<noteq> None)) D)"
    using D(1) by (simp add: rcl_compare_def)
  with D om_sorted_distinct[OF D(2)] show ?thesis by blast
qed

section \<open>RCLTxSet provides the interface\<close>

interpretation rcl: txset_interface "rclOps sha512Half" "rcl_ok txn" "rcl_mutable_ok txn" "rcl_item txn"
  for sha512Half :: "8 word list \<Rightarrow> uint256" and txn :: "uint256 \<rightharpoonup> 8 word list"
proof unfold_locales
  fix t :: SHAMap and k x
  assume t: "rcl_ok txn t"
  show "ts_find (rclOps sha512Half) t k = Some x \<Longrightarrow> item_key x = k \<and> rcl_item txn x"
    using t rcl_find_iff[OF t] by (auto simp: rclOps_def rcl_ok_def)
  show "ts_exists (rclOps sha512Half) t k \<longleftrightarrow> ts_find (rclOps sha512Half) t k \<noteq> None"
    using rcl_find_iff[OF t, of k] rcl_exists_iff[OF t, of k]
    by (cases "rcl_find t k") (auto simp: rclOps_def)
  show "rcl_mutable_ok txn (ts_mutable (rclOps sha512Half) t) \<and>
      ts_exists (rclOps sha512Half) (ts_mutable (rclOps sha512Half) t) = ts_exists (rclOps sha512Half) t"
    using t rcl_exists_iff[of txn "snapShot True t"] rcl_exists_iff[OF t]
    by (auto simp: rclOps_def rcl_mutable_ok_def)
next
  fix a b :: SHAMap
  assume ok: "rcl_ok txn a" "rcl_ok txn b"
  show "\<exists>dl. ts_compare (rclOps sha512Half) a b = Some dl \<and>
      (\<forall>k f. (k, f) \<in> set dl \<longrightarrow>
        ts_exists (rclOps sha512Half) a k = f \<and> ts_exists (rclOps sha512Half) b k = (\<not> f))"
    using rcl_compare_eq[OF ok, of sha512Half] rcl_diff_one_sided(1)[OF ok] by (fastforce simp: rclOps_def)
next
  fix t :: SHAMap and x
  assume ok: "rcl_mutable_ok txn t" "rcl_item txn x"
  from rcl_insert_spec[OF ok] obtain m' where
    m': "rcl_insert x t = Some m'" "rcl_mutable_ok txn m'" "map_items m' = insert x (map_items t)" by blast
  with ok show "\<exists>t'. ts_insert (rclOps sha512Half) x t = Some t' \<and> rcl_mutable_ok txn t' \<and>
      (\<forall>k. ts_exists (rclOps sha512Half) t' k \<longleftrightarrow> k = item_key x \<or> ts_exists (rclOps sha512Half) t k)"
    using rcl_exists_iff[of txn m'] rcl_exists_iff[of txn t] by (auto simp: rclOps_def rcl_mutable_ok_def)
next
  fix t :: SHAMap and i
  assume ok: "rcl_mutable_ok txn t"
  from rcl_erase_spec[OF ok] obtain m' where
    m': "rcl_erase i t = Some m'" "rcl_mutable_ok txn m'" "map_items m' = {x \<in> map_items t. item_key x \<noteq> i}" by blast
  with ok show "\<exists>t'. ts_erase (rclOps sha512Half) i t = Some t' \<and> rcl_mutable_ok txn t' \<and>
      (\<forall>k. ts_exists (rclOps sha512Half) t' k \<longleftrightarrow> k \<noteq> i \<and> ts_exists (rclOps sha512Half) t k)"
    using rcl_exists_iff[of txn m'] rcl_exists_iff[of txn t] by (auto simp: rclOps_def rcl_mutable_ok_def)
next
  fix t :: SHAMap
  assume ok: "rcl_mutable_ok txn t"
  then show "rcl_ok txn (ts_fixed (rclOps sha512Half) t) \<and>
      ts_exists (rclOps sha512Half) (ts_fixed (rclOps sha512Half) t) = ts_exists (rclOps sha512Half) t"
    using rcl_exists_iff[of txn "snapShot False t"] rcl_exists_iff[of txn t]
    by (auto simp: rclOps_def rcl_mutable_ok_def)
qed

text \<open>
  With fewer transactions in play than the limit of a comparison and no hash collisions among the
  trees over them, comparisons are exact.
\<close>

lemma rcl_exact:
  assumes fin: "finite (dom txn)" "card (dom txn) < 65536"
    and cf: "collision_free sha tnTRANSACTION_NM {x. rcl_item txn x}"
  shows "txset_exact (rclOps sha) (rcl_ok txn)"
proof -
  have "k \<in> al_keys dl"
    if ok: "rcl_ok txn a" "rcl_ok txn b" and ne: "rcl_exists a k \<noteq> rcl_exists b k" and dl: "rcl_compare sha a b = Some dl"
    for a b k dl
  proof -
    have sub: "map_items a \<union> map_items b \<subseteq> {x. rcl_item txn x}" using ok by (auto simp: rcl_ok_def)
    from rcl_compare_eq[OF ok, of sha] dl obtain c D where
      D: "dl = map (\<lambda>(k, a, b). (k, a \<noteq> None)) D" "set D \<subseteq> item_diff (map_items a) (map_items b)" "al_distinct D"
        "c \<longrightarrow> set D = item_diff (map_items a) (map_items b)" "\<not> c \<longrightarrow> length D = 65536"
      using collision_free_subset[OF cf sub] by auto
    have "i \<in> dom txn" if "(i, p) \<in> set D" for i p
    proof -
      from that D(2) item_diff_key obtain x where "x \<in> map_items a \<union> map_items b" "item_key x = i" by blast
      with sub have "rcl_item txn x" by blast
      with \<open>item_key x = i\<close> show ?thesis by (auto simp: rcl_item_def)
    qed
    then have "al_keys D \<subseteq> dom txn" by (intro image_subsetI) (metis prod.collapse)
    then have "card (al_keys D) \<le> card (dom txn)" using fin(1) by (rule card_mono[rotated])
    then have "length D \<le> card (dom txn)" using distinct_card[OF D(3)] by simp
    with D(4,5) fin(2) have "set D = item_diff (map_items a) (map_items b)" by auto
    with rcl_diff_one_sided(2)[OF ok ne] obtain p where "(k, p) \<in> set D" by blast
    then show ?thesis unfolding D(1) by (force simp: case_prod_unfold)
  qed
  moreover have "rcl_exists a = rcl_exists b"
    if "rcl_ok txn a" "rcl_ok txn b" "getHash sha a = getHash sha b" for a b
  proof -
    have "root a = root b"
    proof (rule collision_free_eq[OF cf])
      show "wf_node tnTRANSACTION_NM 0 (root a)" "wf_node tnTRANSACTION_NM 0 (root b)"
        using that(1,2) by (simp_all add: rcl_ok_def sha_ok_def)
      show "items (root a) \<union> items (root b) \<subseteq> {x. rcl_item txn x}"
        using that(1,2) by (auto simp: rcl_ok_def map_items_def)
      show "nodeHash sha (root a) = nodeHash sha (root b)" using that(3) by (simp add: getHash_def)
    qed
    then show ?thesis using rcl_exists_iff[OF that(1)] rcl_exists_iff[OF that(2)]
      by (simp add: map_items_def fun_eq_iff)
  qed
  ultimately show ?thesis unfolding txset_exact_def rclOps_def TxSetOps.select_convs by blast
qed

end
