(* ===== verification/Engine_Sample.thy ===== *)
theory Engine_Sample
  imports Rcl_TxSet
begin

text \<open>
  A network of one peer and one transaction, on which the properties of the engine are exercised.
  The hash of a sequence of bytes is its length, which separates the few trees that occur.
\<close>

definition sampleTxn :: "uint256 \<rightharpoonup> 8 word list" where
  "sampleTxn = [0 \<mapsto> replicate 12 0]"

definition samplePosition :: "NodeID \<Rightarrow> uint256 \<Rightarrow> ConsensusProposal" where
  "samplePosition n i = \<lparr>previousLedger = 7, position = i, closeTime = 100, seenTime = 100, proposeSeq = 0, nodeID = n\<rparr>"

definition sampleLedger :: CxLedger where
  "sampleLedger = \<lparr>l_id = 7, l_seq = 3, l_closeTime = 90, l_closeTimeResolution = 30, l_closeAgree = True, l_parentCloseTime = 80\<rparr>"

definition sampleAdaptor :: "SHAMap Adaptor" where
  "sampleAdaptor = \<lparr>
     a_parms = defaultParms, a_clockNow = 0, a_acquireLedger = (\<lambda>_. None),
     a_acquireTxSet = (\<lambda>i. if i = 516 then Some sampleSet else None),
     a_hasOpenTransactions = True, a_proposersValidated = (\<lambda>_. 0), a_proposersFinished = (\<lambda>_ _. 0),
     a_getPrevLedger = (\<lambda>i _ _. i), a_onClose = (\<lambda>_ _ _. (newSHAMap, samplePosition 0 0)),
     a_getValidLedgerIndex = 3, a_getQuorumKeys = (1, []), a_laggards = (\<lambda>_ ks. (0, ks)),
     a_validator = True, a_haveValidated = True\<rparr>"

definition sampleEvents :: "SHAMap event list" where
  "sampleEvents = [StartRound sampleAdaptor 100 7 sampleLedger {} True,
     PeerProposal sampleAdaptor 101 (samplePosition 4 516), Simulate sampleAdaptor 102 None]"

lemma sample_ok: "rcl_ok sampleTxn sampleSet" "rcl_ok sampleTxn newSHAMap"
  using sampleSet_ok newSHAMap_editable(1)[of tnTRANSACTION_NM]
  by (auto simp: rcl_ok_def sha_editable_def sampleSet_items rcl_item_def sampleTxn_def sampleTx_def)

lemma sample_find:
  "rcl_find newSHAMap 0 = None" "rcl_find sampleSet 0 = Some sampleTx"
  "\<not> rcl_exists newSHAMap 0" "rcl_exists sampleSet 0"
  using rcl_find_iff[OF sample_ok(2), of 0] rcl_find_iff[OF sample_ok(1), of 0 sampleTx]
    rcl_exists_iff[OF sample_ok(2), of 0] rcl_exists_iff[OF sample_ok(1), of 0]
  by (auto simp: sampleSet_items)

lemma sample_compare: "rcl_compare lenHash newSHAMap sampleSet = Some [(0, False)]"
  by (simp add: rcl_compare_def sample_compareMaps)

lemma rclOps_simps:
  "ts_id (rclOps sha) = getHash sha" "ts_exists (rclOps sha) = rcl_exists" "ts_find (rclOps sha) = rcl_find"
  "ts_compare (rclOps sha) = rcl_compare sha"
  by (simp_all add: rclOps_def)

lemma sampleAdaptor_simps:
  "a_parms sampleAdaptor = defaultParms" "a_clockNow sampleAdaptor = 0" "a_acquireLedger sampleAdaptor = (\<lambda>_. None)"
  "a_acquireTxSet sampleAdaptor i = (if i = 516 then Some sampleSet else None)"
  "a_getPrevLedger sampleAdaptor i l m = i" "a_onClose sampleAdaptor l t m = (newSHAMap, samplePosition 0 0)"
  by (simp_all add: sampleAdaptor_def)

lemma sample_allowed:
  "adaptor_ok (rclOps lenHash) (rcl_ok sampleTxn) sampleAdaptor" "adaptor_settles sampleAdaptor"
  by (auto simp: adaptor_ok_def adaptor_settles_def settled_def sampleAdaptor_simps rclOps_simps sampleSet_hash
      sample_ok samplePosition_def defaultParms_def split: if_splits)

lemmas sample_round = sampleEvents_def newConsensus_def startRound_def sampleLedger_def sampleAdaptor_simps
  startRoundInternal.simps(2)[of 1, unfolded Suc_1]
  resetRound_def setMode_def emit_def playbackProposals_def peerProposal_def peerProposalInternal_def
  samplePosition_def isBowOut_def seqLeave_def isInitial_def seqJoin_def gotTxSet_def rclOps_simps sampleSet_hash

lemma sample_guarded:
  "guarded (engine_step (rclOps lenHash)) (engine_allowed (rclOps lenHash) (rcl_ok sampleTxn)) sampleEvents
     (newConsensus sampleLedger)"
  by (simp add: sample_round sample_allowed Let_def split: option.split)

lemma sample_run:
  "\<exists>s r. foldM (engine_step (rclOps lenHash)) sampleEvents (newConsensus sampleLedger) = Some s
    \<and> currPeerPositions s = [(4, samplePosition 4 516)] \<and> acquired s 516 = Some sampleSet \<and> result s = Some r
    \<and> disputes r = [(0, \<lparr>yays = 1, nays = 0, ourVote = False, dtx = sampleTx, votes = [(4, True)]\<rparr>)]"
  by (simp add: sample_round simulate_def closeLedger_def newResult_def setResult_def createDisputes_def
      createDispute_def sample_compare sample_find voteOfPeers_def setVote_def newDispute_def al_emplace_def Let_def)

lemma sample_nodes:
  assumes "wf_node tnTRANSACTION_NM d n" "items n \<subseteq> {sampleTx}"
  shows "n = Leaf tnTRANSACTION_NM sampleTx \<or> n = emptyInner \<or> n = root sampleSet"
proof (cases n)
  case (Leaf ty x)
  with assms show ?thesis by (auto simp: wf_Leaf_iff)
next
  case (Inner cs)
  with assms(1) have wf: "wf_node tnTRANSACTION_NM d (Inner cs)" and len: "length cs = 16"
    by (auto simp: wf_Inner_iff)
  have child: "i = 0 \<and> c = Leaf tnTRANSACTION_NM sampleTx" if c: "child_at cs i = Some c" for i c
  proof -
    have sub: "items c \<subseteq> {sampleTx}" using c assms(2) oitems_subset[of cs i] Inner by simp
    with wf_child(1,2)[OF wf c] have "c = Leaf tnTRANSACTION_NM sampleTx"
      by (cases c) (auto simp: wf_Leaf_iff merged_def)
    with wf_child(3)[OF wf c, of sampleTx] show ?thesis by simp
  qed
  have rest: "cs ! i = None" if "0 < i" "i < 16" for i
    using child[of i] that len by (cases "cs ! i") (auto simp: child_at_nth)
  have "cs ! 0 = None \<or> cs ! 0 = Some (Leaf tnTRANSACTION_NM sampleTx)"
    using child[of 0] len by (cases "cs ! 0") (auto simp: child_at_nth)
  then have "cs = replicate 16 None \<or> cs = Some (Leaf tnTRANSACTION_NM sampleTx) # replicate 15 None"
  proof
    assume "cs ! 0 = None"
    then have "cs = replicate 16 None" using rest len by (intro nth_equalityI) (auto, metis gr0I)
    then show ?thesis ..
  next
    assume "cs ! 0 = Some (Leaf tnTRANSACTION_NM sampleTx)"
    then have "cs = Some (Leaf tnTRANSACTION_NM sampleTx) # replicate 15 None"
      using rest len by (intro nth_equalityI) (auto simp: nth_Cons split: nat.split)
    then show ?thesis ..
  qed
  with Inner show ?thesis by (auto simp: emptyInner_def branchFactor_def sampleSet_def)
qed

lemma sample_items: "{x. rcl_item sampleTxn x} = {sampleTx}"
proof -
  have "x = sampleTx" if "item_key x = 0" "item_data x = replicate 12 0" for x
    using that by (cases x) (simp add: sampleTx_def)
  then show ?thesis by (auto simp: rcl_item_def sampleTxn_def sampleTx_def split: if_splits)
qed

lemma sample_collision_free: "collision_free lenHash tnTRANSACTION_NM {x. rcl_item sampleTxn x}"
proof -
  have "nodeHash lenHash (Leaf tnTRANSACTION_NM sampleTx) = 16"
    by (simp add: leafHash_def lenHash_def sampleTx_def)
  moreover have "nodeHash lenHash (root sampleSet) = 516" using sampleSet_hash(1) by (simp add: getHash_def)
  moreover note nodeHash_emptyInner[of lenHash]
  ultimately show ?thesis unfolding collision_free_def sample_items
    by (intro allI impI) (auto dest!: sample_nodes)
qed

section \<open>A round that is accepted\<close>

text \<open>A round without peers: the ledger closes on the timer and consensus is reached.\<close>

definition sampleClose :: "SHAMap event list" where
  "sampleClose = [StartRound sampleAdaptor 100 7 sampleLedger {} True,
     TimerEntry (sampleAdaptor\<lparr>a_clockNow := 20 * 10 ^ 9\<rparr>) 101]"

lemma adaptor_clock [simp]:
  "adaptor_ok T tok (A\<lparr>a_clockNow := x\<rparr>) = adaptor_ok T tok A" "adaptor_settles (A\<lparr>a_clockNow := x\<rparr>) = adaptor_settles A"
  by (simp_all add: adaptor_ok_def adaptor_settles_def settled_def)

lemma sampleClose_guarded:
  "guarded (engine_step (rclOps lenHash)) (engine_allowed (rclOps lenHash) (rcl_ok sampleTxn)) sampleClose
     (newConsensus sampleLedger)"
  by (simp add: sampleClose_def sample_allowed sampleLedger_def split: option.split)

lemma sample_close:
  "\<exists>s s'. foldM (engine_step (rclOps lenHash)) sampleClose (newConsensus sampleLedger) = Some s \<and> phase s = establish
    \<and> phaseEstablish (rclOps lenHash) (sampleAdaptor\<lparr>a_clockNow := 24 * 10 ^ 9\<rparr>) s = Some s' \<and> phase s' = accepted"
  by (simp add: sample_round sampleClose_def Let_def timerEntry_def timerEntryWith_def checkLedger_def phaseOpen_def
      closeLedger_def newResult_def setResult_def timer_tick_def timer_reset_def timer_read_def shouldCloseLedger_def
      defaultParms_def getNextLedgerTimeResolution_def ledgerPossibleTimeResolutions_def sampleAdaptor_def
      increaseLedgerTimeResolutionEvery_def phaseEstablish_def updateOurPositions_def consensusClose_def
      asCloseTime_def roundCloseTime_def isStale_def shouldPause_def pauseDecision_def haveConsensus_def
      checkConsensus_def checkConsensusReached_def adoptPosition_def changePosition_def)

end
