(* ===== verification/Engine_Properties.thy ===== *)
theory Engine_Properties
  imports Engine_Sample
begin

text \<open>
  The correctness properties of the consensus engine over hash trees of transactions, read off
  the interface and invariant lemmas of \<open>Consensus_Inv\<close> to \<open>Rcl_TxSet\<close>.
\<close>

section \<open>Runs of the engine\<close>

abbreviation rcl_guarded ::
  "(8 word list \<Rightarrow> uint256) \<Rightarrow> (uint256 \<rightharpoonup> 8 word list) \<Rightarrow> SHAMap event list \<Rightarrow> SHAMap Consensus \<Rightarrow> bool" where
  "rcl_guarded sha txn \<equiv> guarded (engine_step (rclOps sha)) (engine_allowed (rclOps sha) (rcl_ok txn))"

abbreviation rcl_run ::
  "(8 word list \<Rightarrow> uint256) \<Rightarrow> SHAMap event list \<Rightarrow> SHAMap Consensus \<Rightarrow> SHAMap Consensus option" where
  "rcl_run sha \<equiv> foldM (engine_step (rclOps sha))"





text \<open>
  (C15) A node that is not proposing stays silent: in any run during which no proposing round is
  started, a node that does not propose at the beginning is not proposing at the end and has sent
  no proposal.
\<close>

theorem not_proposing_silent:
  assumes "rcl_guarded sha txn es (newConsensus ledger)" "list_all not_join es"
    and "rcl_run sha es (newConsensus ledger) = Some s"
  shows "cmode s \<noteq> proposing \<and> (\<forall>a \<in> set (out s). \<forall>p. a \<noteq> Propose p)"
  using rcl.run_not_proposing[OF newConsensus_inv assms]
  by (auto simp: emits_def newConsensus_def)

theorem not_proposing_silent_witness:
  "\<exists>s. rcl_run lenHash (StartRound sampleAdaptor 100 7 sampleLedger {} False # tl sampleEvents) (newConsensus sampleLedger) = Some s
    \<and> cmode s \<noteq> proposing \<and> (\<forall>a \<in> set (out s). \<forall>p. a \<noteq> Propose p)"
proof -
  let ?es = "StartRound sampleAdaptor 100 7 sampleLedger {} False # tl sampleEvents"
  have g: "rcl_guarded lenHash sampleTxn ?es (newConsensus sampleLedger)"
    by (simp add: sample_round sample_allowed Let_def split: option.split)
  from rcl.engine.run_total[OF newConsensus_inv g] obtain s where
    s: "rcl_run lenHash ?es (newConsensus sampleLedger) = Some s" by blast
  have "list_all not_join ?es" by (simp add: sampleEvents_def)
  from not_proposing_silent[OF g this s] s show ?thesis by blast
qed

section \<open>Recursion\<close>

text \<open>A deeper recursion returns what a shallower one returned.\<close>

definition restart_le :: "'ts restart \<Rightarrow> 'ts restart \<Rightarrow> bool" where
  "restart_le f g \<longleftrightarrow> (\<forall>t i l m s s'. f t i l m s = Some s' \<longrightarrow> g t i l m s = Some s')"

lemma handleWrongLedger_mono:
  "restart_le f g \<Longrightarrow> handleWrongLedger f T A i s = Some s' \<Longrightarrow> handleWrongLedger g T A i s = Some s'"
  unfolding handleWrongLedger_def restart_le_def
  by (auto simp: Let_def split: Option.bind_splits if_splits option.splits)

lemma timerEntryWith_mono:
  assumes "restart_le f g" "timerEntryWith f T A t s = Some s'"
  shows "timerEntryWith g T A t s = Some s'"
proof -
  have "checkLedger g T A u = Some u'" if "checkLedger f T A u = Some u'" for u u'
    using that handleWrongLedger_mono[OF assms(1)] by (auto simp: checkLedger_def Let_def split: if_splits)
  with assms(2) show ?thesis
    by (auto simp: timerEntryWith_def split: if_splits Option.bind_splits)
qed

lemma startRoundInternal_mono: "restart_le (startRoundInternal d T A) (startRoundInternal (Suc d) T A)"
proof (induction d)
  case 0
  then show ?case by (simp add: restart_le_def)
next
  case (Suc d)
  show ?case unfolding restart_le_def
  proof (intro allI impI)
    fix t i l m s s'
    assume "startRoundInternal (Suc d) T A t i l m s = Some s'"
    then show "startRoundInternal (Suc (Suc d)) T A t i l m s = Some s'"
      using timerEntryWith_mono[OF Suc]
      unfolding startRoundInternal.simps(2)[of d] startRoundInternal.simps(2)[of "Suc d"]
      by (auto split: Option.bind_splits if_splits)
  qed
qed

lemma startRoundInternal_le: "d \<le> e \<Longrightarrow> restart_le (startRoundInternal d T A) (startRoundInternal e T A)"
proof (induction e rule: dec_induct)
  case base
  then show ?case by (simp add: restart_le_def)
next
  case (step e)
  with startRoundInternal_mono[of e T A] show ?case unfolding restart_le_def by blast
qed

lemma startRound_le:
  assumes "d \<le> e" "startRound d T A t i l u b s = Some s'"
  shows "startRound e T A t i l u b s = Some s'"
  using assms(2) startRoundInternal_le[OF assms(1), of T A] unfolding startRound_def restart_le_def Let_def
  by (simp split: if_split_asm option.splits)

lemma timerEntry_le: "d \<le> e \<Longrightarrow> timerEntry d T A t s = Some s' \<Longrightarrow> timerEntry e T A t s = Some s'"
  unfolding timerEntry_def by (rule timerEntryWith_mono[OF startRoundInternal_le])



section \<open>The end of a round\<close>

text \<open>
  (C3) A round is accepted only on consensus. When the establish phase of a reachable state ends
  in the accepted phase, the round took at least the minimum time, the close time is agreed, the
  verdict of \<open>checkConsensus\<close> on the fresh positions of the peers was not \<open>No\<close>, and the engine handed
  its result to the application as its last action.
\<close>

theorem accept_on_consensus:
  assumes "rcl_guarded sha txn es (newConsensus ledger)" "rcl_run sha es (newConsensus ledger) = Some s"
    and "adaptor_ok (rclOps sha) (rcl_ok txn) A" "phase s = establish"
  shows "\<exists>s'. phaseEstablish (rclOps sha) A s = Some s' \<and> (phase s' = accepted \<longrightarrow> accepts A s s')"
proof -
  from rcl.engine.run_total[OF newConsensus_inv assms(1)] assms(2)
  have "consensus_inv (rclOps sha) (rcl_ok txn) (rcl_item txn) s" by simp
  from rcl.phaseEstablish_step[OF this assms(3,4)] show ?thesis by blast
qed

theorem accept_on_consensus_witness:
  "\<exists>s s'. rcl_run lenHash sampleClose (newConsensus sampleLedger) = Some s
    \<and> phaseEstablish (rclOps lenHash) (sampleAdaptor\<lparr>a_clockNow := 24 * 10 ^ 9\<rparr>) s = Some s'
    \<and> accepts (sampleAdaptor\<lparr>a_clockNow := 24 * 10 ^ 9\<rparr>) s s'"
proof -
  from sample_close obtain s s' where s: "rcl_run lenHash sampleClose (newConsensus sampleLedger) = Some s"
    "phase s = establish" "phaseEstablish (rclOps lenHash) (sampleAdaptor\<lparr>a_clockNow := 24 * 10 ^ 9\<rparr>) s = Some s'"
    "phase s' = accepted" by blast
  have "adaptor_ok (rclOps lenHash) (rcl_ok sampleTxn) (sampleAdaptor\<lparr>a_clockNow := 24 * 10 ^ 9\<rparr>)"
    by (simp add: sample_allowed)
  from accept_on_consensus[OF sampleClose_guarded s(1) this s(2)] s show ?thesis by auto
qed

section \<open>The vote on the close time\<close>

lemma closeTimeStep_fold:
  assumes "fold (closeTimeStep c) vs (t0, v0, h0) = (t, v, h)"
  shows "(\<forall>(t', v') \<in> set vs. v' \<le> v) \<and> v0 \<le> v
    \<and> (h \<longleftrightarrow> h0 \<or> (\<exists>(t', v') \<in> set vs. v0 \<le> v') \<and> c \<le> v)
    \<and> (if \<exists>(t', v') \<in> set vs. v0 \<le> v' then (t, v) \<in> set vs else t = t0 \<and> v = v0)"
  using assms
proof (induction vs arbitrary: t0 v0 h0)
  case (Cons tv vs)
  obtain t1 v1 where tv: "tv = (t1, v1)" by (cases tv)
  show ?case
  proof (cases "v0 \<le> v1")
    case True
    with Cons.prems tv have "fold (closeTimeStep c) vs (t1, v1, h0 \<or> c \<le> v1) = (t, v, h)"
      by (simp add: closeTimeStep_def)
    from Cons.IH[OF this] True tv show ?thesis by (force split: if_splits)
  next
    case False
    with Cons.prems tv have "fold (closeTimeStep c) vs (t0, v0, h0) = (t, v, h)"
      by (simp add: closeTimeStep_def)
    from Cons.IH[OF this] False tv show ?thesis by (auto split: if_splits)
  qed
qed simp

text \<open>
  (C17) The vote on the close time elects a close time with the most votes. When some close time
  has as many votes as the avalanche threshold asks for, the elected one is among those proposed,
  no close time has more votes, and there is close time consensus exactly when its votes reach the
  consensus threshold. Otherwise nothing is elected (time zero) and there is no consensus.
\<close>

theorem closeTimeVote_elects:
  assumes "closeTimeVote parms percent participants vs = (t, have)"
  shows "if \<exists>(t', v') \<in> set vs. participantsNeeded participants (int_of_size (neededWeightPct parms percent)) \<le> v'
    then \<exists>v. (t, v) \<in> set vs \<and> (\<forall>(t', v') \<in> set vs. v' \<le> v)
      \<and> participantsNeeded participants (int_of_size (neededWeightPct parms percent)) \<le> v
      \<and> (have \<longleftrightarrow> participantsNeeded participants (int_of_size (avCT_CONSENSUS_PCT parms)) \<le> v)
    else t = 0 \<and> \<not> have"
proof -
  let ?n = "participantsNeeded participants (int_of_size (neededWeightPct parms percent))"
  let ?c = "participantsNeeded participants (int_of_size (avCT_CONSENSUS_PCT parms))"
  obtain v where "fold (closeTimeStep ?c) vs (0, ?n, False) = (t, v, have)"
    using assms by (auto simp: closeTimeVote_def Let_def split: prod.splits)
  from closeTimeStep_fold[OF this] show ?thesis by (auto split: if_splits)
qed

theorem closeTimeVote_elects_witness:
  "closeTimeVote defaultParms 60 5 [(90, 1), (120, 3), (150, 1)] = (120, False)
   \<and> (\<exists>v. (120, v) \<in> set [(90, 1), (120, 3 :: int), (150 :: NetTime, 1)]
        \<and> (False \<longleftrightarrow> participantsNeeded 5 (int_of_size (avCT_CONSENSUS_PCT defaultParms)) \<le> v))"
proof -
  have c: "closeTimeVote defaultParms 60 5 [(90, 1), (120, 3), (150, 1)] = (120, False)" by code_simp
  have "participantsNeeded 5 (int_of_size (neededWeightPct defaultParms 60)) \<le> 3" by code_simp
  with closeTimeVote_elects[OF c] c show ?thesis by auto
qed

end
