(* ===== verification/Aged_Map.thy ===== *)
theory Aged_Map
  imports Prelude
begin

text \<open>
  Maps whose entries age: \<^verbatim>\<open>src/ripple/beast/container/detail/aged_unordered_container.h\<close> and
  \<^verbatim>\<open>aged_container_utility.h\<close>. The container keeps its entries in a chronological list, the entry
  touched longest ago first; each entry has the time of its last touch. That list is the model. Times
  are readings of the container's clock, in seconds.
\<close>

type_synonym ('k, 'v) aged_map = "('k \<times> int \<times> 'v) list"

definition aged_find :: "'k \<Rightarrow> ('k, 'v) aged_map \<Rightarrow> 'v option" where
  "aged_find k m = map_option snd (map_of m k)"

definition aged_touch :: "int \<Rightarrow> 'k \<Rightarrow> ('k, 'v) aged_map \<Rightarrow> ('k, 'v) aged_map" where
  "aged_touch now k m =
     (case map_of m k of
        None \<Rightarrow> m
      | Some (_, v) \<Rightarrow> AList.delete k m @ [(k, now, v)])"

text \<open>\<open>m[k] = f(m[k])\<close>: \<open>operator[]\<close> creates a missing entry, and does not touch an existing one.\<close>

definition aged_at :: "int \<Rightarrow> 'k \<Rightarrow> 'v \<Rightarrow> ('v \<Rightarrow> 'v) \<Rightarrow> ('k, 'v) aged_map \<Rightarrow> ('k, 'v) aged_map" where
  "aged_at now k d f m =
     (case map_of m k of
        None \<Rightarrow> m @ [(k, now, f d)]
      | Some _ \<Rightarrow> map (\<lambda>(k', w, v). (k', w, if k' = k then f v else v)) m)"

definition aged_expire :: "int \<Rightarrow> int \<Rightarrow> ('k, 'v) aged_map \<Rightarrow> ('k, 'v) aged_map" where
  "aged_expire now age m = dropWhile (\<lambda>(_, w, _). w \<le> now - age) m"

section \<open>The chronological order\<close>

abbreviation aged_when :: "('k, 'v) aged_map \<Rightarrow> int list" where
  "aged_when m \<equiv> map (\<lambda>(_, w, _). w) m"

definition aged_ok :: "int \<Rightarrow> ('k, 'v) aged_map \<Rightarrow> bool" where
  "aged_ok now m \<longleftrightarrow> al_distinct m \<and> sorted (aged_when m) \<and> (\<forall>w \<in> set (aged_when m). w \<le> now)"

lemma aged_ok_Nil: "aged_ok now []"
  by (simp add: aged_ok_def)

lemma aged_ok_later: "aged_ok now m \<Longrightarrow> now \<le> now' \<Longrightarrow> aged_ok now' m"
  by (force simp: aged_ok_def)

lemma aged_ok_touch:
  assumes "aged_ok now m"
  shows "aged_ok now (aged_touch now k m)"
proof (cases "map_of m k")
  case (Some wv)
  obtain w v where wv: "wv = (w, v)" by (cases wv)
  have "sorted (aged_when (AList.delete k m))"
    using assms by (simp add: aged_ok_def AList.delete_eq sorted_wrt_filter sorted_map sorted_filter)
  then show ?thesis
    using assms Some wv
    by (auto simp: aged_ok_def aged_touch_def sorted_append AList.delete_eq distinct_map_filter)
qed (use assms in \<open>simp add: aged_touch_def\<close>)

lemma aged_ok_at:
  assumes "aged_ok now m"
  shows "aged_ok now (aged_at now k d f m)"
proof (cases "map_of m k")
  case None
  have "aged_at now k d f m = m @ [(k, now, f d)]" unfolding aged_at_def None by simp
  moreover have "k \<notin> al_keys m" using None by (simp add: map_of_eq_None_iff)
  ultimately show ?thesis using assms by (auto simp: aged_ok_def sorted_append)
next
  case (Some wv)
  have "aged_when (aged_at now k d f m) = aged_when m" "map fst (aged_at now k d f m) = map fst m"
    using Some by (auto simp: aged_at_def)
  then show ?thesis using assms by (simp add: aged_ok_def)
qed

text \<open>In chronological order, expiry keeps exactly the entries touched within the age.\<close>

lemma aged_expire_filter:
  assumes "sorted (aged_when m)"
  shows "aged_expire now age m = filter (\<lambda>(_, w, _). now - age < w) m"
  using assms
proof (induction m)
  case (Cons e m)
  then show ?case
    by (cases e) (auto simp: aged_expire_def not_le intro!: sym[OF filter_True])
qed (simp add: aged_expire_def)

lemma aged_ok_expire:
  assumes "aged_ok now m"
  shows "aged_ok now (aged_expire now age m)"
  using assms
  by (auto simp: aged_ok_def aged_expire_filter distinct_map_filter sorted_filter sorted_map_same
      dest: sorted_filter[where P = "\<lambda>(_, w, _). now - age < w"])

section \<open>Lookup\<close>

lemma map_of_map_value:
  "map_of (map (\<lambda>(k', w, v). (k', w, if k' = k then f v else v)) m) k'
     = map_option (\<lambda>(w, v). (w, if k' = k then f v else v)) (map_of m k')"
  by (induction m) auto

lemma aged_find_at:
  "aged_find k' (aged_at now k d f m) =
     (if k' = k then Some (f (case aged_find k m of None \<Rightarrow> d | Some v \<Rightarrow> v)) else aged_find k' m)"
proof (cases "map_of m k")
  case None
  have "aged_at now k d f m = m @ [(k, now, f d)]" unfolding aged_at_def None by simp
  then show ?thesis unfolding aged_find_def using None
    by (simp add: map_add_def split: option.splits)
next
  case (Some wv)
  then show ?thesis
    by (auto simp: aged_find_def aged_at_def map_of_map_value option.map_comp comp_def case_prod_beta
        intro!: option.map_cong0)
qed

lemma map_of_aged_touch:
  "map_of (aged_touch now k m) k' =
     (if k' = k then map_option (\<lambda>(w, v). (now, v)) (map_of m k) else map_of m k')"
proof (cases "map_of m k")
  case None
  then have "aged_touch now k m = m" unfolding aged_touch_def None by simp
  with None show ?thesis by (simp flip: map_of_eq_None_iff)
next
  case (Some wv)
  then show ?thesis
    by (cases wv) (auto simp: aged_touch_def map_add_def delete_conv' split: option.splits)
qed

lemma map_of_aged_expire:
  assumes "aged_ok now m"
  shows "map_of (aged_expire now age m) k =
     (case map_of m k of None \<Rightarrow> None | Some (w, v) \<Rightarrow> if now - age < w then Some (w, v) else None)"
proof -
  have d: "al_distinct m" "sorted (aged_when m)" using assms by (auto simp: aged_ok_def)
  show ?thesis unfolding aged_expire_filter[OF d(2)]
    using d(1) by (induction m) (force split: option.splits simp flip: map_of_eq_None_iff)+
qed

end
