(* ===== verification/Ledger_Trie.thy ===== *)
theory Ledger_Trie
  imports Prelude
begin

text \<open>
  The ancestry trie of validated ledgers: \<^verbatim>\<open>src/ripple/consensus/LedgerTrie.h\<close>. The template
  parameter \<open>Ledger\<close> is a record of its operations. A node owns its children, and the \<open>parent\<close>
  pointers are the way down: a node is named by the path of child indices from the root, and a loop
  up the parents is the way back from a recursion along that path. Sequence numbers and support
  counts (numbers of validators) are natural numbers. A failed assertion and the use of an empty
  optional are the value \<open>None\<close>. The reordering of children by the partial sort of \<open>getPreferred\<close>
  is not recorded in the trie.
\<close>

section \<open>Spans\<close>

record 'l LedgerOps =
  lg_seq :: "'l \<Rightarrow> nat"
  lg_id :: "'l \<Rightarrow> uint256"
  lg_get :: "'l \<Rightarrow> nat \<Rightarrow> uint256"
  lg_mismatch :: "'l \<Rightarrow> 'l \<Rightarrow> nat"
  lg_genesis :: 'l

record 'l SpanTip =
  tip_seq :: nat
  tip_id :: uint256
  tip_ledger :: 'l

definition tip_ancestor :: "'l LedgerOps \<Rightarrow> 'l SpanTip \<Rightarrow> nat \<Rightarrow> uint256 option" where
  "tip_ancestor L tip s = do { assertThat (s \<le> tip_seq tip); Some (lg_get L (tip_ledger tip) s) }"

record 'l Span =
  sp_start :: nat
  sp_end :: nat
  sp_ledger :: 'l

definition span_genesis :: "'l LedgerOps \<Rightarrow> 'l Span" where
  "span_genesis L = \<lparr>sp_start = 0, sp_end = 1, sp_ledger = lg_genesis L\<rparr>"

definition span_of :: "'l LedgerOps \<Rightarrow> 'l \<Rightarrow> 'l Span" where
  "span_of L ledger = \<lparr>sp_start = 0, sp_end = lg_seq L ledger + 1, sp_ledger = ledger\<rparr>"

definition span_clamp :: "'l Span \<Rightarrow> nat \<Rightarrow> nat" where
  "span_clamp sp val = min (max (sp_start sp) val) (sp_end sp)"

definition span_sub :: "'l Span \<Rightarrow> nat \<Rightarrow> nat \<Rightarrow> 'l Span option" where
  "span_sub sp from to =
     (let newFrom = span_clamp sp from; newTo = span_clamp sp to
      in if newFrom < newTo then Some \<lparr>sp_start = newFrom, sp_end = newTo, sp_ledger = sp_ledger sp\<rparr>
         else None)"

definition span_from :: "'l Span \<Rightarrow> nat \<Rightarrow> 'l Span option" where
  "span_from sp spot = span_sub sp spot (sp_end sp)"

definition span_before :: "'l Span \<Rightarrow> nat \<Rightarrow> 'l Span option" where
  "span_before sp spot = span_sub sp (sp_start sp) spot"

definition span_startID :: "'l LedgerOps \<Rightarrow> 'l Span \<Rightarrow> uint256" where
  "span_startID L sp = lg_get L (sp_ledger sp) (sp_start sp)"

definition span_diff :: "'l LedgerOps \<Rightarrow> 'l Span \<Rightarrow> 'l \<Rightarrow> nat" where
  "span_diff L sp other = span_clamp sp (lg_mismatch L (sp_ledger sp) other)"

definition span_tip :: "'l LedgerOps \<Rightarrow> 'l Span \<Rightarrow> 'l SpanTip" where
  "span_tip L sp =
     (let tipSeq = sp_end sp - 1
      in \<lparr>tip_seq = tipSeq, tip_id = lg_get L (sp_ledger sp) tipSeq, tip_ledger = sp_ledger sp\<rparr>)"

definition span_merge :: "'l Span \<Rightarrow> 'l Span \<Rightarrow> 'l Span option" where
  "span_merge a b =
     (let s = min (sp_start a) (sp_start b)
      in if sp_end a < sp_end b then do {
           assertThat (s < sp_end b);
           Some \<lparr>sp_start = s, sp_end = sp_end b, sp_ledger = sp_ledger b\<rparr>
         }
         else do {
           assertThat (s < sp_end a);
           Some \<lparr>sp_start = s, sp_end = sp_end a, sp_ledger = sp_ledger a\<rparr>
         })"

section \<open>Nodes and the trie\<close>

datatype 'l TrieNode =
  TrieNode (nspan: "'l Span") (ntip: nat) (nbranch: nat) (nchildren: "'l TrieNode list")

record 'l LedgerTrie =
  troot :: "'l TrieNode"
  seqSupport :: "(nat \<times> nat) list"

definition newTrie :: "'l LedgerOps \<Rightarrow> 'l LedgerTrie" where
  "newTrie L = \<lparr>troot = TrieNode (span_genesis L) 0 0 [], seqSupport = []\<rparr>"

definition trie_empty :: "'l LedgerTrie \<Rightarrow> bool" where
  "trie_empty t \<longleftrightarrow> nbranch (troot t) = 0"

text \<open>\<open>Node::erase\<close>: the last child takes the place of the erased one.\<close>

definition swapErase :: "nat \<Rightarrow> 'a list \<Rightarrow> 'a list" where
  "swapErase i xs = butlast (xs[i := last xs])"

fun nodeAt :: "nat list \<Rightarrow> 'l TrieNode \<Rightarrow> 'l TrieNode" where
  "nodeAt [] n = n"
| "nodeAt (i # p) n = nodeAt p (nchildren n ! i)"

text \<open>The first child that shares more of the ledger than the position reached.\<close>

fun matchChild :: "'l LedgerOps \<Rightarrow> 'l \<Rightarrow> nat \<Rightarrow> 'l TrieNode list \<Rightarrow> (nat \<times> nat) option" where
  "matchChild L ledger pos [] = None"
| "matchChild L ledger pos (c # cs) =
     (let childPos = span_diff L (nspan c) ledger
      in if pos < childPos then Some (0, childPos)
         else map_option (\<lambda>(i, p). (Suc i, p)) (matchChild L ledger pos cs))"

lemma matchChild_index: "matchChild L ledger pos cs = Some (i, p) \<Longrightarrow> i < length cs"
  by (induction cs arbitrary: i) (auto simp: Let_def split: if_splits)

lemma child_size [termination_simp]: "i < length cs \<Longrightarrow> size (cs ! i) < Suc (size_list size cs)"
  using size_list_estimation'[of "cs ! i" cs "size (cs ! i)" size] by (simp add: less_Suc_eq_le)

function findFrom :: "'l LedgerOps \<Rightarrow> 'l \<Rightarrow> nat \<Rightarrow> 'l TrieNode \<Rightarrow> nat list \<times> nat" where
  "findFrom L ledger pos (TrieNode sp t b cs) =
     (if pos = sp_end sp then
        (case matchChild L ledger pos cs of
           None \<Rightarrow> ([], pos)
         | Some (i, childPos) \<Rightarrow>
             let (path, p) = findFrom L ledger childPos (cs ! i) in (i # path, p))
      else ([], pos))"
  by pat_completeness auto
termination
  by (relation "measure (\<lambda>(_, _, _, n). size n)") (auto dest: matchChild_index intro: child_size)

definition trie_find :: "'l LedgerOps \<Rightarrow> 'l \<Rightarrow> 'l LedgerTrie \<Rightarrow> nat list \<times> nat" where
  "trie_find L ledger t = findFrom L ledger (span_diff L (nspan (troot t)) ledger) (troot t)"

fun findByLedgerID :: "'l LedgerOps \<Rightarrow> uint256 \<Rightarrow> 'l TrieNode \<Rightarrow> nat list option"
  and findInChildren :: "'l LedgerOps \<Rightarrow> uint256 \<Rightarrow> nat \<Rightarrow> 'l TrieNode list \<Rightarrow> nat list option" where
  "findByLedgerID L i (TrieNode sp t b cs) =
     (if i = tip_id (span_tip L sp) then Some [] else findInChildren L i 0 cs)"
| "findInChildren L i k [] = None"
| "findInChildren L i k (c # cs) =
     (case findByLedgerID L i c of
        Some p \<Rightarrow> Some (k # p)
      | None \<Rightarrow> findInChildren L i (Suc k) cs)"

section \<open>Insertion\<close>

text \<open>What happens at the node found: it is split, and the new tip is added or is the node itself.\<close>

definition insertHere ::
  "'l LedgerOps \<Rightarrow> 'l \<Rightarrow> nat \<Rightarrow> nat \<Rightarrow> 'l TrieNode \<Rightarrow> 'l TrieNode option" where
  "insertHere L ledger count diffSeq loc = do {
     let prefix = span_before (nspan loc) diffSeq;
     let oldSuffix = span_from (nspan loc) diffSeq;
     let newSuffix = span_from (span_of L ledger) diffSeq;
     loc1 \<leftarrow> (case oldSuffix of
                 None \<Rightarrow> Some loc
               | Some os \<Rightarrow> do {
                   pre \<leftarrow> prefix;
                   Some (TrieNode pre 0 (nbranch loc)
                     [TrieNode os (ntip loc) (nbranch loc) (nchildren loc)])
                 });
     Some (case newSuffix of
             None \<Rightarrow> TrieNode (nspan loc1) (ntip loc1 + count) (nbranch loc1 + count) (nchildren loc1)
           | Some ns \<Rightarrow> TrieNode (nspan loc1) (ntip loc1) (nbranch loc1 + count)
                         (nchildren loc1 @ [TrieNode ns count count []]))
   }"

fun insertFrom ::
  "'l LedgerOps \<Rightarrow> 'l \<Rightarrow> nat \<Rightarrow> nat \<Rightarrow> nat list \<Rightarrow> 'l TrieNode \<Rightarrow> 'l TrieNode option" where
  "insertFrom L ledger count diffSeq [] n = insertHere L ledger count diffSeq n"
| "insertFrom L ledger count diffSeq (i # path) (TrieNode sp t b cs) = do {
     c \<leftarrow> insertFrom L ledger count diffSeq path (cs ! i);
     Some (TrieNode sp t (b + count) (cs[i := c]))
   }"

definition trie_insert :: "'l LedgerOps \<Rightarrow> 'l \<Rightarrow> nat \<Rightarrow> 'l LedgerTrie \<Rightarrow> 'l LedgerTrie option" where
  "trie_insert L ledger count t = do {
     let (path, diffSeq) = trie_find L ledger t;
     r \<leftarrow> insertFrom L ledger count diffSeq path (troot t);
     Some \<lparr>troot = r, seqSupport = om_upd (lg_seq L ledger) 0 (\<lambda>n. n + count) (seqSupport t)\<rparr>
   }"

section \<open>Removal\<close>

text \<open>
  The support is taken from the node and its ancestors, and then the loop erases or merges nodes
  without support as long as it can; the flag says that the loop has come up to the node.
\<close>

fun removeFrom :: "nat \<Rightarrow> nat list \<Rightarrow> 'l TrieNode \<Rightarrow> (bool \<times> 'l TrieNode) option" where
  "removeFrom count [] (TrieNode sp t b cs) = Some (True, TrieNode sp (t - count) (b - count) cs)"
| "removeFrom count (i # path) (TrieNode sp t b cs) = do {
     (reached, c) \<leftarrow> removeFrom count path (cs ! i);
     let cs1 = cs[i := c];
     if reached \<and> ntip c = 0 then
       (case nchildren c of
          [] \<Rightarrow> Some (True, TrieNode sp t (b - count) (swapErase i cs1))
        | [d] \<Rightarrow> do {
            m \<leftarrow> span_merge (nspan c) (nspan d);
            Some (True, TrieNode sp t (b - count)
              (swapErase i (cs1 @ [TrieNode m (ntip d) (nbranch d) (nchildren d)])))
          }
        | _ \<Rightarrow> Some (False, TrieNode sp t (b - count) cs1))
     else Some (False, TrieNode sp t (b - count) cs1)
   }"

definition trie_remove ::
  "'l LedgerOps \<Rightarrow> 'l \<Rightarrow> nat \<Rightarrow> 'l LedgerTrie \<Rightarrow> (bool \<times> 'l LedgerTrie) option" where
  "trie_remove L ledger count t =
     (case findByLedgerID L (lg_id L ledger) (troot t) of
        None \<Rightarrow> Some (False, t)
      | Some path \<Rightarrow>
          if ntip (nodeAt path (troot t)) = 0 then Some (False, t)
          else do {
            let n = min count (ntip (nodeAt path (troot t)));
            sup \<leftarrow> map_of (seqSupport t) (lg_seq L ledger);
            assertThat (n \<le> sup);
            (_, r) \<leftarrow> removeFrom n path (troot t);
            Some (True, \<lparr>troot = r,
              seqSupport = (if sup - n = 0 then AList.delete (lg_seq L ledger) (seqSupport t)
                            else om_upd (lg_seq L ledger) 0 (\<lambda>_. sup - n) (seqSupport t))\<rparr>)
          })"

section \<open>Queries\<close>

definition trie_tipSupport :: "'l LedgerOps \<Rightarrow> 'l \<Rightarrow> 'l LedgerTrie \<Rightarrow> nat" where
  "trie_tipSupport L ledger t =
     (case findByLedgerID L (lg_id L ledger) (troot t) of
        Some path \<Rightarrow> ntip (nodeAt path (troot t))
      | None \<Rightarrow> 0)"

definition trie_branchSupport :: "'l LedgerOps \<Rightarrow> 'l \<Rightarrow> 'l LedgerTrie \<Rightarrow> nat" where
  "trie_branchSupport L ledger t =
     (case findByLedgerID L (lg_id L ledger) (troot t) of
        Some path \<Rightarrow> nbranch (nodeAt path (troot t))
      | None \<Rightarrow>
          let (path, diffSeq) = trie_find L ledger t; loc = nodeAt path (troot t)
          in if lg_seq L ledger < diffSeq \<and> lg_seq L ledger < sp_end (nspan loc)
             then nbranch loc else 0)"

section \<open>The preferred ledger\<close>

fun addUncommitted :: "nat \<Rightarrow> nat \<Rightarrow> (nat \<times> nat) list \<Rightarrow> nat \<times> (nat \<times> nat) list" where
  "addUncommitted limit uncommitted [] = (uncommitted, [])"
| "addUncommitted limit uncommitted ((s, c) # its) =
     (if s < limit then addUncommitted limit (uncommitted + c) its else (uncommitted, (s, c) # its))"

text \<open>Along a span: from one change of the support by sequence number to the next.\<close>

fun advanceSpan ::
  "nat \<Rightarrow> nat \<Rightarrow> nat \<Rightarrow> nat \<Rightarrow> (nat \<times> nat) list \<Rightarrow> nat \<times> nat \<times> (nat \<times> nat) list" where
  "advanceSpan spanEnd branch nextSeq uncommitted [] =
     (if nextSeq < spanEnd \<and> uncommitted < branch then (spanEnd, uncommitted, [])
      else (nextSeq, uncommitted, []))"
| "advanceSpan spanEnd branch nextSeq uncommitted ((s, c) # its) =
     (if nextSeq < spanEnd \<and> uncommitted < branch then
        if s < spanEnd then advanceSpan spanEnd branch (s + 1) (uncommitted + c) its
        else (spanEnd, uncommitted, (s, c) # its)
      else (nextSeq, uncommitted, (s, c) # its))"

text \<open>The child that the partial sort puts first, and the others.\<close>

definition better :: "'l LedgerOps \<Rightarrow> 'l TrieNode \<Rightarrow> 'l TrieNode \<Rightarrow> bool" where
  "better L a b \<longleftrightarrow> nbranch b < nbranch a
     \<or> nbranch b = nbranch a \<and> span_startID L (nspan b) < span_startID L (nspan a)"

fun takeBest :: "'l LedgerOps \<Rightarrow> 'l TrieNode \<Rightarrow> 'l TrieNode list \<Rightarrow> 'l TrieNode \<times> 'l TrieNode list" where
  "takeBest L c [] = (c, [])"
| "takeBest L c (d # ds) =
     (if better L d c then let (m, rest) = takeBest L d ds in (m, c # rest)
      else let (m, rest) = takeBest L c ds in (m, d # rest))"

fun bestChild :: "'l LedgerOps \<Rightarrow> 'l TrieNode list \<Rightarrow> ('l TrieNode \<times> nat) option" where
  "bestChild L [] = None"
| "bestChild L [c] = Some (c, nbranch c)"
| "bestChild L (c # d # ds) =
     (case takeBest L c (d # ds) of
        (best, []) \<Rightarrow> Some (best, nbranch best)
      | (best, e # es) \<Rightarrow>
          let second = fst (takeBest L e es);
              margin = nbranch best - nbranch second
          in Some (best, if span_startID L (nspan second) < span_startID L (nspan best)
                         then margin + 1 else margin))"

lemma takeBest_set: "takeBest L c ds = (m, rest) \<Longrightarrow> insert m (set rest) = insert c (set ds)"
proof (induction ds arbitrary: c m rest)
  case Nil
  then show ?case by simp
next
  case (Cons d ds)
  obtain m1 r1 where 1: "takeBest L d ds = (m1, r1)" by fastforce
  obtain m2 r2 where 2: "takeBest L c ds = (m2, r2)" by fastforce
  show ?case
    using Cons.prems Cons.IH[OF 1] Cons.IH[OF 2] 1 2 by (cases "better L d c") auto
qed

lemma bestChild_mem:
  assumes "bestChild L cs = Some (b, margin)"
  shows "b \<in> set cs"
proof (cases "(L, cs)" rule: bestChild.cases)
  case (3 L' c d ds)
  obtain m rest where "takeBest L c (d # ds) = (m, rest)" by fastforce
  moreover from this have "m \<in> set (c # d # ds)" using takeBest_set[of L c "d # ds" m rest] by auto
  ultimately show ?thesis using assms 3
    by (auto simp: Let_def split: list.splits simp del: takeBest.simps)
qed (use assms in auto)

function prefLoop ::
  "'l LedgerOps \<Rightarrow> nat \<Rightarrow> nat \<Rightarrow> (nat \<times> nat) list \<Rightarrow> 'l TrieNode \<Rightarrow> 'l SpanTip option" where
  "prefLoop L largestIssued uncommitted its (TrieNode sp t b cs) =
     (let next0 = sp_start sp + 1;
          (unc0, its0) = addUncommitted (max next0 largestIssued) uncommitted its;
          (nextSeq, unc1, its1) = advanceSpan (sp_end sp) b next0 unc0 its0
      in if nextSeq < sp_end sp then map_option (span_tip L) (span_before sp nextSeq)
         else case bestChild L cs of
           None \<Rightarrow> Some (span_tip L sp)
         | Some (best, margin) \<Rightarrow>
             if unc1 < margin \<or> unc1 = 0 then prefLoop L largestIssued unc1 its1 best
             else Some (span_tip L sp))"
  by pat_completeness auto
termination
  by (relation "measure (\<lambda>(_, _, _, _, n). size n)")
    (auto dest!: bestChild_mem size_list_estimation'[where f = size, OF _ order_refl])

definition trie_getPreferred ::
  "'l LedgerOps \<Rightarrow> nat \<Rightarrow> 'l LedgerTrie \<Rightarrow> 'l SpanTip option option" where
  "trie_getPreferred L largestIssued t =
     (if trie_empty t then Some None
      else map_option Some (prefLoop L largestIssued 0 (seqSupport t) (troot t)))"

section \<open>The invariant check\<close>

text \<open>The stack holds nodes, each with whether it is the root.\<close>

function checkLoop ::
  "(bool \<times> 'l TrieNode) list \<Rightarrow> (nat \<times> nat) list \<Rightarrow> (nat \<times> nat) list option" where
  "checkLoop [] expected = Some expected"
| "checkLoop ((isRoot, TrieNode sp t b cs) # nodes) expected =
     (if \<not> isRoot \<and> t = 0 \<and> length cs < 2 then None
      else if t + sum_list (map nbranch cs) \<noteq> b then None
      else checkLoop (rev (map (Pair False) cs) @ nodes)
             (if t \<noteq> 0 then om_upd (sp_end sp - 1) 0 (\<lambda>n. n + t) expected else expected))"
  by pat_completeness auto
termination
  by (relation "measure (\<lambda>(nodes, _). sum_list (map (size \<circ> snd) nodes))")
    (auto simp: rev_map[symmetric] comp_def size_list_conv_sum_list sum_list_rev
      simp flip: rev_map)

definition checkInvariants :: "'l LedgerTrie \<Rightarrow> bool" where
  "checkInvariants t \<longleftrightarrow> checkLoop [(True, troot t)] [] = Some (seqSupport t)"

end
