(* ===== verification/Validations.thy ===== *)
theory Validations
  imports Aged_Map Ledger_Trie
begin

text \<open>
  Current and recent validations: \<^verbatim>\<open>src/ripple/consensus/Validations.h\<close>, with the wrapper
  \<open>RCLValidation\<close> of \<^verbatim>\<open>src/ripple/app/consensus/RCLValidations.h\<close>. The adaptor is a record of its
  answers during one call: the network time, the reading of the steady clock and the ledgers that
  can be acquired. Hash maps are association lists. A failed assertion is the value \<open>None\<close>. The
  mutex orders the operations; each operation is one step.
\<close>

section \<open>Parameters and sequence enforcement\<close>

record ValidationParms =
  validationCURRENT_WALL :: int
  validationCURRENT_LOCAL :: int
  validationCURRENT_EARLY :: int
  validationSET_EXPIRES :: int
  validationFRESHNESS :: int

definition defaultValidationParms :: ValidationParms where
  "defaultValidationParms = \<lparr>validationCURRENT_WALL = 5 * 60, validationCURRENT_LOCAL = 3 * 60,
     validationCURRENT_EARLY = 3 * 60, validationSET_EXPIRES = 10 * 60, validationFRESHNESS = 20\<rparr>"

record SeqEnforcer =
  enf_seq :: nat
  enf_when :: int

definition newSeqEnforcer :: SeqEnforcer where
  "newSeqEnforcer = \<lparr>enf_seq = 0, enf_when = 0\<rparr>"

definition enforceSeq :: "ValidationParms \<Rightarrow> int \<Rightarrow> nat \<Rightarrow> SeqEnforcer \<Rightarrow> bool \<times> SeqEnforcer" where
  "enforceSeq p clock s e =
     (let e1 = (if enf_when e + validationSET_EXPIRES p < clock then e\<lparr>enf_seq := 0\<rparr> else e)
      in if s \<le> enf_seq e1 then (False, e1)
         else (True, \<lparr>enf_seq = s, enf_when = clock\<rparr>))"

text \<open>Times of the network clock count unsigned 32-bit seconds; the sums are signed 64-bit.\<close>

definition isCurrent :: "ValidationParms \<Rightarrow> NetTime \<Rightarrow> NetTime \<Rightarrow> NetTime \<Rightarrow> bool" where
  "isCurrent p t signTime seenTime \<longleftrightarrow>
     uint t - validationCURRENT_EARLY p < uint signTime
     \<and> uint signTime < uint t + validationCURRENT_WALL p
     \<and> (seenTime = 0 \<or> uint seenTime < uint t + validationCURRENT_LOCAL p)"

datatype ValStatus = vs_current | vs_stale | vs_badSeq | vs_multiple | vs_conflicting

fun valStatus_to_string :: "ValStatus \<Rightarrow> string" where
  "valStatus_to_string vs_current = ''current''"
| "valStatus_to_string vs_stale = ''stale''"
| "valStatus_to_string vs_badSeq = ''badSeq''"
| "valStatus_to_string vs_multiple = ''multiple''"
| "valStatus_to_string vs_conflicting = ''conflicting''"

section \<open>State\<close>

record Validation =
  v_ledgerID :: uint256
  v_seq :: nat
  v_signTime :: NetTime
  v_seenTime :: NetTime
  v_key :: "8 word list"
  v_trusted :: bool
  v_full :: bool
  v_loadFee :: "32 word option"
  v_cookie :: "64 word"

record 'l Validations =
  current :: "(NodeID \<times> Validation) list"
  localSeqEnforcer :: SeqEnforcer
  seqEnforcers :: "(NodeID \<times> SeqEnforcer) list"
  byLedger :: "(uint256, (NodeID \<times> Validation) list) aged_map"
  bySequence :: "(nat, (NodeID \<times> Validation) list) aged_map"
  toKeep :: "nat option"
  trie :: "'l LedgerTrie"
  lastLedger :: "(NodeID \<times> 'l) list"
  acquiring :: "((nat \<times> uint256) \<times> NodeID list) list"

definition newValidations :: "'l LedgerOps \<Rightarrow> 'l Validations" where
  "newValidations L = \<lparr>current = [], localSeqEnforcer = newSeqEnforcer, seqEnforcers = [],
     byLedger = [], bySequence = [], toKeep = None, trie = newTrie L, lastLedger = [],
     acquiring = []\<rparr>"

record 'l ValAdaptor =
  va_parms :: ValidationParms
  va_now :: NetTime
  va_clock :: int
  va_acquire :: "uint256 \<Rightarrow> 'l option"

section \<open>The trie and the ledgers being acquired\<close>

definition eraseAcquiring ::
  "nat \<times> uint256 \<Rightarrow> NodeID \<Rightarrow> 'l Validations \<Rightarrow> 'l Validations" where
  "eraseAcquiring key nodeID s =
     (case map_of (acquiring s) key of
        None \<Rightarrow> s
      | Some nodes \<Rightarrow>
          s\<lparr>acquiring := (if removeAll nodeID nodes = [] then AList.delete key (acquiring s)
                          else AList.update key (removeAll nodeID nodes) (acquiring s))\<rparr>)"

definition removeTrie ::
  "'l LedgerOps \<Rightarrow> NodeID \<Rightarrow> Validation \<Rightarrow> 'l Validations \<Rightarrow> 'l Validations option" where
  "removeTrie L nodeID val s = do {
     let s1 = eraseAcquiring (v_seq val, v_ledgerID val) nodeID s;
     (case map_of (lastLedger s1) nodeID of
        None \<Rightarrow> Some s1
      | Some ledger \<Rightarrow>
          if lg_id L ledger = v_ledgerID val then do {
            (_, t) \<leftarrow> trie_remove L ledger 1 (trie s1);
            Some (s1\<lparr>trie := t, lastLedger := AList.delete nodeID (lastLedger s1)\<rparr>)
          }
          else Some s1)
   }"

definition updateTrieLedger ::
  "'l LedgerOps \<Rightarrow> 'l \<Rightarrow> NodeID \<Rightarrow> 'l Validations \<Rightarrow> 'l Validations option" where
  "updateTrieLedger L ledger nodeID s = do {
     t1 \<leftarrow> (case map_of (lastLedger s) nodeID of
               None \<Rightarrow> Some (trie s)
             | Some old \<Rightarrow> map_option snd (trie_remove L old 1 (trie s)));
     t2 \<leftarrow> trie_insert L ledger 1 t1;
     Some (s\<lparr>trie := t2, lastLedger := AList.update nodeID ledger (lastLedger s)\<rparr>)
   }"

definition checkAcquiredOne ::
  "'l LedgerOps \<Rightarrow> 'l ValAdaptor \<Rightarrow> (nat \<times> uint256) \<times> NodeID list \<Rightarrow> 'l Validations
    \<Rightarrow> 'l Validations option" where
  "checkAcquiredOne L A = (\<lambda>(key, nodes) s.
     case va_acquire A (snd key) of
       None \<Rightarrow> Some s
     | Some ledger \<Rightarrow> do {
         s1 \<leftarrow> foldM (updateTrieLedger L ledger) nodes s;
         Some (s1\<lparr>acquiring := AList.delete key (acquiring s1)\<rparr>)
       })"

definition checkAcquired ::
  "'l LedgerOps \<Rightarrow> 'l ValAdaptor \<Rightarrow> 'l Validations \<Rightarrow> 'l Validations option" where
  "checkAcquired L A s = foldM (checkAcquiredOne L A) (acquiring s) s"

definition updateTrie ::
  "'l LedgerOps \<Rightarrow> 'l ValAdaptor \<Rightarrow> NodeID \<Rightarrow> Validation \<Rightarrow> (nat \<times> uint256) option
    \<Rightarrow> 'l Validations \<Rightarrow> 'l Validations option" where
  "updateTrie L A nodeID val prior s = do {
     assertThat (v_trusted val);
     let s1 = (case prior of None \<Rightarrow> s | Some key \<Rightarrow> eraseAcquiring key nodeID s);
     s2 \<leftarrow> checkAcquired L A s1;
     let valPair = (v_seq val, v_ledgerID val);
     (case map_of (acquiring s2) valPair of
        Some nodes \<Rightarrow> Some (s2\<lparr>acquiring := AList.update valPair (List.insert nodeID nodes) (acquiring s2)\<rparr>)
      | None \<Rightarrow>
          (case va_acquire A (v_ledgerID val) of
             Some ledger \<Rightarrow> updateTrieLedger L ledger nodeID s2
           | None \<Rightarrow> Some (s2\<lparr>acquiring := AList.update valPair [nodeID] (acquiring s2)\<rparr>)))
   }"

section \<open>Iteration\<close>

text \<open>
  The loop over the current validations: stale ones are removed, the others are given to the
  callback, whose effect is on an accumulator.
\<close>

definition currentStep ::
  "'l LedgerOps \<Rightarrow> 'l ValAdaptor \<Rightarrow> (NodeID \<Rightarrow> Validation \<Rightarrow> 'a \<Rightarrow> 'a) \<Rightarrow> NodeID \<times> Validation
    \<Rightarrow> 'a \<times> 'l Validations \<Rightarrow> ('a \<times> 'l Validations) option" where
  "currentStep L A f = (\<lambda>(nodeID, val) (acc, s).
     if \<not> isCurrent (va_parms A) (va_now A) (v_signTime val) (v_seenTime val) then do {
       s1 \<leftarrow> removeTrie L nodeID val s;
       Some (acc, s1\<lparr>current := AList.delete nodeID (current s1)\<rparr>)
     }
     else Some (f nodeID val acc, s))"

definition iterCurrent ::
  "'l LedgerOps \<Rightarrow> 'l ValAdaptor \<Rightarrow> (NodeID \<Rightarrow> Validation \<Rightarrow> 'a \<Rightarrow> 'a) \<Rightarrow> 'a \<Rightarrow> 'l Validations
    \<Rightarrow> ('a \<times> 'l Validations) option" where
  "iterCurrent L A f acc s = foldM (currentStep L A f) (current s) (acc, s)"

definition withTrie ::
  "'l LedgerOps \<Rightarrow> 'l ValAdaptor \<Rightarrow> 'l Validations \<Rightarrow> 'l Validations option" where
  "withTrie L A s = do {
     (_, s1) \<leftarrow> iterCurrent L A (\<lambda>_ _ acc. acc) () s;
     checkAcquired L A s1
   }"

definition iterByLedger ::
  "'l ValAdaptor \<Rightarrow> uint256 \<Rightarrow> (NodeID \<Rightarrow> Validation \<Rightarrow> 'a \<Rightarrow> 'a) \<Rightarrow> 'a \<Rightarrow> 'l Validations
    \<Rightarrow> 'a \<times> 'l Validations" where
  "iterByLedger A ledgerID f acc s =
     (case aged_find ledgerID (byLedger s) of
        None \<Rightarrow> (acc, s)
      | Some vals \<Rightarrow> (fold (\<lambda>(k, v). f k v) vals acc,
          s\<lparr>byLedger := aged_touch (va_clock A) ledgerID (byLedger s)\<rparr>))"

section \<open>Operations\<close>

definition canValidateSeq ::
  "'l ValAdaptor \<Rightarrow> nat \<Rightarrow> 'l Validations \<Rightarrow> bool \<times> 'l Validations" where
  "canValidateSeq A s vs =
     (let (b, e) = enforceSeq (va_parms A) (va_clock A) s (localSeqEnforcer vs)
      in (b, vs\<lparr>localSeqEnforcer := e\<rparr>))"

text \<open>
  The entry of a node in \<open>bySequence_\<close>: a first validation is stored; a later one replaces it only
  when it was signed long after it.
\<close>

definition trackSeq ::
  "ValidationParms \<Rightarrow> NodeID \<Rightarrow> Validation \<Rightarrow> (NodeID \<times> Validation) list \<Rightarrow> (NodeID \<times> Validation) list" where
  "trackSeq p nodeID val vals =
     (case map_of vals nodeID of
        None \<Rightarrow> AList.update nodeID val vals
      | Some old \<Rightarrow>
          let diff = max (uint (v_signTime old)) (uint (v_signTime val))
                       - min (uint (v_signTime old)) (uint (v_signTime val))
          in if validationCURRENT_WALL p < diff \<and> v_signTime old < v_signTime val
             then AList.update nodeID val vals else vals)"

definition trackedAt :: "nat \<Rightarrow> NodeID \<Rightarrow> 'l Validations \<Rightarrow> Validation option" where
  "trackedAt sq nodeID s = do { vals \<leftarrow> aged_find sq (bySequence s); map_of vals nodeID }"

text \<open>Why a validation whose sequence number does not increase is refused.\<close>

definition seqFault :: "Validation \<Rightarrow> Validation \<Rightarrow> ValStatus" where
  "seqFault tracked val =
     (if v_seq tracked = v_seq val then
        if v_ledgerID tracked \<noteq> v_ledgerID val then vs_conflicting
        else if v_cookie tracked \<noteq> v_cookie val then vs_multiple
        else vs_badSeq
      else vs_badSeq)"

definition addCurrent ::
  "'l LedgerOps \<Rightarrow> 'l ValAdaptor \<Rightarrow> NodeID \<Rightarrow> Validation \<Rightarrow> 'l Validations
    \<Rightarrow> (ValStatus \<times> 'l Validations) option" where
  "addCurrent L A nodeID val s =
     (case map_of (current s) nodeID of
        Some oldVal \<Rightarrow>
          if v_signTime oldVal < v_signTime val then do {
            let s1 = s\<lparr>current := AList.update nodeID val (current s)\<rparr>;
            s2 \<leftarrow> (if v_trusted val
                   then updateTrie L A nodeID val (Some (v_seq oldVal, v_ledgerID oldVal)) s1
                   else Some s1);
            Some (vs_current, s2)
          }
          else Some (vs_stale, s)
      | None \<Rightarrow> do {
          let s1 = s\<lparr>current := AList.update nodeID val (current s)\<rparr>;
          s2 \<leftarrow> (if v_trusted val then updateTrie L A nodeID val None s1 else Some s1);
          Some (vs_current, s2)
        })"

definition val_add ::
  "'l LedgerOps \<Rightarrow> 'l ValAdaptor \<Rightarrow> NodeID \<Rightarrow> Validation \<Rightarrow> 'l Validations
    \<Rightarrow> (ValStatus \<times> 'l Validations) option" where
  "val_add L A nodeID val s =
     (if \<not> isCurrent (va_parms A) (va_now A) (v_signTime val) (v_seenTime val) then Some (vs_stale, s)
      else do {
        let s1 = s\<lparr>bySequence := aged_at (va_clock A) (v_seq val) []
                     (trackSeq (va_parms A) nodeID val) (bySequence s)\<rparr>;
        let enf = (case map_of (seqEnforcers s1) nodeID of None \<Rightarrow> newSeqEnforcer | Some e \<Rightarrow> e);
        let (accepted, enf1) = enforceSeq (va_parms A) (va_clock A) (v_seq val) enf;
        let s2 = s1\<lparr>seqEnforcers := AList.update nodeID enf1 (seqEnforcers s1)\<rparr>;
        if \<not> accepted then do {
          tracked \<leftarrow> trackedAt (v_seq val) nodeID s2;
          Some (seqFault tracked val, s2)
        }
        else addCurrent L A nodeID val
          (s2\<lparr>byLedger := aged_at (va_clock A) (v_ledgerID val) [] (AList.update nodeID val) (byLedger s2)\<rparr>)
      })"

definition setSeqToKeep :: "nat \<Rightarrow> 'l Validations \<Rightarrow> 'l Validations" where
  "setSeqToKeep sq s = s\<lparr>toKeep := Some sq\<rparr>"

definition touchKept :: "int \<Rightarrow> ('k \<Rightarrow> 'v \<Rightarrow> bool) \<Rightarrow> ('k, 'v) aged_map \<Rightarrow> ('k, 'v) aged_map" where
  "touchKept clock keep m =
     fold (\<lambda>(k, _, v) m'. if keep k v then aged_touch clock k m' else m') m m"

definition keepLedger :: "nat \<Rightarrow> uint256 \<Rightarrow> (NodeID \<times> Validation) list \<Rightarrow> bool" where
  "keepLedger sq ledgerID vals \<longleftrightarrow> vals \<noteq> [] \<and> sq \<le> v_seq (snd (hd vals))"

definition keepSequence :: "nat \<Rightarrow> nat \<Rightarrow> (NodeID \<times> Validation) list \<Rightarrow> bool" where
  "keepSequence sq s vals \<longleftrightarrow> sq \<le> s"

definition val_expire :: "'l ValAdaptor \<Rightarrow> 'l Validations \<Rightarrow> 'l Validations" where
  "val_expire A s =
     (let s1 = (case toKeep s of
          None \<Rightarrow> s
        | Some sq \<Rightarrow> s\<lparr>byLedger := touchKept (va_clock A) (keepLedger sq) (byLedger s),
                       bySequence := touchKept (va_clock A) (keepSequence sq) (bySequence s)\<rparr>);
          age = validationSET_EXPIRES (va_parms A)
      in s1\<lparr>byLedger := aged_expire (va_clock A) age (byLedger s1),
            bySequence := aged_expire (va_clock A) age (bySequence s1)\<rparr>)"

text \<open>
  The wrapped validation is shared between the maps. The trusted flag is read from \<open>current_\<close> and
  \<open>byLedger_\<close> only, and both are updated here.
\<close>

definition setTrust :: "NodeID list \<Rightarrow> NodeID list \<Rightarrow> NodeID \<Rightarrow> Validation \<Rightarrow> Validation" where
  "setTrust added removed nodeID val =
     (if nodeID \<in> set added then val\<lparr>v_trusted := True\<rparr>
      else if nodeID \<in> set removed then val\<lparr>v_trusted := False\<rparr>
      else val)"

definition trustChangedStep ::
  "'l LedgerOps \<Rightarrow> 'l ValAdaptor \<Rightarrow> NodeID list \<Rightarrow> NodeID list \<Rightarrow> NodeID \<times> Validation \<Rightarrow> 'l Validations
    \<Rightarrow> 'l Validations option" where
  "trustChangedStep L A added removed = (\<lambda>(nodeID, val) s.
     let val1 = setTrust added removed nodeID val;
         s1 = s\<lparr>current := AList.update nodeID val1 (current s)\<rparr>
     in if nodeID \<in> set added then updateTrie L A nodeID val1 None s1
        else if nodeID \<in> set removed then removeTrie L nodeID val1 s1
        else Some s)"

definition trustChanged ::
  "'l LedgerOps \<Rightarrow> 'l ValAdaptor \<Rightarrow> NodeID list \<Rightarrow> NodeID list \<Rightarrow> 'l Validations
    \<Rightarrow> 'l Validations option" where
  "trustChanged L A added removed s = do {
     s1 \<leftarrow> foldM (trustChangedStep L A added removed) (current s) s;
     Some (s1\<lparr>byLedger := map (\<lambda>(i, w, vals).
       (i, w, map (\<lambda>(n, v). (n, setTrust added removed n v)) vals)) (byLedger s1)\<rparr>)
   }"

section \<open>Queries\<close>

text \<open>\<open>std::max_element\<close>: the first element that no other one exceeds.\<close>

fun maxElement :: "('a \<Rightarrow> 'a \<Rightarrow> bool) \<Rightarrow> 'a list \<Rightarrow> 'a option" where
  "maxElement lt [] = None"
| "maxElement lt (x # xs) = Some (fold (\<lambda>y m. if lt m y then y else m) xs x)"

definition lessAcquiring ::
  "(nat \<times> uint256) \<times> NodeID list \<Rightarrow> (nat \<times> uint256) \<times> NodeID list \<Rightarrow> bool" where
  "lessAcquiring a b \<longleftrightarrow> length (snd a) < length (snd b)
     \<or> length (snd a) = length (snd b) \<and> snd (fst a) < snd (fst b)"

definition lessCount :: "uint256 \<times> 32 word \<Rightarrow> uint256 \<times> 32 word \<Rightarrow> bool" where
  "lessCount a b \<longleftrightarrow> snd a < snd b \<or> snd a = snd b \<and> fst a < fst b"

text \<open>The choice between the preferred ledger of the trie and the working ledger.\<close>

definition switchTo ::
  "'l LedgerOps \<Rightarrow> 'l \<Rightarrow> 'l SpanTip \<Rightarrow> (nat \<times> uint256) option" where
  "switchTo L working preferred = do {
     stay \<leftarrow> (if int (tip_seq preferred) = (int (lg_seq L working) + 1) mod 2 ^ 32 then do {
                a \<leftarrow> tip_ancestor L preferred (lg_seq L working);
                Some (a = lg_id L working)
              }
              else Some False);
     Some (if stay then (lg_seq L working, lg_id L working)
           else if lg_seq L working < tip_seq preferred then (tip_seq preferred, tip_id preferred)
           else if lg_get L working (tip_seq preferred) \<noteq> tip_id preferred
                then (tip_seq preferred, tip_id preferred)
           else (lg_seq L working, lg_id L working))
   }"

definition getPreferred ::
  "'l LedgerOps \<Rightarrow> 'l ValAdaptor \<Rightarrow> 'l \<Rightarrow> 'l Validations
    \<Rightarrow> ((nat \<times> uint256) option \<times> 'l Validations) option" where
  "getPreferred L A working s = do {
     s1 \<leftarrow> withTrie L A s;
     preferred \<leftarrow> trie_getPreferred L (enf_seq (localSeqEnforcer s1)) (trie s1);
     (case preferred of
        None \<Rightarrow> Some (map_option fst (maxElement lessAcquiring (acquiring s1)), s1)
      | Some tip \<Rightarrow> do { r \<leftarrow> switchTo L working tip; Some (Some r, s1) })
   }"

definition getPreferredMin ::
  "'l LedgerOps \<Rightarrow> 'l ValAdaptor \<Rightarrow> 'l \<Rightarrow> nat \<Rightarrow> 'l Validations \<Rightarrow> (uint256 \<times> 'l Validations) option" where
  "getPreferredMin L A working minValidSeq s = do {
     (preferred, s1) \<leftarrow> getPreferred L A working s;
     Some (case preferred of
         Some (sq, i) \<Rightarrow> if minValidSeq \<le> sq then i else lg_id L working
       | None \<Rightarrow> lg_id L working, s1)
   }"

definition getPreferredLCL ::
  "'l LedgerOps \<Rightarrow> 'l ValAdaptor \<Rightarrow> 'l \<Rightarrow> nat \<Rightarrow> (uint256 \<times> 32 word) list \<Rightarrow> 'l Validations
    \<Rightarrow> (uint256 \<times> 'l Validations) option" where
  "getPreferredLCL L A lcl minSeq peerCounts s = do {
     (preferred, s1) \<leftarrow> getPreferred L A lcl s;
     Some (case preferred of
         Some (sq, i) \<Rightarrow> if minSeq \<le> sq then i else lg_id L lcl
       | None \<Rightarrow> (case maxElement lessCount peerCounts of
             Some (i, _) \<Rightarrow> i
           | None \<Rightarrow> lg_id L lcl), s1)
   }"

definition getNodesAfter ::
  "'l LedgerOps \<Rightarrow> 'l ValAdaptor \<Rightarrow> 'l \<Rightarrow> uint256 \<Rightarrow> 'l Validations \<Rightarrow> (nat \<times> 'l Validations) option" where
  "getNodesAfter L A ledger i s =
     (if lg_id L ledger = i then do {
        s1 \<leftarrow> withTrie L A s;
        Some (trie_branchSupport L ledger (trie s1) - trie_tipSupport L ledger (trie s1), s1)
      }
      else Some (length (filter (\<lambda>(_, working). 0 < lg_seq L working \<and> lg_get L working (lg_seq L working - 1) = i)
                   (lastLedger s)), s))"

definition currentTrusted ::
  "'l LedgerOps \<Rightarrow> 'l ValAdaptor \<Rightarrow> 'l Validations \<Rightarrow> (Validation list \<times> 'l Validations) option" where
  "currentTrusted L A =
     iterCurrent L A (\<lambda>_ v ret. if v_trusted v \<and> v_full v then ret @ [v] else ret) []"

definition getCurrentNodeIDs ::
  "'l LedgerOps \<Rightarrow> 'l ValAdaptor \<Rightarrow> 'l Validations \<Rightarrow> (NodeID list \<times> 'l Validations) option" where
  "getCurrentNodeIDs L A = iterCurrent L A (\<lambda>nid _ ret. List.insert nid ret) []"

definition numTrustedForLedger ::
  "'l ValAdaptor \<Rightarrow> uint256 \<Rightarrow> 'l Validations \<Rightarrow> nat \<times> 'l Validations" where
  "numTrustedForLedger A i =
     iterByLedger A i (\<lambda>_ v n. if v_trusted v \<and> v_full v then n + 1 else n) 0"

definition getTrustedForLedger ::
  "'l ValAdaptor \<Rightarrow> uint256 \<Rightarrow> 'l Validations \<Rightarrow> Validation list \<times> 'l Validations" where
  "getTrustedForLedger A i =
     iterByLedger A i (\<lambda>_ v res. if v_trusted v \<and> v_full v then res @ [v] else res) []"

definition val_fees ::
  "'l ValAdaptor \<Rightarrow> uint256 \<Rightarrow> 32 word \<Rightarrow> 'l Validations \<Rightarrow> 32 word list \<times> 'l Validations" where
  "val_fees A i baseFee =
     iterByLedger A i (\<lambda>_ v res. if v_trusted v \<and> v_full v
       then res @ [case v_loadFee v of Some fee \<Rightarrow> fee | None \<Rightarrow> baseFee] else res) []"

definition val_flush :: "'l Validations \<Rightarrow> 'l Validations" where
  "val_flush s = s\<lparr>current := []\<rparr>"

definition laggards ::
  "'l LedgerOps \<Rightarrow> 'l ValAdaptor \<Rightarrow> nat \<Rightarrow> 8 word list list \<Rightarrow> 'l Validations
    \<Rightarrow> ((nat \<times> 8 word list list) \<times> 'l Validations) option" where
  "laggards L A sq trustedKeys =
     iterCurrent L A (\<lambda>_ v (n, keys).
       if uint (va_now A) < uint (v_seenTime v) + validationFRESHNESS (va_parms A) \<and> v_key v \<in> set keys
       then (if v_seq v < sq then n + 1 else n, removeAll (v_key v) keys)
       else (n, keys)) (0, trustedKeys)"

section \<open>Validations from the network\<close>

text \<open>
  \<open>handleNewValidation\<close>: the validator list tells the master key of a trusted or of a listed
  signer; the result also says whether the ledger master is asked to check the ledger for acceptance.
\<close>

definition handleNewValidation ::
  "'l LedgerOps \<Rightarrow> 'l ValAdaptor \<Rightarrow> ('k \<Rightarrow> 'k option) \<Rightarrow> ('k \<Rightarrow> 'k option) \<Rightarrow> ('k \<Rightarrow> NodeID)
    \<Rightarrow> 'k \<Rightarrow> Validation \<Rightarrow> 'l Validations \<Rightarrow> ((uint256 \<times> nat) option \<times> 'l Validations) option" where
  "handleNewValidation L A getTrustedKey getListedKey calcNodeID signingKey val s =
     (let val1 = (if \<not> v_trusted val \<and> getTrustedKey signingKey \<noteq> None then val\<lparr>v_trusted := True\<rparr> else val);
          masterKey = (case getTrustedKey signingKey of Some k \<Rightarrow> Some k | None \<Rightarrow> getListedKey signingKey)
      in case masterKey of
           None \<Rightarrow> Some (None, s)
         | Some k \<Rightarrow> do {
             (outcome, s1) \<leftarrow> val_add L A (calcNodeID k) val1 s;
             Some (if v_trusted val1 \<and> outcome = vs_current then Some (v_ledgerID val1, v_seq val1) else None, s1)
           })"

end
