(* ===== verification/Ledger_Trie_Inv.thy ===== *)
theory Ledger_Trie_Inv
  imports Ledger_Trie "HOL-Library.Multiset"
begin

text \<open>
  The ledger trie keeps its invariant and implements a multiset of ledger identifiers.

  The interface \<open>ledger_history\<close> is what the trie relies on: ledgers have a history that
  determines all earlier entries from a later one, and \<open>mismatch\<close> finds the first sequence number
  at which two histories differ. Under it, insertion and removal never fail, keep the invariant of
  the compressed trie (\<open>wfTrie\<close>) and act on the multiset of entries (\<open>trieEntries\<close>) as the
  addition and the subtraction of occurrences.
\<close>

section \<open>Support by sequence number as a multiset\<close>

definition supports :: "(nat \<times> nat) list \<Rightarrow> nat multiset \<Rightarrow> bool" where
  "supports m M \<longleftrightarrow> om_sorted m
     \<and> (\<forall>s. map_of m s = (if s \<in># M then Some (count M s) else None))"

lemma supports_Nil: "supports [] {#}"
  by (simp add: supports_def)

lemma om_sorted_unique:
  fixes xs ys :: "('k::linorder \<times> 'v) list"
  assumes "om_sorted xs" "om_sorted ys" "map_of xs = map_of ys"
  shows "xs = ys"
proof -
  have "set xs = set ys"
    using assms map_of_inject_set[of xs ys] by (simp add: om_sorted_distinct)
  then have "map fst xs = map fst ys"
    using assms(1,2) by (metis list.set_map strict_sorted_equal)
  moreover have "distinct (map fst ys)" using assms(2) by (rule om_sorted_distinct)
  ultimately show ?thesis
    using \<open>set xs = set ys\<close> assms(1)
    by (metis inj_on_map_eq_map distinct_map sup.idem)
qed

lemma supports_unique: "supports m M \<Longrightarrow> supports m' M \<Longrightarrow> m = m'"
  unfolding supports_def by (intro om_sorted_unique) auto

lemma supports_add:
  assumes "supports m M" "0 < n"
  shows "supports (om_upd s 0 (\<lambda>k. k + n) m) (M + replicate_mset n s)"
  using assms unfolding supports_def
  by (auto simp: om_sorted_upd map_of_om_upd in_diff_count not_in_iff)

lemma om_sorted_delete: "om_sorted m \<Longrightarrow> om_sorted (AList.delete k m)"
  by (induction m) (auto simp: AList.delete_eq sorted_wrt_filter)

lemma supports_delete:
  assumes "supports m M"
  shows "supports (AList.delete s m) (M - replicate_mset (count M s) s)"
  using assms unfolding supports_def
  by (auto simp: om_sorted_delete delete_conv' in_diff_count)

lemma supports_reduce:
  assumes "supports m M" "n < count M s"
  shows "supports (om_upd s 0 (\<lambda>_. count M s - n) m) (M - replicate_mset n s)"
  using assms unfolding supports_def
  by (auto simp: om_sorted_upd map_of_om_upd in_diff_count not_in_iff)

lemma supports_Cons:
  assumes "supports ((s, c) # m) M"
  shows "c = count M s" "supports m (filter_mset (\<lambda>x. s < x) M)"
    "filter_mset (\<lambda>x. x \<le> s) M = replicate_mset c s"
proof -
  have sorted: "om_sorted m" "\<And>x. x \<in> al_keys m \<Longrightarrow> s < x"
    and look: "\<And>x. map_of ((s, c) # m) x = (if x \<in># M then Some (count M x) else None)"
    using assms unfolding supports_def by auto
  show c: "c = count M s" using look[of s] by (auto split: if_splits)
  have below: "x \<notin># M" if "x < s" for x
  proof -
    have "map_of m x = None" using sorted(2)[of x] that by (fastforce simp: map_of_eq_None_iff)
    then show ?thesis using look[of x] that by (auto split: if_splits)
  qed
  show "supports m (filter_mset (\<lambda>x. s < x) M)"
    unfolding supports_def
  proof (intro conjI allI)
    show "om_sorted m" by (rule sorted(1))
    fix x
    show "map_of m x = (if x \<in># filter_mset (\<lambda>x. s < x) M
                        then Some (count (filter_mset (\<lambda>x. s < x) M) x) else None)"
    proof (cases "s < x")
      case True
      then show ?thesis using look[of x] by auto
    next
      case False
      then have "x \<notin> al_keys m" using sorted(2)[of x] by auto
      then show ?thesis using False by (auto simp: map_of_eq_None_iff)
    qed
  qed
  show "filter_mset (\<lambda>x. x \<le> s) M = replicate_mset c s"
    by (rule multiset_eqI) (use c below in \<open>auto simp: le_less not_in_iff\<close>)
qed

section \<open>Entries and well-formed nodes\<close>

fun trieEntries :: "'l LedgerOps \<Rightarrow> 'l TrieNode \<Rightarrow> uint256 multiset" where
  "trieEntries L (TrieNode sp t b cs) =
     replicate_mset t (tip_id (span_tip L sp)) + sum_list (map (trieEntries L) cs)"

abbreviation hist :: "'l LedgerOps \<Rightarrow> (uint256 \<Rightarrow> nat \<Rightarrow> uint256) \<Rightarrow> 'l \<Rightarrow> nat \<Rightarrow> uint256" where
  "hist L anc l s \<equiv> anc (lg_id L l) s"

definition wfSpan ::
  "'l LedgerOps \<Rightarrow> ('l \<Rightarrow> bool) \<Rightarrow> (uint256 \<Rightarrow> nat \<Rightarrow> uint256) \<Rightarrow> 'l Span \<Rightarrow> bool" where
  "wfSpan L ok anc sp \<longleftrightarrow> ok (sp_ledger sp) \<and> sp_start sp < sp_end sp
     \<and> sp_end sp \<le> lg_seq L (sp_ledger sp) + 1
     \<and> lg_get L (sp_ledger sp) (sp_end sp - 1) = hist L anc (sp_ledger sp) (sp_end sp - 1)"

text \<open>A child starts where its parent ends, and has the parent's history until there.\<close>

definition joins ::
  "'l LedgerOps \<Rightarrow> (uint256 \<Rightarrow> nat \<Rightarrow> uint256) \<Rightarrow> 'l Span \<Rightarrow> 'l Span \<Rightarrow> bool" where
  "joins L anc sp csp \<longleftrightarrow> sp_start csp = sp_end sp
     \<and> hist L anc (sp_ledger csp) (sp_end sp - 1) = hist L anc (sp_ledger sp) (sp_end sp - 1)"

definition compressed :: "'l TrieNode \<Rightarrow> bool" where
  "compressed n \<longleftrightarrow> (ntip n = 0 \<longrightarrow> 2 \<le> length (nchildren n))"

fun wfNode ::
  "'l LedgerOps \<Rightarrow> ('l \<Rightarrow> bool) \<Rightarrow> (uint256 \<Rightarrow> nat \<Rightarrow> uint256) \<Rightarrow> 'l TrieNode \<Rightarrow> bool" where
  "wfNode L ok anc (TrieNode sp t b cs) \<longleftrightarrow> wfSpan L ok anc sp
     \<and> (\<forall>c \<in> set cs. wfNode L ok anc c \<and> joins L anc sp (nspan c) \<and> compressed c)
     \<and> distinct (map (\<lambda>c. hist L anc (sp_ledger (nspan c)) (sp_end sp)) cs)
     \<and> b = t + sum_list (map nbranch cs)"

definition wfTrie ::
  "'l LedgerOps \<Rightarrow> ('l \<Rightarrow> bool) \<Rightarrow> (uint256 \<Rightarrow> nat) \<Rightarrow> (uint256 \<Rightarrow> nat \<Rightarrow> uint256)
    \<Rightarrow> 'l LedgerTrie \<Rightarrow> bool" where
  "wfTrie L ok num anc t \<longleftrightarrow> wfNode L ok anc (troot t)
     \<and> sp_start (nspan (troot t)) = 0 \<and> sp_end (nspan (troot t)) = 1
     \<and> supports (seqSupport t) (image_mset num (trieEntries L (troot t)))"

lemma replicate_mset_sum: "replicate_mset (a + b) x = replicate_mset a x + replicate_mset b x"
  by (rule multiset_eqI) simp

lemma size_sum_list: "size (sum_list (ms :: 'a multiset list)) = sum_list (map size ms)"
  by (induction ms) auto

lemma count_sum_list_zero:
  "\<forall>c \<in> set cs. x \<notin># f c \<Longrightarrow> count (sum_list (map f cs)) x = 0"
  by (induction cs) (auto simp: not_in_iff)

lemma image_mset_sum_list: "image_mset f (sum_list ms) = sum_list (map (image_mset f) ms)"
  by (induction ms) auto

lemma nbranch_size: "wfNode L ok anc n \<Longrightarrow> nbranch n = size (trieEntries L n)"
proof (induction n)
  case (TrieNode sp t b cs)
  have "map nbranch cs = map (size \<circ> trieEntries L) cs"
    using TrieNode by auto
  then have "sum_list (map nbranch cs) = sum_list (map (size \<circ> trieEntries L) cs)" by metis
  then show ?case using TrieNode.prems by (simp add: size_sum_list comp_def)
qed

section \<open>Parts of spans\<close>

lemma span_from_inside:
  "sp_start sp \<le> d \<Longrightarrow> d < sp_end sp \<Longrightarrow>
     span_from sp d = Some \<lparr>sp_start = d, sp_end = sp_end sp, sp_ledger = sp_ledger sp\<rparr>"
  by (simp add: span_from_def span_sub_def span_clamp_def)

lemma span_from_end: "sp_end sp \<le> d \<Longrightarrow> span_from sp d = None"
  by (simp add: span_from_def span_sub_def span_clamp_def)

lemma span_before_inside:
  "sp_start sp < d \<Longrightarrow> d \<le> sp_end sp \<Longrightarrow>
     span_before sp d = Some \<lparr>sp_start = sp_start sp, sp_end = d, sp_ledger = sp_ledger sp\<rparr>"
  by (simp add: span_before_def span_sub_def span_clamp_def)

lemma tip_id_span: "tip_id (span_tip L sp) = lg_get L (sp_ledger sp) (sp_end sp - 1)"
  by (simp add: span_tip_def Let_def)

section \<open>Paths\<close>

fun validPath :: "nat list \<Rightarrow> 'l TrieNode \<Rightarrow> bool" where
  "validPath [] n \<longleftrightarrow> True"
| "validPath (i # p) n \<longleftrightarrow> i < length (nchildren n) \<and> validPath p (nchildren n ! i)"

abbreviation node_tip :: "'l LedgerOps \<Rightarrow> 'l TrieNode \<Rightarrow> uint256" where
  "node_tip L n \<equiv> tip_id (span_tip L (nspan n))"

lemma findByLedgerID_Some:
  "findByLedgerID L i n = Some p \<Longrightarrow> validPath p n \<and> node_tip L (nodeAt p n) = i"
  "findInChildren L i k cs = Some p \<Longrightarrow> \<exists>j q. p = (k + j) # q \<and> j < length cs
     \<and> validPath q (cs ! j) \<and> node_tip L (nodeAt q (cs ! j)) = i"
proof (induction L i n and L i k cs arbitrary: p and p rule: findByLedgerID_findInChildren.induct)
  case (1 L i sp t b cs)
  then show ?case by (fastforce split: if_splits)
next
  case (3 L i k c cs)
  show ?case
  proof (cases "findByLedgerID L i c")
    case (Some q)
    then show ?thesis using 3 by force
  next
    case None
    then obtain j q where "p = (Suc k + j) # q \<and> j < length cs \<and> validPath q (cs ! j)
        \<and> node_tip L (nodeAt q (cs ! j)) = i"
      using 3 by fastforce
    then show ?thesis by (intro exI[of _ "Suc j"] exI[of _ q]) simp
  qed
qed simp

lemma findByLedgerID_None:
  "findByLedgerID L i n = None \<Longrightarrow> i \<notin># trieEntries L n"
  "findInChildren L i k cs = None \<Longrightarrow> i \<notin># sum_list (map (trieEntries L) cs)"
  by (induction L i n and L i k cs rule: findByLedgerID_findInChildren.induct)
    (auto split: if_splits option.splits)

lemma entry_path:
  "i \<in># trieEntries L n \<Longrightarrow> \<exists>p. validPath p n \<and> node_tip L (nodeAt p n) = i"
proof (induction n)
  case (TrieNode sp t b cs)
  show ?case
  proof (cases "i = tip_id (span_tip L sp)")
    case True
    then show ?thesis by (intro exI[of _ "[]"]) simp
  next
    case False
    then obtain c where "c \<in> set cs" "i \<in># trieEntries L c"
      using TrieNode.prems by (auto split: if_splits)
    with TrieNode.IH obtain p where "validPath p c" "node_tip L (nodeAt p c) = i" by blast
    with \<open>c \<in> set cs\<close> obtain j where "j < length cs" "cs ! j = c" by (auto simp: in_set_conv_nth)
    with \<open>validPath p c\<close> \<open>node_tip L (nodeAt p c) = i\<close> show ?thesis
      by (intro exI[of _ "j # p"]) simp
  qed
qed

section \<open>Ledger histories\<close>

locale ledger_history =
  fixes L :: "'l LedgerOps" and ok :: "'l \<Rightarrow> bool"
    and num :: "uint256 \<Rightarrow> nat" and anc :: "uint256 \<Rightarrow> nat \<Rightarrow> uint256"
  assumes genesis_ok: "ok (lg_genesis L)"
    and genesis_seq: "lg_seq L (lg_genesis L) = 0"
    and num_anc: "\<And>l s. ok l \<Longrightarrow> s \<le> lg_seq L l \<Longrightarrow> num (hist L anc l s) = s"
    and anc_self: "\<And>l. ok l \<Longrightarrow> hist L anc l (lg_seq L l) = lg_id L l"
    and anc_anc: "\<And>l q s. ok l \<Longrightarrow> q \<le> s \<Longrightarrow> s \<le> lg_seq L l
      \<Longrightarrow> anc (hist L anc l s) q = hist L anc l q"
    and anc_0: "\<And>a b. ok a \<Longrightarrow> ok b \<Longrightarrow> hist L anc a 0 = hist L anc b 0"
    and mismatch_iff: "\<And>a b s. ok a \<Longrightarrow> ok b \<Longrightarrow> s < lg_mismatch L a b \<longleftrightarrow>
      s \<le> lg_seq L a \<and> s \<le> lg_seq L b \<and> hist L anc a s = hist L anc b s"
    and get_seq: "\<And>l. ok l \<Longrightarrow> lg_get L l (lg_seq L l) = lg_id L l"
    and get_shared: "\<And>a b. ok a \<Longrightarrow> ok b \<Longrightarrow>
      lg_get L a (lg_mismatch L a b - 1) = hist L anc a (lg_mismatch L a b - 1)"
    and get_diverge: "\<And>a b. ok a \<Longrightarrow> ok b \<Longrightarrow> lg_mismatch L a b \<le> lg_seq L a
      \<Longrightarrow> lg_mismatch L a b \<le> lg_seq L b
      \<Longrightarrow> lg_get L a (lg_mismatch L a b) = hist L anc a (lg_mismatch L a b)"
begin

lemma hist_below:
  assumes "ok a" "ok b" "s \<le> lg_seq L a" "s \<le> lg_seq L b" "hist L anc a s = hist L anc b s" "q \<le> s"
  shows "hist L anc a q = hist L anc b q"
  using anc_anc[of a q s] anc_anc[of b q s] assms by metis

lemma mismatch_le:
  assumes "ok a" "ok b"
  shows "lg_mismatch L a b \<le> lg_seq L a + 1" "lg_mismatch L a b \<le> lg_seq L b + 1"
proof -
  have "\<not> lg_seq L a + 1 < lg_mismatch L a b" "\<not> lg_seq L b + 1 < lg_mismatch L a b"
    using mismatch_iff[OF assms] by auto
  then show "lg_mismatch L a b \<le> lg_seq L a + 1" "lg_mismatch L a b \<le> lg_seq L b + 1" by auto
qed

lemma span_diff_reached:
  assumes "wfSpan L ok anc sp" "ok l" "sp_start sp < lg_mismatch L (sp_ledger sp) l"
  shows "span_diff L sp l = min (lg_mismatch L (sp_ledger sp) l) (sp_end sp)"
  using assms by (auto simp: span_diff_def span_clamp_def)

lemma span_diff_gt:
  assumes "wfSpan L ok anc sp" "ok l"
  shows "sp_start sp < span_diff L sp l \<longleftrightarrow> sp_start sp < lg_mismatch L (sp_ledger sp) l"
  using assms by (auto simp: span_diff_def span_clamp_def wfSpan_def)

text \<open>Insertion: what it makes of a node that shares the first ledger of its span.\<close>

definition inserted :: "'l \<Rightarrow> nat \<Rightarrow> 'l TrieNode \<Rightarrow> 'l TrieNode \<Rightarrow> bool" where
  "inserted l k n n' \<longleftrightarrow> wfNode L ok anc n'
     \<and> trieEntries L n' = trieEntries L n + replicate_mset k (lg_id L l)
     \<and> nbranch n' = nbranch n + k
     \<and> sp_ledger (nspan n') = sp_ledger (nspan n) \<and> sp_start (nspan n') = sp_start (nspan n)
     \<and> (compressed n \<longrightarrow> compressed n')
     \<and> (span_diff L (nspan n) l = sp_end (nspan n) \<longrightarrow> nspan n' = nspan n)"

abbreviation leaf :: "'l \<Rightarrow> nat \<Rightarrow> nat \<Rightarrow> 'l TrieNode" where
  "leaf l k d \<equiv> TrieNode \<lparr>sp_start = d, sp_end = lg_seq L l + 1, sp_ledger = l\<rparr> k k []"

lemma leaf_wf:
  assumes "ok l" "d \<le> lg_seq L l"
  shows "wfNode L ok anc (leaf l k d)" "trieEntries L (leaf l k d) = replicate_mset k (lg_id L l)"
  using assms get_seq[of l] anc_self[of l] by (simp_all add: wfSpan_def tip_id_span)

lemma newSuffix_cases:
  "span_from (span_of L l) d =
     (if d \<le> lg_seq L l
      then Some \<lparr>sp_start = d, sp_end = lg_seq L l + 1, sp_ledger = l\<rparr> else None)"
  using span_from_inside[of "span_of L l" d] span_from_end[of "span_of L l" d]
  by (simp add: span_of_def)

text \<open>The ledger leaves the span of the node at its end.\<close>

lemma insert_at_end:
  assumes n: "n = TrieNode sp t b cs" and wf: "wfNode L ok anc n" and l: "ok l" and k: "0 < k"
    and m: "sp_end sp \<le> lg_mismatch L (sp_ledger sp) l"
    and none: "\<forall>c \<in> set cs. \<not> sp_end sp < lg_mismatch L (sp_ledger (nspan c)) l"
  shows "\<exists>n'. insertHere L l k (sp_end sp) n = Some n' \<and> inserted l k n n'"
proof -
  have sp: "wfSpan L ok anc sp" and pos: "0 < sp_end sp" "ok (sp_ledger sp)"
    using wf n by (auto simp: wfSpan_def)
  have same: "sp_end sp - 1 \<le> lg_seq L l"
    "hist L anc (sp_ledger sp) (sp_end sp - 1) = hist L anc l (sp_end sp - 1)"
    using mismatch_iff[of "sp_ledger sp" l "sp_end sp - 1"] m pos l by auto
  have old: "span_from sp (sp_end sp) = None" by (simp add: span_from_end)
  show ?thesis
  proof (cases "sp_end sp \<le> lg_seq L l")
    case True
    have new: "hist L anc (sp_ledger (nspan c)) (sp_end sp) \<noteq> hist L anc l (sp_end sp)"
      if "c \<in> set cs" for c
    proof -
      have c: "wfSpan L ok anc (nspan c)" "joins L anc sp (nspan c)"
        using wf n that by (cases c; fastforce)+
      then have "sp_end sp \<le> lg_seq L (sp_ledger (nspan c))" "ok (sp_ledger (nspan c))"
        by (auto simp: wfSpan_def joins_def)
      with none that l True mismatch_iff[of "sp_ledger (nspan c)" l "sp_end sp"] show ?thesis by auto
    qed
    then have new': "hist L anc l (sp_end sp) \<notin> (\<lambda>c. hist L anc (sp_ledger (nspan c)) (sp_end sp)) ` set cs"
      by force
    have "joins L anc sp \<lparr>sp_start = sp_end sp, sp_end = lg_seq L l + 1, sp_ledger = l\<rparr>"
      using same by (simp add: joins_def)
    then show ?thesis
      using n wf old True k new' leaf_wf[OF l True, of k]
      by (auto simp: insertHere_def newSuffix_cases inserted_def compressed_def)
  next
    case False
    then have e: "sp_end sp = lg_seq L l + 1" using same by simp
    have "lg_get L (sp_ledger sp) (sp_end sp - 1) = lg_id L l"
      using sp same anc_self[OF l] e by (simp add: wfSpan_def)
    then show ?thesis
      using n wf old False k e
      by (auto simp: insertHere_def newSuffix_cases inserted_def compressed_def tip_id_span
          replicate_mset_sum)
  qed
qed

text \<open>The ledger leaves the span of the node before its end, and the node is split.\<close>

lemma insert_inside:
  assumes n: "n = TrieNode sp t b cs" and wf: "wfNode L ok anc n" and nc: "compressed n"
    and l: "ok l" and k: "0 < k" and m: "m = lg_mismatch L (sp_ledger sp) l" "sp_start sp < m" "m < sp_end sp"
  shows "\<exists>n'. insertHere L l k m n = Some n' \<and> inserted l k n n'"
proof -
  let ?pre = "\<lparr>sp_start = sp_start sp, sp_end = m, sp_ledger = sp_ledger sp\<rparr>"
  let ?old = "TrieNode \<lparr>sp_start = m, sp_end = sp_end sp, sp_ledger = sp_ledger sp\<rparr> t b cs"
  have sp: "wfSpan L ok anc sp" and led: "ok (sp_ledger sp)" using wf n by (auto simp: wfSpan_def)
  have pre: "wfSpan L ok anc ?pre" using sp m l get_shared[OF led l] by (simp add: wfSpan_def)
  have old: "wfNode L ok anc ?old" "joins L anc ?pre (nspan ?old)"
    using wf n m by (auto simp: wfSpan_def joins_def)
  have ent: "trieEntries L ?old = trieEntries L n" using n by (simp add: tip_id_span)
  have comp: "compressed ?old" using n nc by (simp add: compressed_def)
  have same: "m - 1 \<le> lg_seq L l" "hist L anc (sp_ledger sp) (m - 1) = hist L anc l (m - 1)"
    using mismatch_iff[OF led l, of "m - 1"] m by auto
  note parts = span_before_inside[of sp m] span_from_inside[of sp m]
  have diff: "span_diff L sp l = m" using span_diff_reached[OF sp l] m by simp
  show ?thesis
  proof (cases "m \<le> lg_seq L l")
    case True
    have "hist L anc (sp_ledger sp) m \<noteq> hist L anc l m"
      using mismatch_iff[OF led l, of m] m True sp by (auto simp: wfSpan_def)
    then show ?thesis
      using n m pre old ent comp True k leaf_wf[OF l True, of k] parts same diff
      by (auto simp: insertHere_def newSuffix_cases inserted_def compressed_def joins_def)
  next
    case False
    then have "m - 1 = lg_seq L l" using same by simp
    then have "lg_get L (sp_ledger sp) (m - 1) = lg_id L l"
      using pre same anc_self[OF l] by (simp add: wfSpan_def)
    then show ?thesis
      using n m pre old ent comp False k parts diff
      by (auto simp: insertHere_def newSuffix_cases inserted_def compressed_def tip_id_span)
  qed
qed

lemma matchChild_Some:
  assumes "matchChild L l pos cs = Some (i, p)"
  shows "i < length cs" "p = span_diff L (nspan (cs ! i)) l" "pos < p"
  using assms by (induction cs arbitrary: i) (auto simp: Let_def split: if_splits)

lemma matchChild_None: "matchChild L l pos cs = None \<longleftrightarrow> (\<forall>c \<in> set cs. span_diff L (nspan c) l \<le> pos)"
  by (induction cs) (auto simp: Let_def not_less)

lemma wf_childNode:
  assumes "wfNode L ok anc (TrieNode sp t b cs)" "c \<in> set cs"
  shows "wfNode L ok anc c" "wfSpan L ok anc (nspan c)" "joins L anc sp (nspan c)" "compressed c"
  using assms by (auto, cases c, auto)

text \<open>A child that got an insertion in its place.\<close>

lemma inserted_child:
  assumes wf: "wfNode L ok anc (TrieNode sp t b cs)" and i: "i < length cs"
    and c: "inserted l k (cs ! i) c'"
  shows "inserted l k (TrieNode sp t b cs) (TrieNode sp t (b + k) (cs[i := c']))"
proof -
  obtain xs d ys where cs: "cs = xs @ d # ys" and d: "cs ! i = d" and upd: "cs[i := c'] = xs @ c' # ys"
    using id_take_nth_drop[OF i] upd_conv_take_nth_drop[OF i, of c'] by blast
  have old: "joins L anc sp (nspan d)" "compressed d"
    using wf_childNode[OF wf, of d] cs by auto
  have new: "joins L anc sp (nspan c')" "compressed c'" "wfNode L ok anc c'"
    "nbranch c' = nbranch d + k" "sp_ledger (nspan c') = sp_ledger (nspan d)"
    "trieEntries L c' = trieEntries L d + replicate_mset k (lg_id L l)"
    using c d old by (auto simp: inserted_def joins_def)
  show ?thesis
    using wf new unfolding upd unfolding cs by (auto simp: inserted_def compressed_def)
qed

lemma insertFrom_spec:
  assumes "0 < k" "ok l"
  shows "wfNode L ok anc n \<Longrightarrow> sp_start (nspan n) < pos \<Longrightarrow> pos = span_diff L (nspan n) l
    \<Longrightarrow> compressed n \<or> pos = sp_end (nspan n) \<Longrightarrow> findFrom L l pos n = (path, d)
    \<Longrightarrow> \<exists>n'. insertFrom L l k d path n = Some n' \<and> inserted l k n n'"
proof (induction n arbitrary: pos path d)
  case (TrieNode sp t b cs)
  let ?n = "TrieNode sp t b cs"
  have sp: "wfSpan L ok anc sp" using TrieNode.prems(1) by simp
  have reach: "sp_start sp < lg_mismatch L (sp_ledger sp) l"
    using TrieNode.prems span_diff_gt[OF sp assms(2)] by simp
  have pos: "pos = min (lg_mismatch L (sp_ledger sp) l) (sp_end sp)"
    using TrieNode.prems(3) span_diff_reached[OF sp assms(2) reach] by simp
  show ?case
  proof (cases "pos = sp_end sp")
    case False
    then have "path = []" "d = pos" using TrieNode.prems(5) by auto
    moreover have "pos = lg_mismatch L (sp_ledger sp) l" "pos < sp_end sp"
      using pos False by (auto simp: min_def split: if_splits)
    ultimately show ?thesis
      using insert_inside[OF refl TrieNode.prems(1) _ assms(2,1)] reach False TrieNode.prems(4) by auto
  next
    case True
    show ?thesis
    proof (cases "matchChild L l pos cs")
      case None
      have "\<not> sp_end sp < lg_mismatch L (sp_ledger (nspan c)) l" if "c \<in> set cs" for c
        using None that wf_childNode[OF TrieNode.prems(1) that] span_diff_gt[of "nspan c" l] True assms(2)
        by (auto simp: matchChild_None joins_def)
      moreover have "path = []" "d = sp_end sp" using TrieNode.prems(5) True None by auto
      ultimately show ?thesis
        using insert_at_end[OF refl TrieNode.prems(1) assms(2,1)] pos True by auto
    next
      case (Some a)
      then obtain i p where ip: "matchChild L l pos cs = Some (i, p)" by (cases a) auto
      note m = matchChild_Some[OF ip]
      obtain path' where f: "findFrom L l p (cs ! i) = (path', d)" "path = i # path'"
        using TrieNode.prems(5) True ip by (auto split: prod.splits)
      have c: "cs ! i \<in> set cs" using m(1) by simp
      have "\<exists>n'. insertFrom L l k d path' (cs ! i) = Some n' \<and> inserted l k (cs ! i) n'"
        using TrieNode.IH[OF c _ _ m(2) _ f(1)] wf_childNode[OF TrieNode.prems(1) c] m True
        by (auto simp: joins_def)
      then show ?thesis
        using inserted_child[OF TrieNode.prems(1) m(1)] f(2) by auto
    qed
  qed
qed

theorem trie_insert_spec:
  assumes "wfTrie L ok num anc t" "ok l" "0 < k"
  shows "\<exists>t'. trie_insert L l k t = Some t' \<and> wfTrie L ok num anc t'
    \<and> trieEntries L (troot t') = trieEntries L (troot t) + replicate_mset k (lg_id L l)"
proof -
  let ?n = "troot t"
  obtain path d where f: "trie_find L l t = (path, d)" by fastforce
  have n: "wfNode L ok anc ?n" "sp_start (nspan ?n) = 0" "sp_end (nspan ?n) = 1"
    using assms(1) by (auto simp: wfTrie_def)
  then have sp: "wfSpan L ok anc (nspan ?n)" by (cases ?n) auto
  then have led: "ok (sp_ledger (nspan ?n))" by (simp add: wfSpan_def)
  have "0 < lg_mismatch L (sp_ledger (nspan ?n)) l"
    using mismatch_iff[OF led assms(2), of 0] anc_0[OF led assms(2)] by simp
  then have pos: "span_diff L (nspan ?n) l = 1" by (simp add: span_diff_def span_clamp_def n)
  have "\<exists>n'. insertFrom L l k d path ?n = Some n' \<and> inserted l k ?n n'"
    using f pos n by (intro insertFrom_spec[OF assms(3,2), of _ 1]) (auto simp: trie_find_def)
  then obtain n' where n': "insertFrom L l k d path ?n = Some n'" "inserted l k ?n n'" by blast
  have "num (lg_id L l) = lg_seq L l" using num_anc[OF assms(2)] anc_self[OF assms(2)] by fastforce
  then have "supports (om_upd (lg_seq L l) 0 (\<lambda>n. n + k) (seqSupport t))
      (image_mset num (trieEntries L n'))"
    using supports_add[of "seqSupport t" _ k "lg_seq L l"] assms n' by (simp add: wfTrie_def inserted_def)
  then show ?thesis
    using n' n pos f by (auto simp: trie_insert_def wfTrie_def inserted_def)
qed

text \<open>The ledgers at the tips of a subtree descend from the first ledger of its span.\<close>

lemma path_below:
  "wfNode L ok anc n \<Longrightarrow> validPath p n \<Longrightarrow> \<exists>l s. ok l \<and> s \<le> lg_seq L l
     \<and> node_tip L (nodeAt p n) = hist L anc l s \<and> sp_start (nspan n) \<le> s
     \<and> (\<forall>q \<le> sp_start (nspan n). hist L anc l q = hist L anc (sp_ledger (nspan n)) q)"
proof (induction p arbitrary: n)
  case Nil
  then show ?case
    by (cases n, intro exI[of _ "sp_ledger (nspan n)"] exI[of _ "sp_end (nspan n) - 1"])
      (auto simp: wfSpan_def tip_id_span)
next
  case (Cons i p)
  obtain sp t b cs where n: "n = TrieNode sp t b cs" by (cases n)
  let ?c = "cs ! i"
  have c: "?c \<in> set cs" "validPath p ?c" using Cons.prems n by auto
  have wf: "wfNode L ok anc ?c" "wfSpan L ok anc (nspan ?c)" "joins L anc sp (nspan ?c)"
    using wf_childNode[OF Cons.prems(1)[unfolded n] c(1)] by auto
  obtain l s where l: "ok l" "s \<le> lg_seq L l" "node_tip L (nodeAt p ?c) = hist L anc l s"
    "sp_end sp \<le> s" "\<forall>q \<le> sp_end sp. hist L anc l q = hist L anc (sp_ledger (nspan ?c)) q"
    using Cons.IH[OF wf(1) c(2)] wf(3) by (auto simp: joins_def)
  have sp: "wfSpan L ok anc sp" using Cons.prems n by simp
  have "hist L anc (sp_ledger (nspan ?c)) q = hist L anc (sp_ledger sp) q" if "q < sp_end sp" for q
    using that wf(2,3) sp
    by (intro hist_below[of "sp_ledger (nspan ?c)" "sp_ledger sp" "sp_end sp - 1" q])
      (auto simp: wfSpan_def joins_def)
  then have "hist L anc l q = hist L anc (sp_ledger sp) q" if "q \<le> sp_start sp" for q
    using l(5) sp that by (auto simp: wfSpan_def)
  then show ?case using l n sp by (intro exI[of _ l] exI[of _ s]) (auto simp: wfSpan_def)
qed

lemma tip_below:
  assumes "wfNode L ok anc n" "validPath p n"
  shows "sp_start (nspan n) \<le> num (node_tip L (nodeAt p n))"
    "\<forall>q \<le> sp_start (nspan n). anc (node_tip L (nodeAt p n)) q = hist L anc (sp_ledger (nspan n)) q"
proof -
  obtain l s where l: "ok l" "s \<le> lg_seq L l" "node_tip L (nodeAt p n) = hist L anc l s"
    "sp_start (nspan n) \<le> s"
    "\<forall>q \<le> sp_start (nspan n). hist L anc l q = hist L anc (sp_ledger (nspan n)) q"
    using path_below[OF assms] by blast
  show "sp_start (nspan n) \<le> num (node_tip L (nodeAt p n))" using l num_anc[of l s] by simp
  show "\<forall>q \<le> sp_start (nspan n). anc (node_tip L (nodeAt p n)) q
      = hist L anc (sp_ledger (nspan n)) q"
    using l anc_anc[of l _ s] by auto
qed

lemma entry_below:
  assumes "wfNode L ok anc n" "i \<in># trieEntries L n"
  shows "sp_start (nspan n) \<le> num i"
    "\<forall>q \<le> sp_start (nspan n). anc i q = hist L anc (sp_ledger (nspan n)) q"
  using entry_path[OF assms(2)] tip_below[OF assms(1)] by auto

lemma num_tip:
  assumes "wfNode L ok anc n"
  shows "num (node_tip L n) = sp_end (nspan n) - 1"
  using assms num_anc[of "sp_ledger (nspan n)" "sp_end (nspan n) - 1"]
  by (cases n) (auto simp: wfSpan_def tip_id_span)

text \<open>An identifier is the tip of one node only.\<close>

lemma path_count:
  "wfNode L ok anc n \<Longrightarrow> validPath p n \<Longrightarrow>
     count (trieEntries L n) (node_tip L (nodeAt p n)) = ntip (nodeAt p n)"
proof (induction p arbitrary: n)
  case Nil
  obtain sp t b cs where n: "n = TrieNode sp t b cs" by (cases n)
  have "node_tip L n \<notin># trieEntries L c" if "c \<in> set cs" for c
    using entry_below(1)[of c] wf_childNode[OF Nil(1)[unfolded n] that] num_tip[OF Nil(1)] Nil(1) n
    by (fastforce simp: joins_def wfSpan_def)
  then show ?case using n count_sum_list_zero[of cs "node_tip L n" "trieEntries L"] by simp
next
  case (Cons i p)
  obtain sp t b cs where n: "n = TrieNode sp t b cs" by (cases n)
  then have i: "i < length cs" "validPath p (cs ! i)" using Cons.prems by auto
  obtain xs d ys where cs: "cs = xs @ d # ys" and d: "cs ! i = d"
    using id_take_nth_drop[OF i(1)] by blast
  let ?x = "node_tip L (nodeAt p d)"
  note wf = wf_childNode[OF Cons.prems(1)[unfolded n]]
  have d_wf: "wfNode L ok anc d" "sp_start (nspan d) = sp_end sp"
    using wf[of d] cs by (auto simp: joins_def)
  note x = tip_below[OF d_wf(1) i(2)[unfolded d]]
  have "?x \<notin># trieEntries L c" if "c \<in> set xs \<union> set ys" for c
  proof
    assume "?x \<in># trieEntries L c"
    moreover have "c \<in> set cs" using cs that by auto
    ultimately have "anc ?x (sp_end sp) = hist L anc (sp_ledger (nspan c)) (sp_end sp)"
      using entry_below(2)[of c ?x] wf[of c] by (auto simp: joins_def)
    moreover have "anc ?x (sp_end sp) = hist L anc (sp_ledger (nspan d)) (sp_end sp)"
      using x(2) d_wf(2) by auto
    ultimately show False using Cons.prems(1) n cs that by force
  qed
  then have "count (sum_list (map (trieEntries L) xs)) ?x = 0"
    "count (sum_list (map (trieEntries L) ys)) ?x = 0"
    using count_sum_list_zero[of xs ?x "trieEntries L"] count_sum_list_zero[of ys ?x "trieEntries L"]
    by auto
  moreover have "?x \<noteq> node_tip L n"
    using x(1) d_wf(2) num_tip[OF Cons.prems(1)] Cons.prems(1) n by (auto simp: wfSpan_def)
  moreover have "count (trieEntries L d) ?x = ntip (nodeAt p d)"
    using Cons.IH[OF d_wf(1)] i(2) d by simp
  ultimately show ?case using n d cs by simp
qed

end

end
