(* ===== verification/Ledger_Trie_Ops.thy ===== *)
theory Ledger_Trie_Ops
  imports Ledger_Trie_Inv
begin

text \<open>
  Removal from the ledger trie, its queries, and its own invariant check: removal keeps the trie
  compressed and takes occurrences from the multiset of entries; \<open>tipSupport\<close> and
  \<open>branchSupport\<close> count entries; \<open>checkInvariants\<close> accepts every trie that satisfies the
  invariant.
\<close>

text \<open>
  An identifier is that of the ledger with a given sequence number and identifier, or of a
  descendant of it.
\<close>

definition descends ::
  "(uint256 \<Rightarrow> nat) \<Rightarrow> (uint256 \<Rightarrow> nat \<Rightarrow> uint256) \<Rightarrow> nat \<Rightarrow> uint256 \<Rightarrow> uint256 \<Rightarrow> bool" where
  "descends num anc q x i \<longleftrightarrow> q \<le> num i \<and> anc i q = x"

lemma swapErase_append: "i < length xs \<Longrightarrow> swapErase i (xs @ [y]) = xs[i := y]"
  by (simp add: swapErase_def list_update_append)

lemma swapErase_mset:
  assumes "i < length xs"
  shows "mset (swapErase i xs) = mset xs - {#xs ! i#}"
proof (cases xs rule: rev_cases)
  case (snoc ys y)
  show ?thesis
  proof (cases "i = length ys")
    case True
    then show ?thesis using snoc by (simp add: swapErase_def)
  next
    case False
    then have "i < length ys" using assms snoc by simp
    then show ?thesis using snoc
      by (simp add: swapErase_append mset_update nth_append add_mset_commute)
  qed
qed (use assms in simp)

lemma filter_sum_list_empty:
  "\<forall>d \<in> set zs. filter_mset P (f d) = {#} \<Longrightarrow> filter_mset P (sum_list (map f zs)) = {#}"
  by (induction zs) auto

lemma diff_replicate_min:
  assumes "M = E + replicate_mset (min k (count M x)) x"
  shows "M - replicate_mset k x = E"
proof (rule multiset_eqI)
  fix y
  obtain n where n: "n = min k (count M x)" "M = E + replicate_mset n x" using assms by blast
  have "count M x = count E x + n" unfolding n(2) by simp
  then have "count M x - k = count E x" using n(1) by linarith
  then show "count (M - replicate_mset k x) y = count E y" unfolding n(2) by simp
qed

context ledger_history
begin

definition removed :: "uint256 \<Rightarrow> nat \<Rightarrow> 'l TrieNode \<Rightarrow> 'l TrieNode \<Rightarrow> bool" where
  "removed x k n n' \<longleftrightarrow> wfNode L ok anc n' \<and> nspan n' = nspan n
     \<and> trieEntries L n = trieEntries L n' + replicate_mset k x \<and> nbranch n = nbranch n' + k"

text \<open>A child is replaced by one with fewer entries.\<close>

lemma removed_child:
  assumes wf: "wfNode L ok anc (TrieNode sp t b cs)" and i: "i < length cs" "cs ! i = d"
    and c: "wfNode L ok anc c'" "joins L anc sp (nspan c')" "compressed c'"
      "hist L anc (sp_ledger (nspan c')) (sp_end sp) = hist L anc (sp_ledger (nspan d)) (sp_end sp)"
      "trieEntries L d = trieEntries L c' + replicate_mset k x" "nbranch d = nbranch c' + k"
  shows "removed x k (TrieNode sp t b cs) (TrieNode sp t (b - k) (cs[i := c']))"
proof -
  obtain xs ys where cs: "cs = xs @ d # ys" and upd: "cs[i := c'] = xs @ c' # ys"
    using id_take_nth_drop[OF i(1)] upd_conv_take_nth_drop[OF i(1), of c'] i(2) by blast
  show ?thesis
    using wf c unfolding upd unfolding cs by (auto simp: removed_def)
qed

text \<open>A child without entries is erased.\<close>

lemma erased_child:
  assumes wf: "wfNode L ok anc (TrieNode sp t b cs)" and i: "i < length cs" "cs ! i = d"
    and d: "trieEntries L d = replicate_mset k x" "nbranch d = k"
  shows "removed x k (TrieNode sp t b cs) (TrieNode sp t (b - k) (swapErase i (cs[i := c'])))"
proof -
  obtain xs ys where cs: "cs = xs @ d # ys" and upd: "cs[i := c'] = xs @ c' # ys"
    and len: "length xs = i"
    using id_take_nth_drop[OF i(1)] upd_conv_take_nth_drop[OF i(1), of c'] i by (metis length_take min.absorb4)
  let ?zs = "swapErase i (cs[i := c'])"
  have zs: "mset ?zs = mset (xs @ ys)"
    using swapErase_mset[of i "cs[i := c']"] i len unfolding upd by (simp add: cs nth_append)
  have "set ?zs = set (xs @ ys)" using zs by (metis set_mset_mset)
  moreover have "distinct (map f ?zs) = distinct (map f (xs @ ys))" for f :: "'l TrieNode \<Rightarrow> uint256"
    using zs by (metis mset_map mset_eq_imp_distinct_iff)
  moreover have "sum_list (map f ?zs) = sum_list (map f (xs @ ys))" for f :: "'l TrieNode \<Rightarrow> nat"
    using zs by (metis mset_map sum_mset_sum_list)
  moreover have "sum_list (map f ?zs) = sum_list (map f (xs @ ys))"
    for f :: "'l TrieNode \<Rightarrow> uint256 multiset"
    using zs by (metis mset_map sum_mset_sum_list)
  ultimately show ?thesis
    using wf d unfolding cs by (auto simp: removed_def)
qed

text \<open>A node without tip support is merged with its only child.\<close>

lemma merged_child:
  assumes c: "wfNode L ok anc (TrieNode csp 0 b [d])"
    and j: "sp_start csp = sp_end sp" "joins L anc sp csp"
  obtains m where "span_merge csp (nspan d) = Some m"
    "wfNode L ok anc (TrieNode m (ntip d) (nbranch d) (nchildren d))" "joins L anc sp m"
    "compressed (TrieNode m (ntip d) (nbranch d) (nchildren d))"
    "hist L anc (sp_ledger m) (sp_end sp) = hist L anc (sp_ledger csp) (sp_end sp)"
    "trieEntries L (TrieNode m (ntip d) (nbranch d) (nchildren d)) = trieEntries L (TrieNode csp 0 b [d])"
    "nbranch d = b"
proof -
  obtain dsp t b' cs where d: "d = TrieNode dsp t b' cs" by (cases d)
  let ?m = "\<lparr>sp_start = sp_start csp, sp_end = sp_end dsp, sp_ledger = sp_ledger dsp\<rparr>"
  note wf = wf_childNode[OF c, of d, simplified]
  have csp: "wfSpan L ok anc csp" using c by simp
  have dsp: "wfSpan L ok anc dsp" "joins L anc csp dsp" using wf d by auto
  have below: "hist L anc (sp_ledger dsp) q = hist L anc (sp_ledger csp) q" if "q < sp_end csp" for q
    using that dsp csp
    by (intro hist_below[of "sp_ledger dsp" "sp_ledger csp" "sp_end csp - 1" q])
      (auto simp: wfSpan_def joins_def)
  have "span_merge csp dsp = Some ?m"
    using csp dsp by (auto simp: span_merge_def wfSpan_def joins_def Let_def)
  moreover have "wfNode L ok anc (TrieNode ?m t b' cs)"
    using wf(1) d csp dsp by (auto simp: wfSpan_def joins_def)
  moreover have "joins L anc sp ?m" "hist L anc (sp_ledger ?m) (sp_end sp) = hist L anc (sp_ledger csp) (sp_end sp)"
    using j below csp by (auto simp: joins_def wfSpan_def)
  moreover have "compressed (TrieNode ?m t b' cs)" using wf(4) d by (simp add: compressed_def)
  ultimately show thesis
    using that[of ?m] c d by (simp add: tip_id_span)
qed

lemma removeFrom_spec:
  "wfNode L ok anc n \<Longrightarrow> validPath p n \<Longrightarrow> k \<le> ntip (nodeAt p n) \<Longrightarrow>
     \<exists>r n'. removeFrom k p n = Some (r, n') \<and> removed (node_tip L (nodeAt p n)) k n n'
       \<and> (\<not> r \<longrightarrow> compressed n \<longrightarrow> compressed n')"
proof (induction p arbitrary: n)
  case Nil
  obtain sp t b cs where n: "n = TrieNode sp t b cs" by (cases n)
  have "replicate_mset t x = replicate_mset (t - k) x + replicate_mset k x" for x :: uint256
    using Nil n replicate_mset_sum[of "t - k" k x] by simp
  then show ?case using Nil n by (auto simp: removed_def)
next
  case (Cons i p)
  obtain sp t b cs where n: "n = TrieNode sp t b cs" by (cases n)
  let ?x = "node_tip L (nodeAt (i # p) n)"
  define d where d: "d = cs ! i"
  have i: "i < length cs" "cs ! i = d" "validPath p d" "k \<le> ntip (nodeAt p d)"
    and x: "?x = node_tip L (nodeAt p d)"
    using Cons.prems n d by auto
  note wf = Cons.prems(1)[unfolded n]
  have dw: "wfNode L ok anc d" "joins L anc sp (nspan d)" "compressed d"
    using wf_childNode[OF wf, of d] i(1,2) nth_mem by blast+
  obtain r c where c: "removeFrom k p d = Some (r, c)" "removed ?x k d c"
    "\<not> r \<longrightarrow> compressed d \<longrightarrow> compressed c"
    using Cons.IH[OF dw(1) i(3,4)] x by auto
  have cw: "wfNode L ok anc c" "joins L anc sp (nspan c)" "nspan c = nspan d"
    "trieEntries L d = trieEntries L c + replicate_mset k ?x" "nbranch d = nbranch c + k"
    using c(2) dw(2) by (auto simp: removed_def)
  show ?case
  proof (cases "compressed c")
    case True
    have "removeFrom k (i # p) n = Some (False, TrieNode sp t (b - k) (cs[i := c]))"
      using n c(1) i(2) True
      by (auto simp: compressed_def Let_def split: list.splits)
    then show ?thesis
      using removed_child[OF wf i(1,2) cw(1,2) True _ cw(4,5)] cw(3) n by (auto simp: compressed_def)
  next
    case False
    then have r: "r" "ntip c = 0" "length (nchildren c) < 2" using c(3) dw(3) by (auto simp: compressed_def)
    obtain csp cb ccs where cc: "c = TrieNode csp 0 cb ccs" using r(2) by (cases c) auto
    show ?thesis
    proof (cases ccs)
      case Nil
      then have "trieEntries L d = replicate_mset k ?x" "nbranch d = k" using cw cc by auto
      then show ?thesis
        using erased_child[OF wf i(1,2), of k ?x c] n c(1) i(2) r(1) cc Nil by auto
    next
      case (Cons e es)
      then have e: "ccs = [e]" using r(3) cc by auto
      have cj: "wfNode L ok anc (TrieNode csp 0 cb [e])" "sp_start csp = sp_end sp" "joins L anc sp csp"
        using cw(1,2) cc e by (auto simp: joins_def)
      obtain m where m: "span_merge csp (nspan e) = Some m"
        "wfNode L ok anc (TrieNode m (ntip e) (nbranch e) (nchildren e))" "joins L anc sp m"
        "compressed (TrieNode m (ntip e) (nbranch e) (nchildren e))"
        "hist L anc (sp_ledger m) (sp_end sp) = hist L anc (sp_ledger csp) (sp_end sp)"
        "trieEntries L (TrieNode m (ntip e) (nbranch e) (nchildren e)) = trieEntries L (TrieNode csp 0 cb [e])"
        "nbranch e = cb"
        by (rule merged_child[OF cj])
      then have "removed ?x k (TrieNode sp t b cs) (TrieNode sp t (b - k)
          (cs[i := TrieNode m (ntip e) (nbranch e) (nchildren e)]))"
        using cw(3,4,5) cc e
        by (intro removed_child[OF wf i(1,2)]) auto
      then show ?thesis
        using n c(1) i r(1) cc e m(1) by (auto simp: swapErase_append)
    qed
  qed
qed

text \<open>Removing occurrences of an identifier that has some.\<close>

lemma num_id: "ok l \<Longrightarrow> num (lg_id L l) = lg_seq L l"
  using num_anc[of l "lg_seq L l"] anc_self[of l] by simp

lemma count_num: "count M x \<le> count (image_mset num M) (num x)"
  by (induction M) auto

lemma trie_lookup:
  assumes "wfTrie L ok num anc t"
  shows "(case findByLedgerID L x (troot t) of
      None \<Rightarrow> count (trieEntries L (troot t)) x = 0
    | Some p \<Rightarrow> validPath p (troot t) \<and> node_tip L (nodeAt p (troot t)) = x
        \<and> count (trieEntries L (troot t)) x = ntip (nodeAt p (troot t)))"
  using assms findByLedgerID_Some(1)[of L x "troot t"] findByLedgerID_None(1)[of L x "troot t"]
    path_count[of "troot t"]
  by (auto simp: wfTrie_def not_in_iff split: option.split)

text \<open>Removal takes occurrences of the identifier, as far as there are any, and tells whether.\<close>

theorem trie_remove_spec:
  assumes wf: "wfTrie L ok num anc t" and l: "ok l"
  shows "\<exists>t'. trie_remove L l k t = Some (lg_id L l \<in># trieEntries L (troot t), t')
    \<and> wfTrie L ok num anc t'
    \<and> trieEntries L (troot t') = trieEntries L (troot t) - replicate_mset k (lg_id L l)"
proof -
  let ?M = "trieEntries L (troot t)" and ?x = "lg_id L l"
  let ?N = "image_mset num ?M"
  have node: "wfNode L ok anc (troot t)" using wf by (simp add: wfTrie_def)
  show ?thesis
  proof (cases "count ?M ?x = 0")
    case True
    moreover have "?M - replicate_mset k ?x = ?M" using True by (intro multiset_eqI) auto
    ultimately show ?thesis
      using trie_lookup[OF wf, of ?x] wf by (auto simp: trie_remove_def not_in_iff split: option.splits)
  next
    case False
    then obtain p where p: "findByLedgerID L ?x (troot t) = Some p" "validPath p (troot t)"
      "node_tip L (nodeAt p (troot t)) = ?x" "ntip (nodeAt p (troot t)) = count ?M ?x"
      using trie_lookup[OF wf, of ?x] by (auto split: option.splits simp flip: not_in_iff)
    define n where "n = min k (count ?M ?x)"
    obtain r t' where r: "removeFrom n p (troot t) = Some (r, t')" "removed ?x n (troot t) t'"
      using removeFrom_spec[OF node p(2), of n] p(3,4) n_def by auto
    have ent: "?M = trieEntries L t' + replicate_mset n ?x" using r(2) by (simp add: removed_def)
    have M: "?M - replicate_mset k ?x = trieEntries L t'"
      by (rule diff_replicate_min[OF ent[unfolded n_def]])
    have N: "image_mset num (trieEntries L t') = ?N - replicate_mset n (lg_seq L l)"
      using num_id[OF l] by (subst ent) simp
    have sup: "count ?M ?x \<le> count ?N (lg_seq L l)" using count_num[of ?M ?x] num_id[OF l] by simp
    have look: "map_of (seqSupport t) (lg_seq L l) = Some (count ?N (lg_seq L l))"
      and supp: "supports (seqSupport t) ?N"
      using wf False num_id[OF l] by (auto simp: wfTrie_def supports_def intro!: image_eqI[of _ num ?x])
    define ss where "ss = (if count ?N (lg_seq L l) - n = 0 then AList.delete (lg_seq L l) (seqSupport t)
        else om_upd (lg_seq L l) 0 (\<lambda>_. count ?N (lg_seq L l) - n) (seqSupport t))"
    have "supports ss (image_mset num (trieEntries L t'))"
      using supports_delete[OF supp, of "lg_seq L l"] supports_reduce[OF supp, of n "lg_seq L l"] sup
      unfolding ss_def N by (cases "n = count ?N (lg_seq L l)") (auto simp: n_def)
    then have "wfTrie L ok num anc \<lparr>troot = t', seqSupport = ss\<rparr>"
      using wf r(2) by (simp add: wfTrie_def removed_def)
    moreover have "trie_remove L l k t = Some (True, \<lparr>troot = t', seqSupport = ss\<rparr>)"
      using p(1,4) False look sup r(1) by (auto simp: trie_remove_def ss_def n_def Let_def assertThat_def)
    ultimately show ?thesis using M False by (auto simp: count_greater_zero_iff[symmetric] simp del: count_greater_zero_iff)
  qed
qed

text \<open>The tip support of a ledger is the number of entries for it.\<close>

theorem trie_tipSupport_spec:
  assumes "wfTrie L ok num anc t"
  shows "trie_tipSupport L l t = count (trieEntries L (troot t)) (lg_id L l)"
  using trie_lookup[OF assms, of "lg_id L l"] by (auto simp: trie_tipSupport_def split: option.splits)

text \<open>The invariant check of the code accepts a well-formed trie.\<close>

lemma checkLoop_spec:
  "\<forall>(r, n) \<in> set nodes. wfNode L ok anc n \<and> (r \<or> compressed n) \<Longrightarrow> supports expected N \<Longrightarrow>
     \<exists>e. checkLoop nodes expected = Some e
       \<and> supports e (N + sum_list (map (image_mset num \<circ> trieEntries L \<circ> snd) nodes))"
proof (induction nodes expected arbitrary: N rule: checkLoop.induct)
  case (1 expected)
  then show ?case by simp
next
  case (2 r sp t b cs nodes expected)
  let ?n = "TrieNode sp t b cs" and ?N = "N + replicate_mset t (sp_end sp - 1)"
  let ?ex = "if t \<noteq> 0 then om_upd (sp_end sp - 1) 0 (\<lambda>n. n + t) expected else expected"
  have n: "wfNode L ok anc ?n" "r \<or> compressed ?n" using "2.prems"(1) by auto
  have ok1: "\<not> (\<not> r \<and> t = 0 \<and> length cs < 2)" using n(2) by (auto simp: compressed_def)
  have ok2: "\<not> t + sum_list (map nbranch cs) \<noteq> b" using n(1) by simp
  have all: "\<forall>(r, n) \<in> set (rev (map (Pair False) cs) @ nodes). wfNode L ok anc n \<and> (r \<or> compressed n)"
    using "2.prems"(1) by auto
  have ex: "supports ?ex ?N" using supports_add[OF "2.prems"(2), of t] "2.prems"(2) by auto
  obtain e where e: "checkLoop (rev (map (Pair False) cs) @ nodes) ?ex = Some e"
    "supports e (?N + sum_list (map (image_mset num \<circ> trieEntries L \<circ> snd)
       (rev (map (Pair False) cs) @ nodes)))"
    using "2.IH"[OF ok1 ok2 all ex] by blast
  have "sum_list (map (image_mset num \<circ> trieEntries L \<circ> snd) (rev (map (Pair False) cs)))
      = image_mset num (sum_list (map (trieEntries L) cs))"
    by (simp add: image_mset_sum_list rev_map sum_list_rev comp_def flip: rev_map)
  then show ?case
    using e ok1 ok2 num_tip[OF n(1)] by (simp add: add.assoc comp_def)
qed

theorem checkInvariants_wf:
  assumes "wfTrie L ok num anc t"
  shows "checkInvariants t"
proof -
  have "\<exists>e. checkLoop [(True, troot t)] [] = Some e
      \<and> supports e ({#} + sum_list (map (image_mset num \<circ> trieEntries L \<circ> snd) [(True, troot t)]))"
    using assms by (intro checkLoop_spec) (auto simp: wfTrie_def supports_Nil)
  then show ?thesis
    using assms supports_unique by (auto simp: checkInvariants_def wfTrie_def)
qed

section \<open>Branches\<close>

abbreviation covers :: "nat \<Rightarrow> uint256 \<Rightarrow> uint256 \<Rightarrow> bool" where
  "covers \<equiv> descends num anc"

lemmas covers_def = descends_def[of num anc]

lemma entry_ok:
  assumes "wfNode L ok anc n" "i \<in># trieEntries L n"
  obtains l where "ok l" "num i \<le> lg_seq L l" "i = hist L anc l (num i)"
  using entry_path[OF assms(2)] path_below[OF assms(1)] num_anc by metis

lemma covers_trans:
  assumes "wfNode L ok anc n" "i \<in># trieEntries L n" "covers q (hist L anc a q) i" "ok a"
    "q \<le> lg_seq L a" "q' \<le> q"
  shows "covers q' (hist L anc a q') i"
proof -
  obtain l where l: "ok l" "num i \<le> lg_seq L l" "i = hist L anc l (num i)"
    using entry_ok[OF assms(1,2)] .
  have "anc i q = hist L anc l q" "anc i q' = hist L anc l q'"
    using anc_anc[OF l(1), of _ "num i"] l(2,3) assms(3,6) by (metis covers_def le_trans)+
  then show ?thesis
    using assms hist_below[OF l(1) assms(4), of q q'] l(2) by (auto simp: covers_def)
qed

lemma path_ledger:
  "wfNode L ok anc n \<Longrightarrow> validPath p n \<Longrightarrow> wfNode L ok anc (nodeAt p n)
     \<and> sp_start (nspan n) \<le> sp_start (nspan (nodeAt p n))
     \<and> (\<forall>q \<le> sp_start (nspan n).
          hist L anc (sp_ledger (nspan (nodeAt p n))) q = hist L anc (sp_ledger (nspan n)) q)"
proof (induction p arbitrary: n)
  case (Cons i p)
  obtain sp t b cs where n: "n = TrieNode sp t b cs" by (cases n)
  let ?c = "cs ! i"
  have c: "?c \<in> set cs" "validPath p ?c" using Cons.prems n by auto
  note wf = wf_childNode[OF Cons.prems(1)[unfolded n] c(1)]
  have sp: "wfSpan L ok anc sp" using Cons.prems n by simp
  have "hist L anc (sp_ledger (nspan ?c)) q = hist L anc (sp_ledger sp) q" if "q < sp_end sp" for q
    using that wf(2,3) sp
    by (intro hist_below[of "sp_ledger (nspan ?c)" "sp_ledger sp" "sp_end sp - 1" q])
      (auto simp: wfSpan_def joins_def)
  then show ?case
    using Cons.IH[OF wf(1) c(2)] wf(3) sp n by (auto simp: joins_def wfSpan_def)
qed simp

lemma child_covers:
  assumes "wfNode L ok anc (TrieNode sp t b cs)" "c \<in> set cs" "i \<in># trieEntries L c"
  shows "covers (sp_end sp) (hist L anc (sp_ledger (nspan c)) (sp_end sp)) i"
  using entry_below[OF wf_childNode(1)[OF assms(1,2)] assms(3)] wf_childNode(3)[OF assms(1,2)]
  by (auto simp: covers_def joins_def)

lemma span_covers:
  assumes wf: "wfNode L ok anc n" and i: "i \<in># trieEntries L n" and q: "q < sp_end (nspan n)"
  shows "covers q (hist L anc (sp_ledger (nspan n)) q) i"
proof -
  obtain sp t b cs where n: "n = TrieNode sp t b cs" by (cases n)
  have sp: "wfSpan L ok anc sp" using wf n by simp
  have tip: "covers (sp_end sp - 1) (hist L anc (sp_ledger sp) (sp_end sp - 1)) i"
  proof (cases "i = node_tip L n")
    case True
    then show ?thesis
      using num_tip[OF wf] anc_anc[of "sp_ledger sp" "sp_end sp - 1" "sp_end sp - 1"] n sp
      by (auto simp: covers_def wfSpan_def tip_id_span)
  next
    case False
    then obtain c where c: "c \<in> set cs" "i \<in># trieEntries L c" using i n by (auto split: if_splits)
    note cw = wf_childNode[OF wf[unfolded n] c(1)]
    have "covers (sp_end sp - 1) (hist L anc (sp_ledger (nspan c)) (sp_end sp - 1)) i"
      using cw(2,3)
      by (intro covers_trans[OF cw(1) c(2) child_covers[OF wf[unfolded n] c]])
        (auto simp: wfSpan_def joins_def)
    then show ?thesis using cw(3) by (simp add: joins_def)
  qed
  then show ?thesis
    using covers_trans[OF wf i tip] sp q n by (auto simp: wfSpan_def)
qed

text \<open>A child has those entries of its parent that descend from its first ledger.\<close>

lemma child_filter:
  assumes wf: "wfNode L ok anc (TrieNode sp t b cs)" and c: "c \<in> set cs"
  shows "filter_mset (covers (sp_end sp) (hist L anc (sp_ledger (nspan c)) (sp_end sp)))
    (trieEntries L (TrieNode sp t b cs)) = trieEntries L c"
proof -
  let ?P = "covers (sp_end sp) (hist L anc (sp_ledger (nspan c)) (sp_end sp))"
  have "wfSpan L ok anc sp" using wf by simp
  then have "\<not> ?P (node_tip L (TrieNode sp t b cs))"
    using num_tip[OF wf] by (auto simp: covers_def wfSpan_def)
  then have tip: "filter_mset ?P (replicate_mset t (tip_id (span_tip L sp))) = {#}"
    by (auto split: if_splits)
  have other: "filter_mset ?P (trieEntries L d) = {#}"
    if "d \<in> set cs" "hist L anc (sp_ledger (nspan d)) (sp_end sp)
      \<noteq> hist L anc (sp_ledger (nspan c)) (sp_end sp)" for d
    using child_covers[OF wf that(1)] that(2) by (auto simp: covers_def)
  have same: "filter_mset ?P (trieEntries L c) = trieEntries L c"
    using child_covers[OF wf c] by (auto simp: filter_mset_eq_conv)
  obtain xs ys where cs: "cs = xs @ c # ys" using split_list[OF c] by blast
  let ?key = "\<lambda>c. hist L anc (sp_ledger (nspan c)) (sp_end sp)"
  have "?key c \<notin> ?key ` (set xs \<union> set ys)" using wf unfolding cs by auto
  then have "?key d \<noteq> ?key c" if "d \<in> set xs \<union> set ys" for d
    using imageI[OF that, of ?key] by (elim contrapos_nn) simp
  then have "filter_mset ?P (trieEntries L d) = {#}" if "d \<in> set xs \<union> set ys" for d
    using that by (intro other) (auto simp: cs)
  then have "\<forall>d \<in> set xs. filter_mset ?P (trieEntries L d) = {#}"
    "\<forall>d \<in> set ys. filter_mset ?P (trieEntries L d) = {#}" by blast+
  note empty = this[THEN filter_sum_list_empty]
  show ?thesis using tip same empty unfolding cs by simp
qed

lemma subtree_filter:
  "wfNode L ok anc n \<Longrightarrow> validPath p n \<Longrightarrow> sp_start (nspan (nodeAt p n)) \<le> q
     \<Longrightarrow> q < sp_end (nspan (nodeAt p n))
     \<Longrightarrow> filter_mset (covers q (hist L anc (sp_ledger (nspan (nodeAt p n))) q)) (trieEntries L n)
       = trieEntries L (nodeAt p n)"
proof (induction p arbitrary: n)
  case Nil
  then show ?case using span_covers[of n] by (auto simp: filter_mset_eq_conv)
next
  case (Cons i p)
  obtain sp t b cs where n: "n = TrieNode sp t b cs" by (cases n)
  let ?c = "cs ! i" and ?m = "nodeAt p (cs ! i)"
  have c: "?c \<in> set cs" "validPath p ?c" using Cons.prems n by auto
  note wf = Cons.prems(1)[unfolded n]
  note cw = wf_childNode[OF wf c(1)]
  note pl = path_ledger[OF cw(1) c(2)]
  have start: "sp_start (nspan ?c) = sp_end sp" using cw(3) by (simp add: joins_def)
  have m: "ok (sp_ledger (nspan ?m))" "q \<le> lg_seq L (sp_ledger (nspan ?m))"
    using pl Cons.prems(4) n by (cases ?m, auto simp: wfSpan_def)+
  let ?Q = "covers q (hist L anc (sp_ledger (nspan ?m)) q)"
  let ?P = "covers (sp_end sp) (hist L anc (sp_ledger (nspan ?c)) (sp_end sp))"
  have "filter_mset ?Q (trieEntries L n) = filter_mset ?Q (filter_mset ?P (trieEntries L n))"
    unfolding filter_filter_mset
  proof (rule filter_mset_cong[OF refl])
    fix x assume x: "x \<in># trieEntries L n"
    have "?P x" if "?Q x"
      using covers_trans[OF Cons.prems(1) x that m, of "sp_end sp"] pl start Cons.prems(3) n by auto
    then show "?Q x \<longleftrightarrow> ?P x \<and> ?Q x" by blast
  qed
  also have "\<dots> = filter_mset ?Q (trieEntries L ?c)" using child_filter[OF wf c(1)] n by simp
  also have "\<dots> = trieEntries L ?m" using Cons.IH[OF cw(1) c(2)] Cons.prems n by simp
  finally show ?case using n by simp
qed

lemma entry_outside:
  assumes n: "wfNode L ok anc n" "i \<in># trieEntries L n" and l: "ok l" "q \<le> lg_seq L l"
    and i: "covers (lg_seq L l) (lg_id L l) i"
  shows "covers q (hist L anc l q) i"
  using covers_trans[OF n _ l(1) order_refl l(2)] i anc_self[OF l(1)] by simp

text \<open>When the search ends before the ledger, no entry of the node is a descendant of it.\<close>

lemma find_end:
  assumes wf: "wfNode L ok anc n" and l: "ok l" and d: "d \<le> lg_seq L l"
    and m: "d = min (lg_mismatch L (sp_ledger (nspan n)) l) (sp_end (nspan n))"
    and none: "d = sp_end (nspan n) \<Longrightarrow>
      \<forall>c \<in> set (nchildren n). \<not> d < lg_mismatch L (sp_ledger (nspan c)) l"
    and i: "i \<in># trieEntries L n"
  shows "\<not> covers (lg_seq L l) (lg_id L l) i"
proof
  assume "covers (lg_seq L l) (lg_id L l) i"
  then have di: "covers d (hist L anc l d) i" by (rule entry_outside[OF wf i l d])
  obtain sp t b cs where n: "n = TrieNode sp t b cs" by (cases n)
  have sp: "wfSpan L ok anc sp" using wf n by simp
  show False
  proof (cases "d = sp_end sp")
    case False
    then have "d = lg_mismatch L (sp_ledger sp) l" "d < sp_end sp" using m n by (auto simp: min_def split: if_splits)
    moreover from this have "covers d (hist L anc (sp_ledger sp) d) i"
      using span_covers[OF wf i, of d] n by simp
    ultimately show False
      using di mismatch_iff[of "sp_ledger sp" l d] sp l d by (auto simp: covers_def wfSpan_def)
  next
    case True
    then have "i \<noteq> node_tip L n"
      using di num_tip[OF wf] n sp by (auto simp: covers_def wfSpan_def)
    then obtain c where c: "c \<in> set cs" "i \<in># trieEntries L c" using i n by (auto split: if_splits)
    note cw = wf_childNode[OF wf[unfolded n] c(1)]
    have "d < lg_mismatch L (sp_ledger (nspan c)) l"
      using child_covers[OF wf[unfolded n] c] di True cw(2,3) l d
        mismatch_iff[of "sp_ledger (nspan c)" l d]
      by (auto simp: covers_def wfSpan_def joins_def)
    then show False using none True n c(1) by auto
  qed
qed

lemma find_spec:
  assumes "ok l"
  shows "wfNode L ok anc n \<Longrightarrow> sp_start (nspan n) < pos \<Longrightarrow> pos = span_diff L (nspan n) l
    \<Longrightarrow> findFrom L l pos n = (path, d)
    \<Longrightarrow> validPath path n
      \<and> sp_start (nspan (nodeAt path n)) < d
      \<and> d = min (lg_mismatch L (sp_ledger (nspan (nodeAt path n))) l) (sp_end (nspan (nodeAt path n)))
      \<and> (d \<le> lg_seq L l \<longrightarrow> (\<forall>i \<in># trieEntries L n. \<not> covers (lg_seq L l) (lg_id L l) i))"
proof (induction n arbitrary: pos path d)
  case (TrieNode sp t b cs)
  note wf = TrieNode.prems(1)
  have sp: "wfSpan L ok anc sp" using wf by simp
  have reach: "sp_start sp < lg_mismatch L (sp_ledger sp) l"
    using TrieNode.prems span_diff_gt[OF sp assms] by simp
  have pos: "pos = min (lg_mismatch L (sp_ledger sp) l) (sp_end sp)"
    using TrieNode.prems(3) span_diff_reached[OF sp assms reach] by simp
  show ?case
  proof (cases "pos = sp_end sp \<and> matchChild L l pos cs \<noteq> None")
    case False
    then have pd: "path = []" "d = pos" using TrieNode.prems(4) by (auto split: if_splits option.splits)
    have none: "\<forall>c \<in> set cs. \<not> d < lg_mismatch L (sp_ledger (nspan c)) l" if "d = sp_end sp"
    proof
      fix c assume c: "c \<in> set cs"
      show "\<not> d < lg_mismatch L (sp_ledger (nspan c)) l"
        using False that pd c wf_childNode[OF wf c] span_diff_gt[of "nspan c" l] assms
        by (auto simp: matchChild_None joins_def)
    qed
    show ?thesis
      using pd pos reach sp find_end[OF wf assms, of d] none by (auto simp: wfSpan_def)
  next
    case True
    then obtain i p where ip: "matchChild L l pos cs = Some (i, p)" by auto
    note m = matchChild_Some[OF ip]
    obtain path' where f: "findFrom L l p (cs ! i) = (path', d)" "path = i # path'"
      using TrieNode.prems(4) True ip by (auto split: prod.splits)
    have c: "cs ! i \<in> set cs" using m(1) by simp
    note cw = wf_childNode[OF wf c]
    have start: "sp_start (nspan (cs ! i)) < p" "sp_start (nspan (cs ! i)) = sp_end sp"
      using cw(3) m(3) True by (auto simp: joins_def)
    note IH = TrieNode.IH[OF c cw(1) start(1) m(2) f(1)]
    have "sp_end sp < lg_mismatch L (sp_ledger (nspan (cs ! i))) l"
      using span_diff_gt[OF cw(2) assms] start m(2) by simp
    then have e: "sp_end sp \<le> lg_seq L l"
      "hist L anc (sp_ledger (nspan (cs ! i))) (sp_end sp) = hist L anc l (sp_end sp)"
      using mismatch_iff[of "sp_ledger (nspan (cs ! i))" l] cw(2) assms by (auto simp: wfSpan_def)
    have "x \<in># trieEntries L (cs ! i)"
      if "x \<in># trieEntries L (TrieNode sp t b cs)" "covers (lg_seq L l) (lg_id L l) x" for x
      using entry_outside[OF wf that(1) assms e(1) that(2)] that(1)
      unfolding child_filter[OF wf c, symmetric] e(2) by simp
    then show ?thesis using IH m(1) f(2) by auto
  qed
qed

lemma root_reached:
  assumes "wfTrie L ok num anc t" "ok l"
  shows "sp_start (nspan (troot t)) < span_diff L (nspan (troot t)) l"
proof -
  let ?sp = "nspan (troot t)"
  have led: "ok (sp_ledger ?sp)" and sp: "sp_start ?sp = 0" "sp_end ?sp = 1"
    using assms(1) by (auto simp: wfTrie_def, cases "troot t", auto simp: wfSpan_def)
  have "0 < lg_mismatch L (sp_ledger ?sp) l"
    using mismatch_iff[OF led assms(2), of 0] anc_0[OF led assms(2)] by simp
  then show ?thesis by (simp add: span_diff_def span_clamp_def sp)
qed

text \<open>The branch support of a ledger is the number of entries for it or for a descendant.\<close>

theorem trie_branchSupport_spec:
  assumes wf: "wfTrie L ok num anc t" and l: "ok l"
  shows "trie_branchSupport L l t
    = size (filter_mset (covers (lg_seq L l) (lg_id L l)) (trieEntries L (troot t)))"
proof -
  let ?n = "troot t" and ?P = "covers (lg_seq L l) (lg_id L l)"
  have n: "wfNode L ok anc ?n" using wf by (simp add: wfTrie_def)
  have node: "nbranch (nodeAt p ?n) = size (filter_mset ?P (trieEntries L ?n))"
    if "validPath p ?n" "sp_start (nspan (nodeAt p ?n)) \<le> lg_seq L l"
      "lg_seq L l < sp_end (nspan (nodeAt p ?n))"
      "hist L anc (sp_ledger (nspan (nodeAt p ?n))) (lg_seq L l) = lg_id L l" for p
    using subtree_filter[OF n that(1,2,3)] that(4) nbranch_size path_ledger[OF n that(1)] by metis
  show ?thesis
  proof (cases "findByLedgerID L (lg_id L l) ?n")
    case (Some p)
    let ?m = "nodeAt p ?n"
    have p: "validPath p ?n" "node_tip L ?m = lg_id L l"
      using trie_lookup[OF wf, of "lg_id L l"] Some by auto
    have m: "wfNode L ok anc ?m" using path_ledger[OF n p(1)] by simp
    then have sp: "wfSpan L ok anc (nspan ?m)" by (cases ?m) auto
    have "lg_seq L l = sp_end (nspan ?m) - 1" using num_tip[OF m] p(2) num_id[OF l] by simp
    then show ?thesis
      using node[OF p(1)] p(2) sp Some by (auto simp: trie_branchSupport_def wfSpan_def tip_id_span)
  next
    case None
    obtain path d where f: "trie_find L l t = (path, d)" by fastforce
    let ?m = "nodeAt path ?n"
    note fs = find_spec[OF l n root_reached[OF wf l] refl f[unfolded trie_find_def]]
    have m: "wfNode L ok anc ?m" using path_ledger[OF n] fs by simp
    then have sp: "wfSpan L ok anc (nspan ?m)" by (cases ?m) auto
    show ?thesis
    proof (cases "d \<le> lg_seq L l")
      case True
      then have "size (filter_mset ?P (trieEntries L ?n)) = 0" using fs by auto
      moreover have "\<not> (lg_seq L l < d \<and> lg_seq L l < sp_end (nspan ?m))" using True by simp
      ultimately show ?thesis using None f
        unfolding trie_branchSupport_def Let_def by (simp only: option.case prod.case if_False)
    next
      case False
      have "hist L anc (sp_ledger (nspan ?m)) (lg_seq L l) = lg_id L l"
        using mismatch_iff[of "sp_ledger (nspan ?m)" l "lg_seq L l"] False fs sp l anc_self[OF l]
        by (auto simp: wfSpan_def)
      moreover have "sp_start (nspan ?m) \<le> lg_seq L l" "lg_seq L l < sp_end (nspan ?m)"
        using False fs mismatch_le(2)[of "sp_ledger (nspan ?m)" l] sp l by (auto simp: wfSpan_def)
      ultimately show ?thesis
        using node[of path] conjunct1[OF fs] None f False by (simp add: trie_branchSupport_def Let_def)
    qed
  qed
qed

text \<open>The new trie.\<close>

lemma newTrie_wf: "wfTrie L ok num anc (newTrie L)" "trieEntries L (troot (newTrie L)) = {#}"
  using genesis_ok genesis_seq get_seq[OF genesis_ok] anc_self[OF genesis_ok]
  by (simp_all add: wfTrie_def newTrie_def span_genesis_def wfSpan_def supports_Nil)

end

end
