(* ===== verification/Ledger_Trie_Pref.thy ===== *)
theory Ledger_Trie_Pref
  imports Ledger_Trie_Ops
begin

text \<open>
  The preferred ledger of the trie. The reference definition knows nothing of spans or nodes: it
  walks the tree of ledgers one sequence number at a time, and moves to a child ledger when its
  branch support exceeds the support of every other child even if all uncommitted support went to
  that one. \<open>getPreferred\<close> is shown to return the ledger at which this walk ends.
\<close>

section \<open>The reference walk\<close>

definition uncommittedAt :: "(uint256 \<Rightarrow> nat) \<Rightarrow> uint256 multiset \<Rightarrow> nat \<Rightarrow> nat \<Rightarrow> nat" where
  "uncommittedAt num M largestIssued q = size (filter_mset (\<lambda>i. num i < max q largestIssued) M)"

definition branchAt ::
  "(uint256 \<Rightarrow> nat) \<Rightarrow> (uint256 \<Rightarrow> nat \<Rightarrow> uint256) \<Rightarrow> uint256 multiset \<Rightarrow> nat \<Rightarrow> uint256 \<Rightarrow> nat" where
  "branchAt num anc M q x = size (filter_mset (descends num anc q x) M)"

definition nextLedgers ::
  "(uint256 \<Rightarrow> nat) \<Rightarrow> (uint256 \<Rightarrow> nat \<Rightarrow> uint256) \<Rightarrow> uint256 multiset \<Rightarrow> nat \<Rightarrow> uint256
    \<Rightarrow> uint256 set" where
  "nextLedgers num anc M q x =
     (\<lambda>i. anc i (Suc q)) ` {i. i \<in># M \<and> q < num i \<and> descends num anc q x i}"

definition prefStep ::
  "(uint256 \<Rightarrow> nat) \<Rightarrow> (uint256 \<Rightarrow> nat \<Rightarrow> uint256) \<Rightarrow> uint256 multiset \<Rightarrow> nat
    \<Rightarrow> nat \<times> uint256 \<Rightarrow> nat \<times> uint256 \<Rightarrow> bool" where
  "prefStep num anc M largestIssued = (\<lambda>(q, x) (q', y).
     q' = Suc q \<and> y \<in> nextLedgers num anc M q x
     \<and> uncommittedAt num M largestIssued q' < branchAt num anc M q' y
     \<and> (\<forall>z \<in> nextLedgers num anc M q x. z \<noteq> y \<longrightarrow>
          branchAt num anc M q' z + uncommittedAt num M largestIssued q'
            < branchAt num anc M q' y + of_bool (z < y)))"

section \<open>Uncommitted support\<close>

text \<open>The loops have consumed the support below a bound, and the rest is still to come.\<close>

definition pending :: "nat multiset \<Rightarrow> nat \<Rightarrow> nat \<Rightarrow> (nat \<times> nat) list \<Rightarrow> bool" where
  "pending N lim u its \<longleftrightarrow> u = size (filter_mset (\<lambda>s. s < lim) N)
     \<and> supports its (filter_mset (\<lambda>s. lim \<le> s) N)"

lemma pending_start: "supports its N \<Longrightarrow> pending N 0 0 its"
  by (simp add: pending_def)

lemma size_filter_split:
  "(\<And>x. P x \<longleftrightarrow> Q x \<or> R x) \<Longrightarrow> (\<And>x. \<not> (Q x \<and> R x)) \<Longrightarrow>
     size (filter_mset P M) = size (filter_mset Q M) + size (filter_mset R M)"
  by (induction M) auto

lemma supports_Nil_iff: "supports [] M \<longleftrightarrow> M = {#}"
  by (auto simp: supports_def multiset_eq_iff not_in_iff split: if_splits)

lemma pending_Nil:
  assumes "pending N lim u []" "lim \<le> lim'"
  shows "pending N lim' u []"
proof -
  have below: "\<forall>s \<in># N. s < lim"
    using assms(1) by (auto simp: pending_def supports_Nil_iff not_le)
  then have "filter_mset (\<lambda>s. s < lim') N = N" "filter_mset (\<lambda>s. s < lim) N = N"
    using assms(2) by (auto simp: filter_mset_eq_conv)
  moreover have "\<forall>s. s \<in># N \<longrightarrow> \<not> lim' \<le> s" using below assms(2) by auto
  ultimately show ?thesis using assms(1) by (simp add: pending_def supports_Nil_iff)
qed

text \<open>No support lies between the bound and the next entry.\<close>

lemma pending_gap:
  assumes "pending N lim u ((s, c) # its)"
  shows "lim \<le> s" and "lim \<le> lim' \<Longrightarrow> lim' \<le> s \<Longrightarrow> pending N lim' u ((s, c) # its)"
    and "pending N (Suc s) (u + c) its"
proof -
  let ?M = "filter_mset (\<lambda>s. lim \<le> s) N"
  have sup: "supports ((s, c) # its) ?M" and u: "u = size (filter_mset (\<lambda>s. s < lim) N)"
    using assms by (auto simp: pending_def)
  have c: "c = count ?M s" "supports its (filter_mset (\<lambda>x. s < x) ?M)"
    "filter_mset (\<lambda>x. x \<le> s) ?M = replicate_mset c s"
    by (rule supports_Cons[OF sup])+
  have "s \<in># ?M" using sup by (auto simp: supports_def split: if_splits)
  then show le: "lim \<le> s" by simp
  have none: "\<not> (lim \<le> x \<and> x < s)" if "x \<in># N" for x
  proof
    assume "lim \<le> x \<and> x < s"
    then have "x \<in># filter_mset (\<lambda>x. x \<le> s) ?M" using that by simp
    then show False using c(3) \<open>lim \<le> x \<and> x < s\<close> by (auto split: if_splits)
  qed
  show "pending N lim' u ((s, c) # its)" if "lim \<le> lim'" "lim' \<le> s"
  proof -
    have "filter_mset (\<lambda>s. s < lim') N = filter_mset (\<lambda>s. s < lim) N"
      "filter_mset (\<lambda>s. lim' \<le> s) N = ?M"
      using none that by (intro filter_mset_cong refl; force)+
    then show ?thesis using u sup by (simp add: pending_def)
  qed
  have "filter_mset (\<lambda>x. x < Suc s) N = filter_mset (\<lambda>x. x < lim) N + filter_mset (\<lambda>x. x \<le> s) ?M"
    using le by (intro multiset_eqI) auto
  moreover have "filter_mset (\<lambda>x. s < x) ?M = filter_mset (\<lambda>x. Suc s \<le> x) N"
    using le by (intro multiset_eqI) auto
  ultimately show "pending N (Suc s) (u + c) its"
    using c u by (simp add: pending_def)
qed

lemma addUncommitted_spec:
  "pending N lim u its \<Longrightarrow> lim \<le> limit \<Longrightarrow> addUncommitted limit u its = (u', its') \<Longrightarrow>
     pending N limit u' its'"
proof (induction limit u its arbitrary: lim rule: addUncommitted.induct)
  case (1 limit u)
  then show ?case using pending_Nil by auto
next
  case (2 limit u s c its)
  then show ?case using pending_gap[OF "2.prems"(1)] by (auto simp: Suc_le_eq split: if_splits)
qed

text \<open>The support that is uncommitted at each sequence number, read off the pending support.\<close>

lemma pending_size: "pending N lim u its \<Longrightarrow> size (filter_mset (\<lambda>s. s < lim) N) = u"
  by (simp add: pending_def)

lemma advanceSpan_spec:
  "pending N (max nextSeq largest) u its \<Longrightarrow> nextSeq \<le> spanEnd
     \<Longrightarrow> advanceSpan spanEnd b nextSeq u its = (nextSeq', u', its')
     \<Longrightarrow> pending N (max nextSeq' largest) u' its' \<and> nextSeq \<le> nextSeq' \<and> nextSeq' \<le> spanEnd
       \<and> (\<forall>q. nextSeq \<le> q \<and> q < nextSeq' \<longrightarrow> size (filter_mset (\<lambda>s. s < max q largest) N) < b)
       \<and> (nextSeq' < spanEnd \<longrightarrow> b \<le> u')"
proof (induction spanEnd b nextSeq u its rule: advanceSpan.induct)
  case (1 spanEnd b nextSeq u)
  have "pending N (max q largest) u []" if "nextSeq \<le> q" for q
    using that by (intro pending_Nil[OF "1.prems"(1)]) auto
  then show ?case using 1 pending_size by (fastforce split: if_splits)
next
  case (2 spanEnd b nextSeq u s c its)
  note gap = pending_gap[OF "2.prems"(1)]
  have mid: "size (filter_mset (\<lambda>s. s < max q largest) N) = u" if "nextSeq \<le> q" "q \<le> s" for q
    using that gap(1) by (intro pending_size[OF gap(2)[of "max q largest"]]) auto
  consider "\<not> (nextSeq < spanEnd \<and> u < b)" | "nextSeq < spanEnd" "u < b" "spanEnd \<le> s"
    | "nextSeq < spanEnd" "u < b" "s < spanEnd" by linarith
  then show ?case
  proof cases
    case 1
    then show ?thesis using "2.prems" by auto
  next
    case 2
    then have "pending N (max spanEnd largest) u ((s, c) # its)"
      using gap(1) by (intro gap(2)) auto
    then show ?thesis using 2 "2.prems" mid by auto
  next
    case 3
    have "max (s + 1) largest = Suc s" using gap(1) by simp
    then have "pending N (max (s + 1) largest) (u + c) its" using gap(3) by simp
    moreover have "advanceSpan spanEnd b (s + 1) (u + c) its = (nextSeq', u', its')"
      using 3 "2.prems"(3) by simp
    ultimately have IH: "pending N (max nextSeq' largest) u' its' \<and> s + 1 \<le> nextSeq' \<and> nextSeq' \<le> spanEnd
       \<and> (\<forall>q. s + 1 \<le> q \<and> q < nextSeq' \<longrightarrow> size (filter_mset (\<lambda>s. s < max q largest) N) < b)
       \<and> (nextSeq' < spanEnd \<longrightarrow> b \<le> u')"
      using 3 by (intro "2.IH") auto
    have "size (filter_mset (\<lambda>s. s < max q largest) N) < b" if "nextSeq \<le> q" "q < nextSeq'" for q
      using IH mid[of q] that 3 by (cases "q \<le> s") auto
    then show ?thesis using IH gap(1) by auto
  qed
qed

section \<open>The best child\<close>

lemma takeBest_spec:
  "takeBest L c ds = (m, rest) \<Longrightarrow>
     mset (m # rest) = mset (c # ds) \<and> (\<forall>x \<in> set rest. \<not> better L x m)"
proof (induction ds arbitrary: c m rest)
  case Nil
  then show ?case by simp
next
  case (Cons d ds)
  obtain m1 r1 where 1: "takeBest L d ds = (m1, r1)" by fastforce
  obtain m2 r2 where 2: "takeBest L c ds = (m2, r2)" by fastforce
  have "d \<in># mset (m1 # r1)" "c \<in># mset (m2 # r2)"
    using Cons.IH[OF 1] Cons.IH[OF 2] by auto
  then have "\<not> better L d m1" "\<not> better L c m2"
    using Cons.IH[OF 1] Cons.IH[OF 2] by (auto simp: better_def)
  then have "better L d c \<Longrightarrow> \<not> better L c m1" "\<not> better L d c \<Longrightarrow> \<not> better L d m2"
    by (auto simp: better_def)
  then show ?case
    using Cons.prems Cons.IH[OF 1] Cons.IH[OF 2] 1 2
    by (cases "better L d c") (auto simp: add_mset_commute)
qed

lemma bestChild_spec:
  assumes "2 \<le> length cs"
  obtains best second rest where "mset cs = add_mset best (add_mset second rest)"
    "bestChild L cs = Some (best, nbranch best - nbranch second
       + of_bool (span_startID L (nspan second) < span_startID L (nspan best)))"
    "\<not> better L second best" "\<forall>x \<in># rest. \<not> better L x best \<and> \<not> better L x second"
proof -
  obtain c d ds where cs: "cs = c # d # ds" using assms by (cases "(L, cs)" rule: bestChild.cases) auto
  obtain best rest where t: "takeBest L c (d # ds) = (best, rest)" by fastforce
  note b = takeBest_spec[OF t]
  have "length rest = Suc (length ds)" using b mset_eq_length[of "best # rest" "c # d # ds"] by simp
  then obtain e es where rest: "rest = e # es" by (cases rest) auto
  obtain second es' where t2: "takeBest L e es = (second, es')" by fastforce
  note s = takeBest_spec[OF t2]
  have "set (second # es') = set rest" using s rest by (metis set_mset_mset)
  then have "\<not> better L second best" "\<forall>x \<in> set es'. \<not> better L x best \<and> \<not> better L x second"
    using b s by auto
  moreover have "mset cs = add_mset best (add_mset second (mset es'))"
    using b s rest cs by auto
  moreover have "bestChild L cs = Some (best, nbranch best - nbranch second
       + of_bool (span_startID L (nspan second) < span_startID L (nspan best)))"
    using t t2 rest cs by (simp add: Let_def del: takeBest.simps)
  ultimately show thesis using that[of best second "mset es'"] by simp
qed

text \<open>
  The margin decides as the reference step does: the best child is preferred when no other could
  overtake it with all of the uncommitted support.
\<close>

lemma margin_decides:
  fixes nb :: "'a \<Rightarrow> nat" and id :: "'a \<Rightarrow> uint256"
  assumes "0 < nb s" "id s \<noteq> id b" and sb: "nb s < nb b \<or> nb s = nb b \<and> id s < id b"
    and rest: "\<And>d. d \<in> R \<Longrightarrow> nb d < nb s \<or> nb d = nb s \<and> id d \<le> id s"
  shows "(u < nb b - nb s + of_bool (id s < id b) \<or> u = 0) \<longleftrightarrow>
    u < nb b \<and> nb s + u < nb b + of_bool (id s < id b)
      \<and> (\<forall>d \<in> R. nb d + u < nb b + of_bool (id d < id b))"
proof -
  have "(u < nb b - nb s + of_bool (id s < id b) \<or> u = 0) \<longleftrightarrow> nb s + u < nb b + of_bool (id s < id b)"
    using sb by auto
  moreover have "nb d + u < nb b + of_bool (id d < id b)"
    if "d \<in> R" "nb s + u < nb b + of_bool (id s < id b)" for d
    using rest[OF that(1)] that(2) by (cases "id s < id b"; cases "id d < id b") auto
  moreover have "u < nb b" if "nb s + u < nb b + of_bool (id s < id b)"
    using that assms(1) by (cases "id s < id b") auto
  ultimately show ?thesis by blast
qed

lemma distinct_key_mset:
  assumes "distinct (map key cs)" "mset cs = add_mset x M"
  shows "\<forall>y \<in># M. key y \<noteq> key x"
proof -
  have "mset (map key cs) = add_mset (key x) (image_mset key M)" using assms(2) by simp
  moreover have "count (mset (map key cs)) (key x) \<le> 1"
    using assms(1) by (simp only: distinct_count_atmost_1) simp
  ultimately have "count (image_mset key M) (key x) = 0" by simp
  then have "key x \<notin># image_mset key M" by (simp only: not_in_iff)
  then show ?thesis by (metis image_eqI set_image_mset)
qed

text \<open>A child wins when no other child could overtake it with the uncommitted support.\<close>

definition wins :: "nat \<Rightarrow> ('l TrieNode \<Rightarrow> uint256) \<Rightarrow> 'l TrieNode list \<Rightarrow> 'l TrieNode \<Rightarrow> bool" where
  "wins u key cs c \<longleftrightarrow> u < nbranch c
     \<and> (\<forall>d \<in> set cs. key d \<noteq> key c \<longrightarrow> nbranch d + u < nbranch c + of_bool (key d < key c))"

lemma bestChild_wins:
  assumes "2 \<le> length cs" and dist: "distinct (map key cs)"
    and sid: "\<forall>x \<in> set cs. span_startID L (nspan x) = key x \<and> 0 < nbranch x"
  shows "\<exists>best margin. bestChild L cs = Some (best, margin) \<and> best \<in> set cs
    \<and> ((u < margin \<or> u = 0) \<longleftrightarrow> wins u key cs best) \<and> (\<forall>c \<in> set cs. wins u key cs c \<longrightarrow> c = best)"
proof -
  obtain best second rest where b: "mset cs = add_mset best (add_mset second rest)"
    "bestChild L cs = Some (best, nbranch best - nbranch second
       + of_bool (span_startID L (nspan second) < span_startID L (nspan best)))"
    "\<not> better L second best" "\<forall>x \<in># rest. \<not> better L x best \<and> \<not> better L x second"
    using bestChild_spec[OF assms(1)] by blast
  have set: "set cs = insert best (insert second (set_mset rest))"
    using b(1) by (metis set_mset_add_mset_insert set_mset_mset)
  have ne: "key second \<noteq> key best" "\<forall>x \<in># rest. key x \<noteq> key best"
    using distinct_key_mset[OF dist b(1)] by auto
  have beats: "nbranch x < nbranch best \<or> nbranch x = nbranch best \<and> key x < key best"
    if "x \<in> set cs" "key x \<noteq> key best" for x
    using that b(3,4) set sid by (auto simp: better_def)
  have below: "nbranch x < nbranch second \<or> nbranch x = nbranch second \<and> key x \<le> key second"
    if "x \<in># rest" for x
    using that b(4) set sid by (auto simp: better_def)
  have "(u < nbranch best - nbranch second + of_bool (key second < key best) \<or> u = 0) \<longleftrightarrow>
      u < nbranch best \<and> nbranch second + u < nbranch best + of_bool (key second < key best)
        \<and> (\<forall>d \<in># rest. nbranch d + u < nbranch best + of_bool (key d < key best))"
    using sid set ne(1) beats[of second] below by (intro margin_decides) auto
  moreover have "(\<forall>d \<in> set cs. key d \<noteq> key best \<longrightarrow> X d) \<longleftrightarrow> X second \<and> (\<forall>d \<in># rest. X d)" for X
    unfolding set using ne by blast
  ultimately have dec: "(u < nbranch best - nbranch second + of_bool (key second < key best) \<or> u = 0)
      \<longleftrightarrow> wins u key cs best" unfolding wins_def by presburger
  have only: "c = best" if c: "c \<in> set cs" "wins u key cs c" for c
  proof (rule ccontr)
    assume "c \<noteq> best"
    then have k: "key c \<noteq> key best" using ne set c(1) by blast
    then have "nbranch best + u < nbranch c + of_bool (key best < key c)"
      using c(2) set by (auto simp: wins_def)
    then show False using beats[OF c(1) k] by (cases "key best < key c") auto
  qed
  have "span_startID L (nspan second) = key second" "span_startID L (nspan best) = key best" "best \<in> set cs"
    using sid set by auto
  moreover from this have "bestChild L cs
      = Some (best, nbranch best - nbranch second + of_bool (key second < key best))"
    using b(2) by (simp only:)
  ultimately show ?thesis using dec only by blast
qed

lemma two_keys:
  assumes "distinct (map key cs)" "2 \<le> length cs"
  shows "\<exists>d \<in> set cs. x \<noteq> key d"
proof -
  obtain c d ds where "cs = c # d # ds" using assms(2) by (cases cs; cases "tl cs") auto
  then show ?thesis using assms(1) by (cases "x = key c") auto
qed

section \<open>Walking along spans and down to children\<close>

lemma nodeAt_snoc: "nodeAt (p @ [i]) n = nchildren (nodeAt p n) ! i"
  by (induction p arbitrary: n) auto

lemma validPath_snoc: "validPath (p @ [i]) n \<longleftrightarrow> validPath p n \<and> i < length (nchildren (nodeAt p n))"
  by (induction p arbitrary: n) auto

context ledger_history
begin

lemma compressed_nonempty:
  "wfNode L ok anc n \<Longrightarrow> compressed n \<Longrightarrow> 0 < nbranch n"
proof (induction n)
  case (TrieNode sp t b cs)
  show ?case
  proof (cases "t = 0")
    case True
    then obtain c where c: "c \<in> set cs" using TrieNode.prems by (cases cs) (auto simp: compressed_def)
    then have "0 < nbranch c" using TrieNode by auto
    then show ?thesis using TrieNode.prems c member_le_sum_list[of "nbranch c" "map nbranch cs"] by auto
  qed (use TrieNode.prems in auto)
qed

text \<open>A node of the trie, with the whole multiset of entries.\<close>

lemma span_branch:
  assumes r: "wfNode L ok anc r" and p: "validPath p r" "n = nodeAt p r"
    and q: "sp_start (nspan n) \<le> q" "q < sp_end (nspan n)"
  shows "branchAt num anc (trieEntries L r) q (hist L anc (sp_ledger (nspan n)) q) = nbranch n"
  using subtree_filter[OF r p(1)] q nbranch_size[of L ok anc n] path_ledger[OF r p(1)] p(2)
  by (simp add: branchAt_def)

lemma span_next:
  assumes r: "wfNode L ok anc r" and p: "validPath p r" "n = nodeAt p r"
    and q: "sp_start (nspan n) \<le> q" "Suc q < sp_end (nspan n)" and b: "0 < nbranch n"
  shows "nextLedgers num anc (trieEntries L r) q (hist L anc (sp_ledger (nspan n)) q)
    = {hist L anc (sp_ledger (nspan n)) (Suc q)}"
proof -
  have n: "wfNode L ok anc n" using path_ledger[OF r p(1)] p(2) by simp
  have sub: "filter_mset (covers q (hist L anc (sp_ledger (nspan n)) q)) (trieEntries L r) = trieEntries L n"
    using subtree_filter[OF r p(1)] q p(2) by simp
  have cov: "covers (Suc q) (hist L anc (sp_ledger (nspan n)) (Suc q)) i" if "i \<in># trieEntries L n" for i
    using span_covers[OF n that q(2)] .
  obtain i where "i \<in># trieEntries L n" using b nbranch_size[OF n] by fastforce
  then show ?thesis
    using cov unfolding nextLedgers_def sub[symmetric] by (force simp: descends_def)
qed

lemma span_step:
  assumes r: "wfNode L ok anc r" and p: "validPath p r" "n = nodeAt p r"
    and q: "sp_start (nspan n) \<le> q" "Suc q < sp_end (nspan n)" and b: "0 < nbranch n"
  shows "prefStep num anc (trieEntries L r) largest (q, hist L anc (sp_ledger (nspan n)) q) y \<longleftrightarrow>
    y = (Suc q, hist L anc (sp_ledger (nspan n)) (Suc q))
      \<and> uncommittedAt num (trieEntries L r) largest (Suc q) < nbranch n"
  using span_next[OF assms] span_branch[OF r p, of "Suc q"] q
  by (cases y) (auto simp: prefStep_def)

lemma span_walk:
  assumes r: "wfNode L ok anc r" and p: "validPath p r" "n = nodeAt p r" and b: "0 < nbranch n"
  shows "sp_start (nspan n) + k < sp_end (nspan n) \<Longrightarrow>
    \<forall>q. sp_start (nspan n) < q \<and> q \<le> sp_start (nspan n) + k
      \<longrightarrow> uncommittedAt num (trieEntries L r) largest q < nbranch n \<Longrightarrow>
    (prefStep num anc (trieEntries L r) largest)\<^sup>*\<^sup>*
      (sp_start (nspan n), hist L anc (sp_ledger (nspan n)) (sp_start (nspan n)))
      (sp_start (nspan n) + k, hist L anc (sp_ledger (nspan n)) (sp_start (nspan n) + k))"
proof (induction k)
  case 0
  then show ?case by simp
next
  case (Suc k)
  let ?q = "sp_start (nspan n) + k"
  have "prefStep num anc (trieEntries L r) largest (?q, hist L anc (sp_ledger (nspan n)) ?q)
      (Suc ?q, hist L anc (sp_ledger (nspan n)) (Suc ?q))"
    using span_step[OF r p _ _ b, of ?q largest] Suc.prems by simp
  moreover have "(prefStep num anc (trieEntries L r) largest)\<^sup>*\<^sup>*
      (sp_start (nspan n), hist L anc (sp_ledger (nspan n)) (sp_start (nspan n)))
      (?q, hist L anc (sp_ledger (nspan n)) ?q)"
    using Suc by simp
  ultimately show ?case by (simp add: rtranclp.rtrancl_into_rtrancl)
qed

text \<open>At the end of a span the next ledgers are the first ledgers of the children.\<close>

lemma child_facts:
  assumes r: "wfNode L ok anc r" and p: "validPath p r" "TrieNode sp t b cs = nodeAt p r"
    and c: "c \<in> set cs"
  shows "0 < nbranch c"
    "branchAt num anc (trieEntries L r) (sp_end sp) (hist L anc (sp_ledger (nspan c)) (sp_end sp)) = nbranch c"
proof -
  have n: "wfNode L ok anc (TrieNode sp t b cs)" using path_ledger[OF r p(1)] p(2) by simp
  note cw = wf_childNode[OF n c]
  show "0 < nbranch c" using compressed_nonempty cw by blast
  obtain i where i: "i < length cs" "cs ! i = c" using c by (auto simp: in_set_conv_nth)
  have "validPath (p @ [i]) r" "c = nodeAt (p @ [i]) r"
    using p i by (auto simp: validPath_snoc nodeAt_snoc simp flip: p(2))
  then show "branchAt num anc (trieEntries L r) (sp_end sp)
      (hist L anc (sp_ledger (nspan c)) (sp_end sp)) = nbranch c"
    using cw(2,3) by (intro span_branch[OF r]) (auto simp: joins_def wfSpan_def)
qed

lemma end_next:
  assumes r: "wfNode L ok anc r" and p: "validPath p r" "TrieNode sp t b cs = nodeAt p r"
  shows "nextLedgers num anc (trieEntries L r) (sp_end sp - 1) (hist L anc (sp_ledger sp) (sp_end sp - 1))
    = (\<lambda>c. hist L anc (sp_ledger (nspan c)) (sp_end sp)) ` set cs"
proof -
  have n: "wfNode L ok anc (TrieNode sp t b cs)" using path_ledger[OF r p(1)] p(2) by simp
  then have sp: "wfSpan L ok anc sp" by simp
  let ?n = "TrieNode sp t b cs"
  have "filter_mset (covers (sp_end sp - 1) (hist L anc (sp_ledger sp) (sp_end sp - 1))) (trieEntries L r)
      = trieEntries L ?n"
    using subtree_filter[OF r p(1), of "sp_end sp - 1"] sp by (auto simp: wfSpan_def simp flip: p(2))
  then have sub: "i \<in># trieEntries L r \<and> covers (sp_end sp - 1) (hist L anc (sp_ledger sp) (sp_end sp - 1)) i
      \<longleftrightarrow> i \<in># trieEntries L ?n" for i
    by (metis (no_types, lifting) mem_Collect_eq set_mset_filter)
  have up: "\<exists>c \<in> set cs. i \<in># trieEntries L c" if "i \<in># trieEntries L ?n" "sp_end sp - 1 < num i" for i
    using that num_tip[OF n] by (auto split: if_splits)
  have down: "i \<in># trieEntries L ?n \<and> sp_end sp - 1 < num i
      \<and> anc i (sp_end sp) = hist L anc (sp_ledger (nspan c)) (sp_end sp)"
    if "c \<in> set cs" "i \<in># trieEntries L c" for c i
    using child_covers[OF n that] that sp by (auto simp: descends_def wfSpan_def)
  have ex: "\<exists>i. i \<in># trieEntries L c" if "c \<in> set cs" for c
    using child_facts(1)[OF r p that] nbranch_size wf_childNode(1)[OF n that] by (metis multiset_nonemptyE nonempty_has_size)
  have e: "Suc (sp_end sp - 1) = sp_end sp" using sp by (auto simp: wfSpan_def)
  have "{i. i \<in># trieEntries L r \<and> sp_end sp - 1 < num i
      \<and> covers (sp_end sp - 1) (hist L anc (sp_ledger sp) (sp_end sp - 1)) i}
    = {i. i \<in># trieEntries L ?n \<and> sp_end sp - 1 < num i}" using sub by blast
  then show ?thesis
    unfolding nextLedgers_def e
  proof (simp only:, intro set_eqI iffI)
    fix x assume "x \<in> (\<lambda>i. anc i (sp_end sp)) ` {i. i \<in># trieEntries L ?n \<and> sp_end sp - 1 < num i}"
    then obtain i where i: "x = anc i (sp_end sp)" "i \<in># trieEntries L ?n" "sp_end sp - 1 < num i" by blast
    with up down show "x \<in> (\<lambda>c. hist L anc (sp_ledger (nspan c)) (sp_end sp)) ` set cs" by blast
  next
    fix x assume "x \<in> (\<lambda>c. hist L anc (sp_ledger (nspan c)) (sp_end sp)) ` set cs"
    then obtain c i where c: "c \<in> set cs" "x = hist L anc (sp_ledger (nspan c)) (sp_end sp)"
      "i \<in># trieEntries L c" using ex by blast
    from down[OF c(1,3)] c(2) show "x \<in> (\<lambda>i. anc i (sp_end sp))
        ` {i. i \<in># trieEntries L ?n \<and> sp_end sp - 1 < num i}" by (metis (mono_tags, lifting) image_eqI mem_Collect_eq)
  qed
qed

lemma end_step:
  assumes r: "wfNode L ok anc r" and p: "validPath p r" "TrieNode sp t b cs = nodeAt p r"
    and u: "u = uncommittedAt num (trieEntries L r) largest (sp_end sp)"
    and key: "key = (\<lambda>c. hist L anc (sp_ledger (nspan c)) (sp_end sp))"
  shows "prefStep num anc (trieEntries L r) largest
      (sp_end sp - 1, hist L anc (sp_ledger sp) (sp_end sp - 1)) y \<longleftrightarrow>
    (\<exists>c \<in> set cs. y = (sp_end sp, key c) \<and> wins u key cs c)"
proof -
  have "wfSpan L ok anc sp" using path_ledger[OF r p(1)] by (simp flip: p(2))
  then have e: "Suc (sp_end sp - 1) = sp_end sp" by (auto simp: wfSpan_def)
  have nb: "branchAt num anc (trieEntries L r) (sp_end sp) (key c) = nbranch c" if "c \<in> set cs" for c
    using child_facts(2)[OF r p that] key by simp
  obtain q' z where y: "y = (q', z)" by (cases y)
  show ?thesis
    unfolding prefStep_def y prod.case end_next[OF r p] e key[symmetric]
    using nb by (auto simp: u wins_def)
qed

text \<open>Where there are several children, the histories decide the order of their first ledgers.\<close>

lemma startID_known:
  assumes n: "wfNode L ok anc (TrieNode sp t b cs)" and c: "c \<in> set cs" "d \<in> set cs"
    and ne: "hist L anc (sp_ledger (nspan c)) (sp_end sp) \<noteq> hist L anc (sp_ledger (nspan d)) (sp_end sp)"
  shows "span_startID L (nspan c) = hist L anc (sp_ledger (nspan c)) (sp_end sp)"
proof -
  let ?a = "sp_ledger (nspan c)" and ?b = "sp_ledger (nspan d)" and ?e = "sp_end sp"
  note cw = wf_childNode[OF n c(1)] and dw = wf_childNode[OF n c(2)]
  have ok: "ok ?a" "ok ?b" "?e \<le> lg_seq L ?a" "?e \<le> lg_seq L ?b" "0 < ?e"
    "hist L anc ?a (?e - 1) = hist L anc ?b (?e - 1)"
    using cw(2,3) dw(2,3) n by (auto simp: wfSpan_def joins_def)
  have "?e - 1 < lg_mismatch L ?a ?b" "\<not> ?e < lg_mismatch L ?a ?b"
    using mismatch_iff[OF ok(1,2), of "?e - 1"] mismatch_iff[OF ok(1,2), of ?e] ok ne by auto
  then have "lg_mismatch L ?a ?b = ?e" by linarith
  then show ?thesis using get_diverge[OF ok(1,2)] ok cw(3) by (simp add: span_startID_def joins_def)
qed

lemma best_step:
  assumes r: "wfNode L ok anc r" and p: "validPath p r" "TrieNode sp t b cs = nodeAt p r"
    and u: "u = uncommittedAt num (trieEntries L r) largest (sp_end sp)"
  shows "case bestChild L cs of
      None \<Rightarrow> \<not> Ex (prefStep num anc (trieEntries L r) largest
        (sp_end sp - 1, hist L anc (sp_ledger sp) (sp_end sp - 1)))
    | Some (best, margin) \<Rightarrow> best \<in> set cs
        \<and> (if u < margin \<or> u = 0
           then prefStep num anc (trieEntries L r) largest
             (sp_end sp - 1, hist L anc (sp_ledger sp) (sp_end sp - 1))
             (sp_end sp, hist L anc (sp_ledger (nspan best)) (sp_end sp))
           else \<not> Ex (prefStep num anc (trieEntries L r) largest
             (sp_end sp - 1, hist L anc (sp_ledger sp) (sp_end sp - 1))))"
proof -
  define key where "key = (\<lambda>c. hist L anc (sp_ledger (nspan c)) (sp_end sp))"
  define S where "S = prefStep num anc (trieEntries L r) largest
    (sp_end sp - 1, hist L anc (sp_ledger sp) (sp_end sp - 1))"
  note step = end_step[OF r p u key_def, folded S_def]
  have n: "wfNode L ok anc (TrieNode sp t b cs)" using path_ledger[OF r p(1)] by (simp flip: p(2))
  consider "cs = []" | c where "cs = [c]" | "2 \<le> length cs"
    by (cases "(L, cs)" rule: bestChild.cases) auto
  then have "case bestChild L cs of
      None \<Rightarrow> \<not> Ex S
    | Some (best, margin) \<Rightarrow> best \<in> set cs
        \<and> (if u < margin \<or> u = 0 then S (sp_end sp, key best) else \<not> Ex S)"
  proof cases
    case 1
    then show ?thesis by (simp add: step)
  next
    case (2 c)
    then show ?thesis using child_facts(1)[OF r p, of c] by (simp add: step wins_def)
  next
    case 3
    have dist: "distinct (map key cs)" using n by (simp add: key_def)
    have "span_startID L (nspan x) = key x" if "x \<in> set cs" for x
      using two_keys[OF dist 3, of "key x"] startID_known[OF n that] unfolding key_def by metis
    then have sid: "\<forall>x \<in> set cs. span_startID L (nspan x) = key x \<and> 0 < nbranch x"
      using child_facts(1)[OF r p] by blast
    obtain best margin where b: "bestChild L cs = Some (best, margin)" "best \<in> set cs"
      "(u < margin \<or> u = 0) \<longleftrightarrow> wins u key cs best" "\<forall>c \<in> set cs. wins u key cs c \<longrightarrow> c = best"
      using bestChild_wins[OF 3 dist sid, of u] by blast
    have "wins u key cs best \<Longrightarrow> S (sp_end sp, key best)" "\<not> wins u key cs best \<Longrightarrow> \<not> Ex S"
      using step b(2,4) by blast+
    then show ?thesis
      unfolding b(1) option.case prod.case b(3) using b(2) by argo
  qed
  then show ?thesis unfolding S_def key_def .
qed

text \<open>What the search promises of its result: it is where the reference walk ends.\<close>

definition walkEnd :: "uint256 multiset \<Rightarrow> nat \<Rightarrow> 'l SpanTip \<Rightarrow> bool" where
  "walkEnd M largest tip \<longleftrightarrow> ok (tip_ledger tip) \<and> tip_seq tip \<le> lg_seq L (tip_ledger tip)
     \<and> tip_id tip = lg_get L (tip_ledger tip) (tip_seq tip)
     \<and> (prefStep num anc M largest)\<^sup>*\<^sup>* (0, hist L anc (lg_genesis L) 0)
         (tip_seq tip, hist L anc (tip_ledger tip) (tip_seq tip))
     \<and> \<not> Ex (prefStep num anc M largest (tip_seq tip, hist L anc (tip_ledger tip) (tip_seq tip)))"

lemma uncommitted_pending:
  "pending (image_mset num M) (max q largest) u its \<Longrightarrow> uncommittedAt num M largest q = u"
  "uncommittedAt num M largest q = size (filter_mset (\<lambda>s. s < max q largest) (image_mset num M))"
  by (simp_all add: pending_def uncommittedAt_def filter_mset_image_mset)

lemma walkEnd_span:
  assumes r: "wfNode L ok anc r" and p: "validPath p r" "TrieNode sp t b cs = nodeAt p r"
    and q: "sp_start sp < q" "q \<le> sp_end sp"
    and walk: "(prefStep num anc (trieEntries L r) largest)\<^sup>*\<^sup>* (0, hist L anc (lg_genesis L) 0)
      (q - 1, hist L anc (sp_ledger sp) (q - 1))"
    and stop: "\<not> Ex (prefStep num anc (trieEntries L r) largest (q - 1, hist L anc (sp_ledger sp) (q - 1)))"
  shows "walkEnd (trieEntries L r) largest
    (span_tip L \<lparr>sp_start = sp_start sp, sp_end = q, sp_ledger = sp_ledger sp\<rparr>)"
proof -
  have "wfSpan L ok anc sp" using path_ledger[OF r p(1)] by (simp flip: p(2))
  then show ?thesis using q walk stop by (auto simp: walkEnd_def span_tip_def Let_def wfSpan_def)
qed

text \<open>One span: the loops leave a sequence number up to which the walk follows the span.\<close>

lemma prefLoop_span:
  assumes r: "wfNode L ok anc r" and p: "validPath p r" "TrieNode sp t b cs = nodeAt p r" "0 < b"
    and pend: "pending (image_mset num (trieEntries L r)) lim u its" "lim \<le> max (sp_start sp + 1) largest"
  obtains q u1 its1 where "prefLoop L largest u its (TrieNode sp t b cs) =
      (if q < sp_end sp then map_option (span_tip L) (span_before sp q)
       else case bestChild L cs of
         None \<Rightarrow> Some (span_tip L sp)
       | Some (best, margin) \<Rightarrow> if u1 < margin \<or> u1 = 0 then prefLoop L largest u1 its1 best
           else Some (span_tip L sp))"
    "pending (image_mset num (trieEntries L r)) (max q largest) u1 its1"
    "sp_start sp < q" "q \<le> sp_end sp" "q < sp_end sp \<longrightarrow> b \<le> u1"
    "(prefStep num anc (trieEntries L r) largest)\<^sup>*\<^sup>*
      (sp_start sp, hist L anc (sp_ledger sp) (sp_start sp)) (q - 1, hist L anc (sp_ledger sp) (q - 1))"
proof -
  let ?M = "trieEntries L r"
  let ?N = "image_mset num ?M"
  have "wfNode L ok anc (TrieNode sp t b cs)" using path_ledger[OF r p(1)] p(2) by simp
  then have sp: "sp_start sp + 1 \<le> sp_end sp" by (simp add: wfSpan_def)
  obtain u0 its0 where a: "addUncommitted (max (sp_start sp + 1) largest) u its = (u0, its0)" by fastforce
  obtain q u1 its1 where v: "advanceSpan (sp_end sp) b (sp_start sp + 1) u0 its0 = (q, u1, its1)"
    using prod_cases3 by blast
  have "pending ?N (max (sp_start sp + 1) largest) u0 its0"
    by (rule addUncommitted_spec[OF pend a])
  then have adv: "pending ?N (max q largest) u1 its1" "sp_start sp + 1 \<le> q" "q \<le> sp_end sp"
    "\<forall>x. sp_start sp + 1 \<le> x \<and> x < q \<longrightarrow> uncommittedAt num ?M largest x < b"
    "q < sp_end sp \<longrightarrow> b \<le> u1"
    using advanceSpan_spec[OF _ sp v] by (auto simp: uncommitted_pending(2))
  obtain k where "q = sp_start sp + 1 + k" using le_Suc_ex[OF adv(2)] by blast
  then have k: "q = Suc (sp_start sp + k)" by simp
  have "(prefStep num anc ?M largest)\<^sup>*\<^sup>*
      (sp_start sp, hist L anc (sp_ledger sp) (sp_start sp)) (q - 1, hist L anc (sp_ledger sp) (q - 1))"
    using span_walk[OF r p(1,2), of k largest] p(3) adv(3,4) unfolding k
    by (auto simp: less_Suc_eq_le Suc_le_eq)
  moreover have "prefLoop L largest u its (TrieNode sp t b cs) =
      (if q < sp_end sp then map_option (span_tip L) (span_before sp q)
       else case bestChild L cs of
         None \<Rightarrow> Some (span_tip L sp)
       | Some (best, margin) \<Rightarrow> if u1 < margin \<or> u1 = 0 then prefLoop L largest u1 its1 best
           else Some (span_tip L sp))"
    by (subst prefLoop.simps) (simp only: Let_def a v prod.case)
  ultimately show thesis
    using adv by (intro that[of q u1 its1]) (auto simp del: prefLoop.simps)
qed

lemma prefLoop_spec:
  assumes r: "wfNode L ok anc r"
  shows "validPath p r \<Longrightarrow> n = nodeAt p r \<Longrightarrow> 0 < nbranch n
    \<Longrightarrow> pending (image_mset num (trieEntries L r)) lim u its
    \<Longrightarrow> lim \<le> max (sp_start (nspan n) + 1) largest
    \<Longrightarrow> (prefStep num anc (trieEntries L r) largest)\<^sup>*\<^sup>* (0, hist L anc (lg_genesis L) 0)
      (sp_start (nspan n), hist L anc (sp_ledger (nspan n)) (sp_start (nspan n)))
    \<Longrightarrow> \<exists>tip. prefLoop L largest u its n = Some tip \<and> walkEnd (trieEntries L r) largest tip"
proof (induction n arbitrary: p lim u its)
  case (TrieNode sp t b cs)
  let ?M = "trieEntries L r" and ?n = "TrieNode sp t b cs"
  let ?N = "image_mset num ?M" and ?S = "prefStep num anc (trieEntries L r) largest"
  note p = TrieNode.prems(1,2)
  have n: "wfNode L ok anc ?n" using path_ledger[OF r p(1)] p(2) by simp
  have pr: "0 < b" "lim \<le> max (sp_start sp + 1) largest" using TrieNode.prems(3,5) by simp_all
  obtain q u1 its1 where loop: "prefLoop L largest u its ?n =
      (if q < sp_end sp then map_option (span_tip L) (span_before sp q)
       else case bestChild L cs of
         None \<Rightarrow> Some (span_tip L sp)
       | Some (best, margin) \<Rightarrow> if u1 < margin \<or> u1 = 0 then prefLoop L largest u1 its1 best
           else Some (span_tip L sp))"
    and adv: "pending ?N (max q largest) u1 its1" "sp_start sp < q" "q \<le> sp_end sp" "q < sp_end sp \<longrightarrow> b \<le> u1"
    and "?S\<^sup>*\<^sup>* (sp_start sp, hist L anc (sp_ledger sp) (sp_start sp)) (q - 1, hist L anc (sp_ledger sp) (q - 1))"
    by (rule prefLoop_span[OF r p pr(1) TrieNode.prems(4) pr(2)])
  then have walk: "?S\<^sup>*\<^sup>* (0, hist L anc (lg_genesis L) 0) (q - 1, hist L anc (sp_ledger sp) (q - 1))"
    using TrieNode.prems(6) by simp
  have u1: "uncommittedAt num ?M largest q = u1" by (rule uncommitted_pending(1)[OF adv(1)])
  note stop = walkEnd_span[OF r p adv(2,3) walk]
  consider "q < sp_end sp" | "q = sp_end sp" "\<nexists>c m. bestChild L cs = Some (c, m) \<and> (u1 < m \<or> u1 = 0)"
    | c m where "q = sp_end sp" "bestChild L cs = Some (c, m)" "u1 < m \<or> u1 = 0"
    using adv(3) by fastforce
  then show ?case
  proof cases
    case 1
    have "\<not> Ex (?S (q - 1, hist L anc (sp_ledger sp) (q - 1)))"
      using span_step[OF r p _ _ TrieNode.prems(3), of "q - 1" largest] adv 1 u1 by auto
    then show ?thesis
      using stop adv(2) 1 span_before_inside[OF adv(2,3)] by (simp add: loop del: prefLoop.simps)
  next
    case 2
    then have "\<not> Ex (?S (q - 1, hist L anc (sp_ledger sp) (q - 1)))"
      using best_step[OF r p u1[symmetric, unfolded 2(1)]] by (auto split: option.splits)
    moreover have "prefLoop L largest u its ?n = Some (span_tip L sp)"
      using 2 by (auto simp: loop split: option.split simp del: prefLoop.simps)
    moreover have "\<lparr>sp_start = sp_start sp, sp_end = q, sp_ledger = sp_ledger sp\<rparr> = sp" using 2(1) by simp
    ultimately show ?thesis using stop by simp
  next
    case (3 c m)
    with best_step[OF r p u1[symmetric, unfolded 3(1)]] have cs: "c \<in> set cs"
      and step: "?S (q - 1, hist L anc (sp_ledger sp) (q - 1))
        (q, hist L anc (sp_ledger (nspan c)) q)" by auto
    obtain i where "i < length cs" "cs ! i = c" using cs by (auto simp: in_set_conv_nth)
    then have pc: "validPath (p @ [i]) r" "c = nodeAt (p @ [i]) r"
      using p by (auto simp: validPath_snoc nodeAt_snoc simp flip: p(2))
    have "sp_start (nspan c) = q" using wf_childNode(3)[OF n cs] 3(1) by (simp add: joins_def)
    then have "\<exists>tip. prefLoop L largest u1 its1 c = Some tip \<and> walkEnd ?M largest tip"
      using adv(1) walk step child_facts(1)[OF r p cs]
      by (intro TrieNode.IH[OF cs pc]) (auto intro: rtranclp.rtrancl_into_rtrancl)
    then show ?thesis using 3 by (auto simp: loop simp del: prefLoop.simps)
  qed
qed

theorem getPreferred_spec:
  assumes wf: "wfTrie L ok num anc t"
  shows "if trieEntries L (troot t) = {#} then trie_getPreferred L largest t = Some None
    else \<exists>tip. trie_getPreferred L largest t = Some (Some tip)
      \<and> walkEnd (trieEntries L (troot t)) largest tip"
proof -
  have r: "wfNode L ok anc (troot t)" "sp_start (nspan (troot t)) = 0"
    and sup: "supports (seqSupport t) (image_mset num (trieEntries L (troot t)))"
    using wf by (auto simp: wfTrie_def)
  have led: "ok (sp_ledger (nspan (troot t)))" using r(1) by (cases "troot t") (simp add: wfSpan_def)
  have "\<exists>tip. prefLoop L largest 0 (seqSupport t) (troot t) = Some tip
      \<and> walkEnd (trieEntries L (troot t)) largest tip" if "0 < nbranch (troot t)"
    using that r anc_0[OF genesis_ok led] pending_start[OF sup]
    by (intro prefLoop_spec[where p = "[]"]) auto
  then show ?thesis
    using nbranch_size[OF r(1)] by (auto simp: trie_getPreferred_def trie_empty_def)
qed

section \<open>A supermajority decides\<close>

lemma prefStep_deterministic:
  assumes "prefStep num anc M largest s y" "prefStep num anc M largest s z"
  shows "y = z"
proof -
  obtain q x where s: "s = (q, x)" by (cases s)
  obtain q1 y1 where y: "y = (q1, y1)" by (cases y)
  obtain q2 z1 where z: "z = (q2, z1)" by (cases z)
  have "y1 = z1"
  proof (rule ccontr)
    assume "y1 \<noteq> z1"
    then have "branchAt num anc M q1 z1 < branchAt num anc M q1 y1 + of_bool (z1 < y1)"
      "branchAt num anc M q1 y1 < branchAt num anc M q1 z1 + of_bool (y1 < z1)"
      using assms unfolding s y z prefStep_def by fastforce+
    then show False using \<open>y1 \<noteq> z1\<close> by (cases "z1 < y1"; cases "y1 < z1") auto
  qed
  then show ?thesis using assms unfolding s y z prefStep_def by simp
qed

lemma walk_passes:
  assumes "(prefStep num anc M largest)\<^sup>*\<^sup>* a e" "\<not> Ex (prefStep num anc M largest e)"
    "(prefStep num anc M largest)\<^sup>*\<^sup>* a b"
  shows "(prefStep num anc M largest)\<^sup>*\<^sup>* b e"
  using assms(3)
proof (induction rule: rtranclp_induct)
  case base
  then show ?case using assms(1) .
next
  case (step y z)
  from step.IH step.hyps(2) assms(2) show ?case
    by (metis converse_rtranclpE prefStep_deterministic)
qed

lemma entry_anc:
  assumes "wfNode L ok anc r" "i \<in># trieEntries L r"
  obtains l where "ok l" "num i \<le> lg_seq L l" "\<forall>k \<le> num i. anc i k = hist L anc l k"
proof -
  obtain l where l: "ok l" "num i \<le> lg_seq L l" "i = hist L anc l (num i)"
    by (rule entry_ok[OF assms])
  have "anc i k = hist L anc l k" if "k \<le> num i" for k
    using anc_anc[OF l(1) that l(2)] l(3) by simp
  then show thesis using that l(1,2) by blast
qed

text \<open>Entries that share a ledger share its ancestors.\<close>

lemma entry_shared:
  assumes r: "wfNode L ok anc r" and i: "i \<in># trieEntries L r" "q \<le> num i"
    and j: "j \<in># trieEntries L r" "q \<le> num j" and "anc i q = anc j q" "k \<le> q"
  shows "anc i k = anc j k"
proof -
  obtain l where l: "ok l" "num j \<le> lg_seq L l" "\<forall>k \<le> num j. anc j k = hist L anc l k"
    by (rule entry_anc[OF r j(1)])
  have "anc j q = hist L anc l q" "anc j k = hist L anc l k" using l(3) j(2) assms(7) by auto
  moreover from this have "covers q (hist L anc l q) i" using assms(6) i(2) by (simp add: descends_def)
  then have "covers k (hist L anc l k) i"
    using order_trans[OF j(2) l(2)] by (rule covers_trans[OF r i(1) _ l(1) _ assms(7)])
  ultimately show ?thesis by (simp add: descends_def)
qed

text \<open>The walk goes from ledgers to descendants.\<close>

lemma walk_descends:
  assumes r: "wfNode L ok anc r" and "(prefStep num anc (trieEntries L r) largest)\<^sup>*\<^sup>* (q, x) e"
  shows "q \<le> fst e \<and> (e = (q, x) \<or>
    (\<exists>i. i \<in># trieEntries L r \<and> fst e \<le> num i \<and> anc i (fst e) = snd e \<and> anc i q = x))"
  using assms(2)
proof (induction rule: rtranclp_induct)
  case base
  then show ?case by simp
next
  case (step s e)
  obtain q1 y1 where s: "s = (q1, y1)" by (cases s)
  obtain i where i: "i \<in># trieEntries L r" "q1 < num i" "anc i q1 = y1" "e = (Suc q1, anc i (Suc q1))"
    using step.hyps(2) unfolding s prefStep_def nextLedgers_def
    by (cases e) (auto simp: descends_def)
  have "anc i q = x" using step.IH entry_shared[OF r i(1), of q1 _ q] i(2,3) s by fastforce
  then show ?case using step.IH i s by auto
qed

lemma size_filter_disjoint:
  "\<forall>i \<in># M. \<not> (P i \<and> Q i) \<Longrightarrow> size (filter_mset P M) + size (filter_mset Q M) \<le> size M"
  by (induction M) auto

lemma majority_step:
  assumes r: "wfNode L ok anc r" and i: "i \<in># trieEntries L r" "q \<le> num i"
    and maj: "2 * size (trieEntries L r) < 3 * branchAt num anc (trieEntries L r) q (anc i q)"
    and j: "largest \<le> q" "j < q"
  shows "prefStep num anc (trieEntries L r) largest (j, anc i j) (Suc j, anc i (Suc j))"
proof -
  let ?M = "trieEntries L r" and ?B = "branchAt num anc (trieEntries L r)"
  let ?u = "uncommittedAt num ?M largest (Suc j)"
  have up: "covers (Suc j) (anc i (Suc j)) k" if "k \<in># ?M" "covers q (anc i q) k" for k
    using entry_shared[OF r that(1) _ i, of "Suc j"] that(2) j(2) by (simp add: descends_def)
  have "filter_mset (covers q (anc i q)) ?M \<subseteq># filter_mset (covers (Suc j) (anc i (Suc j))) ?M"
    using up by (intro filter_mset_mono_strong) auto
  then have grow: "?B q (anc i q) \<le> ?B (Suc j) (anc i (Suc j))"
    unfolding branchAt_def by (rule size_mset_mono)
  have unc: "?u + ?B q (anc i q) \<le> size ?M"
    unfolding uncommittedAt_def branchAt_def using j by (intro size_filter_disjoint) (auto simp: descends_def)
  have other: "?B (Suc j) z + ?B q (anc i q) \<le> size ?M" if "z \<noteq> anc i (Suc j)" for z
    unfolding branchAt_def using up that by (intro size_filter_disjoint) (auto simp: descends_def)
  have "anc i (Suc j) \<in> nextLedgers num anc ?M j (anc i j)"
    unfolding nextLedgers_def using i j(2) by (auto simp: descends_def)
  moreover have "?u < ?B (Suc j) (anc i (Suc j))" using unc grow maj by linarith
  moreover have "?B (Suc j) z + ?u < ?B (Suc j) (anc i (Suc j))" if "z \<noteq> anc i (Suc j)" for z
    using other[OF that] unc grow maj by linarith
  ultimately show ?thesis
    unfolding prefStep_def by (auto simp: trans_less_add1)
qed

theorem majority_preferred:
  assumes wf: "wfTrie L ok num anc t"
    and maj: "2 * size (trieEntries L (troot t)) < 3 * branchAt num anc (trieEntries L (troot t)) q x"
    and "largest \<le> q"
  shows "\<exists>tip. trie_getPreferred L largest t = Some (Some tip)
    \<and> q \<le> tip_seq tip \<and> hist L anc (tip_ledger tip) q = x"
proof -
  let ?M = "trieEntries L (troot t)" and ?S = "prefStep num anc (trieEntries L (troot t)) largest"
  have r: "wfNode L ok anc (troot t)" using wf by (simp add: wfTrie_def)
  have "0 < size (filter_mset (covers q x) ?M)" using maj unfolding branchAt_def by linarith
  then have "filter_mset (covers q x) ?M \<noteq> {#}" by (simp only: nonempty_has_size)
  then obtain i where i: "i \<in># ?M" "q \<le> num i" "anc i q = x"
    by (auto simp: descends_def)
  then have "?M \<noteq> {#}" by auto
  then obtain tip where tip: "trie_getPreferred L largest t = Some (Some tip)" "walkEnd ?M largest tip"
    using getPreferred_spec[OF wf, of largest] by auto
  obtain l where l: "ok l" "num i \<le> lg_seq L l" "\<forall>k \<le> num i. anc i k = hist L anc l k"
    by (rule entry_anc[OF r i(1)])
  have "?S\<^sup>*\<^sup>* (0, anc i 0) (j, anc i j)" if "j \<le> q" for j
    using that
  proof (induction j)
    case (Suc j)
    then show ?case
      using majority_step[OF r i(1,2) _ assms(3), of j] maj i(3) by (auto intro: rtranclp.rtrancl_into_rtrancl)
  qed simp
  then have "?S\<^sup>*\<^sup>* (0, hist L anc (lg_genesis L) 0) (q, x)"
    using i(3) l(3) anc_0[OF genesis_ok l(1)] by force
  with tip(2) have "?S\<^sup>*\<^sup>* (q, x) (tip_seq tip, hist L anc (tip_ledger tip) (tip_seq tip))"
    unfolding walkEnd_def by (elim conjE) (rule walk_passes)
  then have d: "q \<le> tip_seq tip \<and> ((tip_seq tip, hist L anc (tip_ledger tip) (tip_seq tip)) = (q, x) \<or>
    (\<exists>i. i \<in># ?M \<and> tip_seq tip \<le> num i
       \<and> anc i (tip_seq tip) = hist L anc (tip_ledger tip) (tip_seq tip) \<and> anc i q = x))"
    using walk_descends[OF r, of largest q x "(tip_seq tip, hist L anc (tip_ledger tip) (tip_seq tip))"]
    by simp
  have "hist L anc (tip_ledger tip) q = anc k q"
    if k: "k \<in># ?M" "tip_seq tip \<le> num k"
      "anc k (tip_seq tip) = hist L anc (tip_ledger tip) (tip_seq tip)" for k
  proof -
    have "ok (tip_ledger tip)" "tip_seq tip \<le> lg_seq L (tip_ledger tip)"
      using tip(2) unfolding walkEnd_def by blast+
    moreover have "covers (tip_seq tip) (hist L anc (tip_ledger tip) (tip_seq tip)) k"
      using k(2,3) by (simp only: descends_def)
    ultimately have "covers q (hist L anc (tip_ledger tip) q) k"
      using covers_trans[OF r k(1), of "tip_seq tip" "tip_ledger tip" q] conjunct1[OF d] by blast
    then show ?thesis by (simp only: descends_def)
  qed
  then have "hist L anc (tip_ledger tip) q = x" using d by blast
  then show ?thesis using tip(1) d by blast
qed

end

end
