(* ===== verification/Rcl_Ledger.thy ===== *)
theory Rcl_Ledger
  imports Ledger_Trie_Pref
begin

text \<open>
  The ledgers of the trie: \<open>RCLValidatedLedger\<close> in
  \<^verbatim>\<open>src/ripple/app/consensus/RCLValidations.cpp\<close>. A ledger knows its identifier, its sequence
  number and the identifiers of its latest ancestors (at most 256, from the skip list of the
  ledger); \<open>mismatch\<close> searches the sequence numbers both ledgers know. It meets the contract
  \<open>ledger_history\<close> for the ledgers whose windows all reach back to a common ancestor.
\<close>

section \<open>The validated ledger\<close>

record RCLValidatedLedger =
  ledgerID :: uint256
  ledgerSeq :: nat
  ancestors :: "uint256 list"

definition makeGenesis :: RCLValidatedLedger where
  "makeGenesis = \<lparr>ledgerID = 0, ledgerSeq = 0, ancestors = []\<rparr>"

text \<open>
  The constructor reads the skip list of the ledger, if there is one: its last sequence number and
  its hashes.
\<close>

definition makeValidatedLedger ::
  "uint256 \<Rightarrow> nat \<Rightarrow> (nat \<times> uint256 list) option \<Rightarrow> RCLValidatedLedger option" where
  "makeValidatedLedger hash seq hashIndex =
     (case hashIndex of
        Some (lastLedgerSequence, hashes) \<Rightarrow> do {
          assertThat (lastLedgerSequence + 1 = seq);
          Some \<lparr>ledgerID = hash, ledgerSeq = seq, ancestors = hashes\<rparr>
        }
      | None \<Rightarrow> Some \<lparr>ledgerID = hash, ledgerSeq = seq, ancestors = []\<rparr>)"

definition rv_minSeq :: "RCLValidatedLedger \<Rightarrow> nat" where
  "rv_minSeq l = ledgerSeq l - min (ledgerSeq l) (length (ancestors l))"

definition rv_get :: "RCLValidatedLedger \<Rightarrow> nat \<Rightarrow> uint256" where
  "rv_get l s =
     (if rv_minSeq l \<le> s \<and> s \<le> ledgerSeq l then
        if s = ledgerSeq l then ledgerID l
        else ancestors l ! (length (ancestors l) - (ledgerSeq l - s))
      else 0)"

fun mismatchLoop :: "RCLValidatedLedger \<Rightarrow> RCLValidatedLedger \<Rightarrow> nat \<Rightarrow> nat \<Rightarrow> nat" where
  "mismatchLoop a b lower 0 = 0"
| "mismatchLoop a b lower (Suc c) =
     (if rv_get a (Suc c) \<noteq> rv_get b (Suc c) \<and> lower \<le> Suc c then mismatchLoop a b lower c else Suc c)"

definition rv_mismatch :: "RCLValidatedLedger \<Rightarrow> RCLValidatedLedger \<Rightarrow> nat" where
  "rv_mismatch a b =
     (let lower = max (rv_minSeq a) (rv_minSeq b);
          upper = min (ledgerSeq a) (ledgerSeq b);
          c = mismatchLoop a b lower upper
      in if c < lower then 1 else c + 1)"

definition rclLedgerOps :: "RCLValidatedLedger LedgerOps" where
  "rclLedgerOps = \<lparr>lg_seq = ledgerSeq, lg_id = ledgerID, lg_get = rv_get, lg_mismatch = rv_mismatch,
     lg_genesis = makeGenesis\<rparr>"

section \<open>Histories\<close>

text \<open>
  The chain of ledgers is the function from the identifier of a ledger to that of its parent, which
  ends in the genesis identifier 0. The number of a ledger is its distance from there.
\<close>

definition chain_num :: "(uint256 \<Rightarrow> uint256) \<Rightarrow> uint256 \<Rightarrow> nat" where
  "chain_num par i = (LEAST k. (par ^^ k) i = 0)"

definition chain_anc :: "(uint256 \<Rightarrow> uint256) \<Rightarrow> uint256 \<Rightarrow> nat \<Rightarrow> uint256" where
  "chain_anc par i s = (par ^^ (chain_num par i - s)) i"

text \<open>
  A ledger describes the chain truly: its sequence number is its number, its list holds its latest
  ancestors, and the list reaches back to the common ancestor.
\<close>

definition rv_ok :: "(uint256 \<Rightarrow> uint256) \<Rightarrow> nat \<Rightarrow> uint256 \<Rightarrow> RCLValidatedLedger \<Rightarrow> bool" where
  "rv_ok par base baseID l \<longleftrightarrow> l = makeGenesis \<or>
     (par ^^ ledgerSeq l) (ledgerID l) = 0 \<and> (\<forall>k < ledgerSeq l. (par ^^ k) (ledgerID l) \<noteq> 0)
     \<and> (\<forall>k < length (ancestors l). k < ledgerSeq l \<longrightarrow>
          ancestors l ! (length (ancestors l) - Suc k) = (par ^^ Suc k) (ledgerID l))
     \<and> 0 < ledgerSeq l \<and> rv_minSeq l \<le> base \<and> base \<le> ledgerSeq l
     \<and> (par ^^ (ledgerSeq l - base)) (ledgerID l) = baseID"

lemma funpow_twice: "(f ^^ a) ((f ^^ b) x) = (f ^^ (a + b)) x"
  by (simp add: funpow_add)

lemma chain_num_eq:
  assumes "(par ^^ n) i = 0" "\<forall>k < n. (par ^^ k) i \<noteq> 0" "k \<le> n"
  shows "chain_num par ((par ^^ k) i) = n - k"
  unfolding chain_num_def
proof (rule Least_equality)
  show "(par ^^ (n - k)) ((par ^^ k) i) = 0" using assms(1,3) by (simp add: funpow_twice)
next
  fix y assume "(par ^^ y) ((par ^^ k) i) = 0"
  then have "(par ^^ (y + k)) i = 0" by (simp add: funpow_twice)
  then have "\<not> y + k < n" using assms(2) by blast
  then show "n - k \<le> y" by simp
qed

lemma rv_history:
  assumes "rv_ok par base baseID l"
  shows "(par ^^ ledgerSeq l) (ledgerID l) = 0" "\<forall>k < ledgerSeq l. (par ^^ k) (ledgerID l) \<noteq> 0"
  using assms by (auto simp: rv_ok_def makeGenesis_def)

lemma rv_num:
  assumes "rv_ok par base baseID l" "k \<le> ledgerSeq l"
  shows "chain_num par ((par ^^ k) (ledgerID l)) = ledgerSeq l - k"
  by (rule chain_num_eq[OF rv_history[OF assms(1)] assms(2)])

lemma rv_num_id: "rv_ok par base baseID l \<Longrightarrow> chain_num par (ledgerID l) = ledgerSeq l"
  using rv_num[of par base baseID l 0] by simp

lemma rv_anc:
  assumes "rv_ok par base baseID l"
  shows "chain_anc par (ledgerID l) s = (par ^^ (ledgerSeq l - s)) (ledgerID l)"
  by (simp add: chain_anc_def rv_num_id[OF assms])

lemma rv_anc_anc:
  assumes "rv_ok par base baseID l" "q \<le> s" "s \<le> ledgerSeq l"
  shows "chain_anc par (chain_anc par (ledgerID l) s) q = chain_anc par (ledgerID l) q"
  using assms rv_num[OF assms(1), of "ledgerSeq l - s"]
  by (simp add: rv_anc[OF assms(1)] chain_anc_def[of _ "(par ^^ _) _"] funpow_twice)

text \<open>What a ledger answers about the ancestors in its window is true.\<close>

lemma rv_get_window:
  assumes "rv_ok par base baseID l" "rv_minSeq l \<le> s" "s \<le> ledgerSeq l"
  shows "rv_get l s = chain_anc par (ledgerID l) s"
proof (cases "s = ledgerSeq l")
  case True
  then show ?thesis using assms by (simp add: rv_get_def rv_anc rv_minSeq_def)
next
  case False
  let ?k = "ledgerSeq l - s - 1"
  have k: "?k < length (ancestors l)" "?k < ledgerSeq l" "Suc ?k = ledgerSeq l - s"
    using False assms(2,3) by (auto simp: rv_minSeq_def)
  then have "l \<noteq> makeGenesis" by (auto simp: makeGenesis_def)
  then have "ancestors l ! (length (ancestors l) - Suc ?k) = (par ^^ Suc ?k) (ledgerID l)"
    using assms(1) k(1,2) unfolding rv_ok_def by blast
  then show ?thesis
    using False assms(2,3) unfolding k(3) by (simp add: rv_get_def rv_anc[OF assms(1)])
qed

lemma rv_get_known:
  assumes "rv_ok par base baseID l" "l \<noteq> makeGenesis" "base \<le> s" "s \<le> ledgerSeq l"
  shows "rv_get l s = chain_anc par (ledgerID l) s"
  using assms by (intro rv_get_window) (auto simp: rv_ok_def)

lemma rv_get_seq: "rv_get l (ledgerSeq l) = ledgerID l"
  by (simp add: rv_get_def rv_minSeq_def)

lemma mismatchLoop_spec:
  assumes "base \<le> upper" "lower \<le> base" "rv_get a base = rv_get b base"
  shows "base \<le> mismatchLoop a b lower upper \<and> mismatchLoop a b lower upper \<le> upper
    \<and> (0 < mismatchLoop a b lower upper \<longrightarrow>
         rv_get a (mismatchLoop a b lower upper) = rv_get b (mismatchLoop a b lower upper))
    \<and> (\<forall>q. mismatchLoop a b lower upper < q \<and> q \<le> upper \<longrightarrow> rv_get a q \<noteq> rv_get b q)"
  using assms(1)
proof (induction upper)
  case (Suc c)
  show ?case
  proof (cases "base = Suc c")
    case True
    then show ?thesis using assms by auto
  next
    case False
    then show ?thesis using Suc assms(2) by (auto simp: le_Suc_eq)
  qed
qed simp

lemma rv_base:
  assumes "rv_ok par base baseID l" "l \<noteq> makeGenesis"
  shows "base \<le> ledgerSeq l" "rv_minSeq l \<le> base" "0 < ledgerSeq l"
    "chain_anc par (ledgerID l) base = baseID"
  using assms by (auto simp: rv_ok_def rv_anc)

lemma rv_shared:
  assumes "rv_ok par base baseID a" "rv_ok par base baseID b" "s \<le> ledgerSeq a" "s \<le> ledgerSeq b"
    "chain_anc par (ledgerID a) s = chain_anc par (ledgerID b) s" "q \<le> s"
  shows "chain_anc par (ledgerID a) q = chain_anc par (ledgerID b) q"
  using rv_anc_anc[OF assms(1,6,3)] rv_anc_anc[OF assms(2,6,4)] assms(5) by simp

lemma rv_genesis_anc: "rv_ok par base baseID l \<Longrightarrow> chain_anc par (ledgerID l) 0 = 0"
  using rv_history(1) rv_anc by fastforce

lemma rv_mismatch_genesis:
  assumes "a = makeGenesis \<or> b = makeGenesis"
  shows "rv_mismatch a b = 1"
  using assms by (auto simp: rv_mismatch_def Let_def makeGenesis_def)

text \<open>The search finds the last ledger that two histories share, at or after the common ancestor.\<close>

lemma rv_mismatch_spec:
  assumes a: "rv_ok par base baseID a" "a \<noteq> makeGenesis" and b: "rv_ok par base baseID b" "b \<noteq> makeGenesis"
  obtains c where "rv_mismatch a b = Suc c" "base \<le> c" "c \<le> ledgerSeq a" "c \<le> ledgerSeq b"
    "chain_anc par (ledgerID a) c = chain_anc par (ledgerID b) c"
    "\<And>q. c < q \<Longrightarrow> q \<le> ledgerSeq a \<Longrightarrow> q \<le> ledgerSeq b \<Longrightarrow>
      chain_anc par (ledgerID a) q \<noteq> chain_anc par (ledgerID b) q"
proof -
  let ?lower = "max (rv_minSeq a) (rv_minSeq b)" and ?upper = "min (ledgerSeq a) (ledgerSeq b)"
  define c where "c = mismatchLoop a b ?lower ?upper"
  note known = rv_get_known[OF a] rv_get_known[OF b]
  have "rv_get a base = rv_get b base" using known rv_base[OF a] rv_base[OF b] by simp
  then have c: "base \<le> c" "c \<le> ?upper" "0 < c \<longrightarrow> rv_get a c = rv_get b c"
    "\<forall>q. c < q \<and> q \<le> ?upper \<longrightarrow> rv_get a q \<noteq> rv_get b q"
    using mismatchLoop_spec[of base ?upper ?lower a b] rv_base[OF a] rv_base[OF b]
    unfolding c_def by auto
  have "chain_anc par (ledgerID a) c = chain_anc par (ledgerID b) c"
    using c known rv_genesis_anc[OF a(1)] rv_genesis_anc[OF b(1)] by (cases "c = 0") auto
  moreover have "rv_mismatch a b = Suc c"
    using c(1) rv_base[OF a] rv_base[OF b] by (auto simp: rv_mismatch_def c_def Let_def)
  moreover have "chain_anc par (ledgerID a) q \<noteq> chain_anc par (ledgerID b) q"
    if "c < q" "q \<le> ledgerSeq a" "q \<le> ledgerSeq b" for q
    using c(1,4) that known by auto
  ultimately show thesis using that c(1,2) by auto
qed

lemma rv_mismatch_iff:
  assumes ab: "rv_ok par base baseID a" "rv_ok par base baseID b"
  shows "s < rv_mismatch a b \<longleftrightarrow> s \<le> ledgerSeq a \<and> s \<le> ledgerSeq b
    \<and> chain_anc par (ledgerID a) s = chain_anc par (ledgerID b) s"
proof (cases "a = makeGenesis \<or> b = makeGenesis")
  case True
  then have "ledgerSeq a = 0 \<or> ledgerSeq b = 0" by (auto simp: makeGenesis_def)
  then show ?thesis
    using rv_mismatch_genesis[OF True] rv_genesis_anc[OF ab(1)] rv_genesis_anc[OF ab(2)] by auto
next
  case False
  then obtain c where c: "rv_mismatch a b = Suc c" "c \<le> ledgerSeq a" "c \<le> ledgerSeq b"
    "chain_anc par (ledgerID a) c = chain_anc par (ledgerID b) c"
    "\<And>q. c < q \<Longrightarrow> q \<le> ledgerSeq a \<Longrightarrow> q \<le> ledgerSeq b \<Longrightarrow>
      chain_anc par (ledgerID a) q \<noteq> chain_anc par (ledgerID b) q"
    using rv_mismatch_spec[OF ab(1) _ ab(2)] by metis
  show ?thesis
    using c rv_shared[OF ab c(2,3,4), of s] by (cases "s \<le> c") auto
qed

lemma rv_get_mismatch:
  assumes ab: "rv_ok par base baseID a" "rv_ok par base baseID b"
  shows "rv_get a (rv_mismatch a b - 1) = chain_anc par (ledgerID a) (rv_mismatch a b - 1)"
    and "rv_mismatch a b \<le> ledgerSeq a \<Longrightarrow> rv_mismatch a b \<le> ledgerSeq b \<Longrightarrow>
      rv_get a (rv_mismatch a b) = chain_anc par (ledgerID a) (rv_mismatch a b)"
proof -
  have gen: "rv_get a 0 = chain_anc par (ledgerID a) 0"
    using rv_get_window[OF ab(1), of 0] rv_genesis_anc[OF ab(1)]
    by (cases "rv_minSeq a = 0") (auto simp: rv_get_def)
  show "rv_get a (rv_mismatch a b - 1) = chain_anc par (ledgerID a) (rv_mismatch a b - 1)"
  proof (cases "a = makeGenesis \<or> b = makeGenesis")
    case True
    then show ?thesis using rv_mismatch_genesis gen by simp
  next
    case False
    then show ?thesis
      using rv_mismatch_spec[OF ab(1) _ ab(2)] rv_get_known[OF ab(1)] by (metis diff_Suc_1)
  qed
  show "rv_get a (rv_mismatch a b) = chain_anc par (ledgerID a) (rv_mismatch a b)"
    if m: "rv_mismatch a b \<le> ledgerSeq a" "rv_mismatch a b \<le> ledgerSeq b"
  proof -
    have "\<not> (a = makeGenesis \<or> b = makeGenesis)"
      using m rv_mismatch_genesis[of a b] by (auto simp: makeGenesis_def)
    then show ?thesis
      using rv_mismatch_spec[OF ab(1) _ ab(2)] rv_get_known[OF ab(1)] m(1) by (metis le_SucI)
  qed
qed

interpretation rl: ledger_history rclLedgerOps "rv_ok par base baseID" "chain_num par" "chain_anc par"
  for par base baseID
proof
  show "rv_ok par base baseID (lg_genesis rclLedgerOps)" by (simp add: rv_ok_def rclLedgerOps_def)
  show "lg_seq rclLedgerOps (lg_genesis rclLedgerOps) = 0"
    by (simp add: rclLedgerOps_def makeGenesis_def)
next
  fix l q s assume l: "rv_ok par base baseID l"
  show "hist rclLedgerOps (chain_anc par) l (lg_seq rclLedgerOps l) = lg_id rclLedgerOps l"
    "lg_get rclLedgerOps l (lg_seq rclLedgerOps l) = lg_id rclLedgerOps l"
    by (simp_all add: rclLedgerOps_def rv_anc[OF l] rv_get_seq)
  assume s: "s \<le> lg_seq rclLedgerOps l"
  then show "chain_num par (hist rclLedgerOps (chain_anc par) l s) = s"
    using rv_num[OF l, of "ledgerSeq l - s"] by (simp add: rclLedgerOps_def rv_anc[OF l])
  assume "q \<le> s"
  with s show "chain_anc par (hist rclLedgerOps (chain_anc par) l s) q = hist rclLedgerOps (chain_anc par) l q"
    using rv_anc_anc[OF l] by (simp add: rclLedgerOps_def)
next
  fix a b assume ab: "rv_ok par base baseID a" "rv_ok par base baseID b"
  show "hist rclLedgerOps (chain_anc par) a 0 = hist rclLedgerOps (chain_anc par) b 0"
    using ab rv_genesis_anc by (simp add: rclLedgerOps_def)
next
  fix a b s assume ab: "rv_ok par base baseID a" "rv_ok par base baseID b"
  show "s < lg_mismatch rclLedgerOps a b \<longleftrightarrow> s \<le> lg_seq rclLedgerOps a \<and> s \<le> lg_seq rclLedgerOps b
      \<and> hist rclLedgerOps (chain_anc par) a s = hist rclLedgerOps (chain_anc par) b s"
    using rv_mismatch_iff[OF ab] by (simp add: rclLedgerOps_def)
next
  fix a b assume ab: "rv_ok par base baseID a" "rv_ok par base baseID b"
  show "lg_get rclLedgerOps a (lg_mismatch rclLedgerOps a b - 1)
      = hist rclLedgerOps (chain_anc par) a (lg_mismatch rclLedgerOps a b - 1)"
    using rv_get_mismatch(1)[OF ab] by (simp add: rclLedgerOps_def)
next
  fix a b assume ab: "rv_ok par base baseID a" "rv_ok par base baseID b"
    and m: "lg_mismatch rclLedgerOps a b \<le> lg_seq rclLedgerOps a" "lg_mismatch rclLedgerOps a b \<le> lg_seq rclLedgerOps b"
  show "lg_get rclLedgerOps a (lg_mismatch rclLedgerOps a b)
      = hist rclLedgerOps (chain_anc par) a (lg_mismatch rclLedgerOps a b)"
    using rv_get_mismatch(2)[OF ab] m by (simp add: rclLedgerOps_def)
qed

end
