(* ===== verification/Ledger_Trie_Props.thy ===== *)
theory Ledger_Trie_Props
  imports Rcl_Ledger
begin

text \<open>
  The properties of the ledger trie over the validated ledgers: it implements a multiset of ledger
  identifiers, its preferred ledger is the one at which the reference walk ends, and a
  supermajority decides the preferred ledger.
\<close>

section \<open>Sequences of operations\<close>

datatype 'l trie_op = Support 'l nat | Withdraw 'l nat

fun trie_step :: "'l LedgerOps \<Rightarrow> 'l trie_op \<Rightarrow> 'l LedgerTrie \<Rightarrow> 'l LedgerTrie option" where
  "trie_step L (Support l k) t = trie_insert L l k t"
| "trie_step L (Withdraw l k) t = map_option snd (trie_remove L l k t)"

fun trie_spec :: "'l LedgerOps \<Rightarrow> 'l trie_op \<Rightarrow> uint256 multiset \<Rightarrow> uint256 multiset" where
  "trie_spec L (Support l k) M = M + replicate_mset k (lg_id L l)"
| "trie_spec L (Withdraw l k) M = M - replicate_mset k (lg_id L l)"

fun trie_op_ok :: "('l \<Rightarrow> bool) \<Rightarrow> 'l trie_op \<Rightarrow> bool" where
  "trie_op_ok ok (Support l k) \<longleftrightarrow> ok l \<and> 0 < k"
| "trie_op_ok ok (Withdraw l k) \<longleftrightarrow> ok l"

context ledger_history
begin

lemma trie_step_refines:
  assumes "wfTrie L ok num anc t" "trie_op_ok ok op"
  shows "\<exists>t'. trie_step L op t = Some t' \<and> wfTrie L ok num anc t'
    \<and> trieEntries L (troot t') = trie_spec L op (trieEntries L (troot t))"
proof (cases op)
  case (Support l k)
  then show ?thesis using trie_insert_spec assms by simp
next
  case (Withdraw l k)
  then show ?thesis using trie_remove_spec[OF assms(1), of l k] assms(2) by fastforce
qed

lemma trie_run_refines:
  "wfTrie L ok num anc t \<Longrightarrow> list_all (trie_op_ok ok) ops \<Longrightarrow>
     \<exists>t'. foldM (trie_step L) ops t = Some t' \<and> wfTrie L ok num anc t'
       \<and> trieEntries L (troot t') = fold (trie_spec L) ops (trieEntries L (troot t))"
proof (induction ops arbitrary: t)
  case (Cons op ops)
  then obtain u where "trie_step L op t = Some u" "wfTrie L ok num anc u"
    "trieEntries L (troot u) = trie_spec L op (trieEntries L (troot t))"
    using trie_step_refines[of t op] by auto
  with Cons.IH[of u] Cons.prems show ?case by simp
qed simp

lemma trie_run_new:
  assumes "list_all (trie_op_ok ok) ops"
  obtains t where "foldM (trie_step L) ops (newTrie L) = Some t" "wfTrie L ok num anc t"
    "trieEntries L (troot t) = fold (trie_spec L) ops {#}"
  using trie_run_refines[OF newTrie_wf(1) assms] newTrie_wf(2) by auto

end

section \<open>Properties\<close>

abbreviation trie_run :: "RCLValidatedLedger trie_op list \<Rightarrow> RCLValidatedLedger LedgerTrie option" where
  "trie_run ops \<equiv> foldM (trie_step rclLedgerOps) ops (newTrie rclLedgerOps)"

abbreviation trie_sum :: "RCLValidatedLedger trie_op list \<Rightarrow> uint256 multiset" where
  "trie_sum ops \<equiv> fold (trie_spec rclLedgerOps) ops {#}"

text \<open>
  (C4) The ledger trie is a multiset. Any sequence of insertions and removals of support for ledgers
  with a common ancestor runs without a failed assertion and leaves a trie that passes the code's own
  invariant check. With the multiset that the same sequence leaves, the tip support of a ledger is
  the number of its occurrences, its branch support is the number of occurrences of it and its
  descendants, the trie is empty when the multiset is, and a removal reports whether the ledger
  occurs.
\<close>

theorem ledger_trie_refines_multiset:
  assumes "list_all (trie_op_ok (rv_ok par base baseID)) ops"
  shows "\<exists>t. trie_run ops = Some t \<and> checkInvariants t \<and> (trie_empty t \<longleftrightarrow> trie_sum ops = {#})
    \<and> (\<forall>l. rv_ok par base baseID l \<longrightarrow>
        trie_tipSupport rclLedgerOps l t = count (trie_sum ops) (ledgerID l)
        \<and> trie_branchSupport rclLedgerOps l t
          = size (filter_mset (descends (chain_num par) (chain_anc par) (ledgerSeq l) (ledgerID l))
              (trie_sum ops))
        \<and> (\<forall>k. map_option fst (trie_remove rclLedgerOps l k t) = Some (ledgerID l \<in># trie_sum ops)))"
proof -
  obtain t where t: "trie_run ops = Some t"
    "wfTrie rclLedgerOps (rv_ok par base baseID) (chain_num par) (chain_anc par) t"
    "trieEntries rclLedgerOps (troot t) = trie_sum ops"
    using rl.trie_run_new[OF assms] .
  have ops: "lg_id rclLedgerOps = ledgerID" "lg_seq rclLedgerOps = ledgerSeq"
    by (simp_all add: rclLedgerOps_def)
  have "nbranch (troot t) = size (trie_sum ops)"
    using t(2,3) nbranch_size[of rclLedgerOps "rv_ok par base baseID" "chain_anc par" "troot t"]
    by (simp add: wfTrie_def)
  then have "trie_empty t \<longleftrightarrow> trie_sum ops = {#}" by (simp add: trie_empty_def)
  moreover have "map_option fst (trie_remove rclLedgerOps l k t) = Some (ledgerID l \<in># trie_sum ops)"
    if "rv_ok par base baseID l" for l k
    using rl.trie_remove_spec[OF t(2) that, of k] t(3) ops by auto
  ultimately show ?thesis
    using t rl.checkInvariants_wf[OF t(2)] rl.trie_tipSupport_spec[OF t(2)]
      rl.trie_branchSupport_spec[OF t(2)] ops by auto
qed

section \<open>A sample chain\<close>

text \<open>Ledgers 3 and 13 have the parent 2; ledger 4 has the parent 3.\<close>

definition samplePar :: "uint256 \<Rightarrow> uint256" where
  "samplePar i = (if i = 13 then 2 else i - 1)"

definition sampleA :: RCLValidatedLedger where
  "sampleA = \<lparr>ledgerID = 3, ledgerSeq = 3, ancestors = [1, 2]\<rparr>"

definition sampleB :: RCLValidatedLedger where
  "sampleB = \<lparr>ledgerID = 13, ledgerSeq = 3, ancestors = [1, 2]\<rparr>"

definition sampleC :: RCLValidatedLedger where
  "sampleC = \<lparr>ledgerID = 4, ledgerSeq = 4, ancestors = [1, 2, 3]\<rparr>"

lemma samplePar_simps [simp]:
  "samplePar 13 = 2" "samplePar 4 = 3" "samplePar 3 = 2" "samplePar 2 = 1" "samplePar 1 = 0"
  by (simp_all add: samplePar_def)

lemma ball_less_numeral:
  "(\<forall>k < 2. P k) \<longleftrightarrow> P 0 \<and> P (1::nat)" "(\<forall>k < 3. P k) \<longleftrightarrow> P 0 \<and> P 1 \<and> P (2::nat)"
  "(\<forall>k < 4. P k) \<longleftrightarrow> P 0 \<and> P 1 \<and> P 2 \<and> P (3::nat)"
  by (auto simp: less_Suc_eq numeral_2_eq_2 numeral_3_eq_3 eval_nat_numeral)

lemma funpow_small:
  "(f ^^ 2) x = f (f x)" "(f ^^ 3) x = f (f (f x))" "(f ^^ 4) x = f (f (f (f x)))"
  by (simp_all add: eval_nat_numeral)

lemma sampleLedgers_ok: "rv_ok samplePar 2 2 sampleA" "rv_ok samplePar 2 2 sampleB" "rv_ok samplePar 2 2 sampleC"
  unfolding rv_ok_def sampleA_def sampleB_def sampleC_def RCLValidatedLedger.select_convs
  by (intro disjI2, simp add: ball_less_numeral rv_minSeq_def funpow_small All_less_Suc)+

text \<open>The numbers and ancestors of the sample ledgers, through the facts on ledgers of the chain.\<close>

lemma sample_num: "chain_num samplePar 3 = 3" "chain_num samplePar 13 = 3" "chain_num samplePar 4 = 4"
  using rv_num_id[OF sampleLedgers_ok(1)] rv_num_id[OF sampleLedgers_ok(2)] rv_num_id[OF sampleLedgers_ok(3)]
  by (simp_all add: sampleA_def sampleB_def sampleC_def)

lemma sample_descends:
  "descends (chain_num samplePar) (chain_anc samplePar) 3 3 3"
  "descends (chain_num samplePar) (chain_anc samplePar) 3 3 4"
  "\<not> descends (chain_num samplePar) (chain_anc samplePar) 3 3 13"
  by (simp_all add: descends_def chain_anc_def sample_num funpow_small)

theorem ledger_trie_refines_multiset_witness:
  "\<exists>t. trie_run [Support sampleA 2, Support sampleB 1, Support sampleC 1, Withdraw sampleA 1] = Some t
     \<and> checkInvariants t
     \<and> trie_tipSupport rclLedgerOps sampleA t = 1 \<and> trie_branchSupport rclLedgerOps sampleA t = 2"
proof -
  let ?ops = "[Support sampleA 2, Support sampleB 1, Support sampleC 1, Withdraw sampleA 1]"
  have ok: "list_all (trie_op_ok (rv_ok samplePar 2 2)) ?ops" using sampleLedgers_ok by simp
  have ids: "lg_id rclLedgerOps sampleA = 3" "lg_id rclLedgerOps sampleB = 13" "lg_id rclLedgerOps sampleC = 4"
    by (simp_all add: rclLedgerOps_def sampleA_def sampleB_def sampleC_def)
  have sum: "trie_sum ?ops = {#3, 13, 4#}" by (simp add: ids numeral_2_eq_2)
  obtain t where t: "trie_run ?ops = Some t" "checkInvariants t"
    and l: "\<forall>l. rv_ok samplePar 2 2 l \<longrightarrow>
        trie_tipSupport rclLedgerOps l t = count (trie_sum ?ops) (ledgerID l)
        \<and> trie_branchSupport rclLedgerOps l t
          = size (filter_mset (descends (chain_num samplePar) (chain_anc samplePar) (ledgerSeq l) (ledgerID l))
              (trie_sum ?ops))
        \<and> (\<forall>k. map_option fst (trie_remove rclLedgerOps l k t) = Some (ledgerID l \<in># trie_sum ?ops))"
    using ledger_trie_refines_multiset[OF ok] by blast
  have "trie_tipSupport rclLedgerOps sampleA t = 1" "trie_branchSupport rclLedgerOps sampleA t = 2"
    using l[rule_format, OF sampleLedgers_ok(1)] sample_descends unfolding sum by (simp_all add: sampleA_def)
  with t show ?thesis by blast
qed

text \<open>
  (C5) The preferred ledger. After any sequence of insertions and removals of support, the search for
  the preferred ledger, which jumps along compressed spans and between changes of the uncommitted
  support, returns no ledger when there is no support, and otherwise the ledger at which the walk
  along single ledgers ends: the walk reaches it from the genesis ledger, and no step leaves it.
\<close>

theorem getPreferred_walk:
  assumes "list_all (trie_op_ok (rv_ok par base baseID)) ops"
  shows "\<exists>t. trie_run ops = Some t \<and>
    (if trie_sum ops = {#} then trie_getPreferred rclLedgerOps largestIssued t = Some None
     else \<exists>tip. trie_getPreferred rclLedgerOps largestIssued t = Some (Some tip)
       \<and> tip_id tip = rv_get (tip_ledger tip) (tip_seq tip)
       \<and> (prefStep (chain_num par) (chain_anc par) (trie_sum ops) largestIssued)\<^sup>*\<^sup>* (0, 0)
           (tip_seq tip, chain_anc par (ledgerID (tip_ledger tip)) (tip_seq tip))
       \<and> \<not> Ex (prefStep (chain_num par) (chain_anc par) (trie_sum ops) largestIssued
           (tip_seq tip, chain_anc par (ledgerID (tip_ledger tip)) (tip_seq tip))))"
proof -
  obtain t where t: "trie_run ops = Some t"
    "wfTrie rclLedgerOps (rv_ok par base baseID) (chain_num par) (chain_anc par) t"
    "trieEntries rclLedgerOps (troot t) = trie_sum ops"
    using rl.trie_run_new[OF assms] .
  have "hist rclLedgerOps (chain_anc par) (lg_genesis rclLedgerOps) 0 = 0"
    using rv_genesis_anc[OF rl.genesis_ok] by (simp add: rclLedgerOps_def)
  moreover have ops: "lg_id rclLedgerOps = ledgerID" "lg_get rclLedgerOps = rv_get"
    by (simp_all add: rclLedgerOps_def)
  ultimately show ?thesis
    using rl.getPreferred_spec[OF t(2), of largestIssued] t(1) unfolding t(3) rl.walkEnd_def
    by (auto split: if_splits)
qed

text \<open>The number of entries and of descendants of ledger 3 after the sample operations.\<close>

abbreviation sampleOps :: "RCLValidatedLedger trie_op list" where
  "sampleOps \<equiv> [Support sampleA 2, Support sampleC 1, Support sampleB 1]"

lemma sampleOps_ok: "list_all (trie_op_ok (rv_ok samplePar 2 2)) sampleOps"
  using sampleLedgers_ok by simp

lemma sampleOps_sum: "trie_sum sampleOps = {#3, 3, 4, 13#}"
  by (simp add: rclLedgerOps_def sampleA_def sampleB_def sampleC_def numeral_2_eq_2)

theorem getPreferred_walk_witness:
  "\<exists>t tip. trie_run sampleOps = Some t \<and> trie_getPreferred rclLedgerOps 0 t = Some (Some tip)
     \<and> (prefStep (chain_num samplePar) (chain_anc samplePar) (trie_sum sampleOps) 0)\<^sup>*\<^sup>* (0, 0)
           (tip_seq tip, chain_anc samplePar (ledgerID (tip_ledger tip)) (tip_seq tip))"
proof -
  have "trie_sum sampleOps \<noteq> {#}" unfolding sampleOps_sum by simp
  then show ?thesis
    using getPreferred_walk[OF sampleOps_ok, of 0] by metis
qed

text \<open>
  (C6) A supermajority decides. When the entries for a ledger and its descendants are more than two
  thirds of all entries, and no validation with a larger sequence number has been issued here, the
  preferred ledger is that ledger or a descendant of it.
\<close>

theorem supermajority_preferred:
  assumes "list_all (trie_op_ok (rv_ok par base baseID)) ops"
    and "2 * size (trie_sum ops) < 3 * size (filter_mset (descends (chain_num par) (chain_anc par) q x)
      (trie_sum ops))"
    and "largestIssued \<le> q"
  shows "\<exists>t tip. trie_run ops = Some t \<and> trie_getPreferred rclLedgerOps largestIssued t = Some (Some tip)
    \<and> q \<le> tip_seq tip \<and> chain_anc par (ledgerID (tip_ledger tip)) q = x"
proof -
  obtain t where t: "trie_run ops = Some t"
    "wfTrie rclLedgerOps (rv_ok par base baseID) (chain_num par) (chain_anc par) t"
    "trieEntries rclLedgerOps (troot t) = trie_sum ops"
    using rl.trie_run_new[OF assms(1)] .
  show ?thesis
    using rl.majority_preferred[OF t(2) _ assms(3), of x] t(1) assms(2) unfolding t(3) branchAt_def
    by (auto simp: rclLedgerOps_def)
qed

theorem supermajority_preferred_witness:
  "\<exists>t tip. trie_run sampleOps = Some t \<and> trie_getPreferred rclLedgerOps 3 t = Some (Some tip)
    \<and> 3 \<le> tip_seq tip \<and> chain_anc samplePar (ledgerID (tip_ledger tip)) 3 = 3"
proof -
  have "2 * size (trie_sum sampleOps)
      < 3 * size (filter_mset (descends (chain_num samplePar) (chain_anc samplePar) 3 3) (trie_sum sampleOps))"
    unfolding sampleOps_sum using sample_descends by simp
  then show ?thesis by (rule supermajority_preferred[OF sampleOps_ok _ order_refl])
qed

text \<open>
  (C31) The first mismatch. For two ledgers whose windows of known ancestors reach back to a common
  ancestor, \<open>mismatch\<close> is the first sequence number at which their histories differ: the ledgers
  before it are shared, and from it on they are not.
\<close>

theorem mismatch_first_difference:
  assumes "rv_ok par base baseID a" "rv_ok par base baseID b"
  shows "s < rv_mismatch a b \<longleftrightarrow> s \<le> ledgerSeq a \<and> s \<le> ledgerSeq b
    \<and> chain_anc par (ledgerID a) s = chain_anc par (ledgerID b) s"
  by (rule rv_mismatch_iff[OF assms])

theorem mismatch_first_difference_witness:
  "2 < rv_mismatch sampleA sampleB \<and> \<not> 3 < rv_mismatch sampleA sampleB"
  using mismatch_first_difference[OF sampleLedgers_ok(1,2), of 2] mismatch_first_difference[OF sampleLedgers_ok(1,2), of 3]
  by (simp add: sampleA_def sampleB_def chain_anc_def sample_num)

end
