(* ===== verification/Validations_Inv.thy ===== *)
theory Validations_Inv
  imports Validations Ledger_Trie_Props
begin

text \<open>
  The invariant of the validations. The trie holds one entry for the last ledger of each node
  (\<open>votes_inv\<close>); a node waits for a ledger only because of its current, trusted validation, and each
  current, trusted validation is counted in the trie or waits for its ledger (\<open>cover_inv\<close>); the maps
  by ledger and by sequence number are chronological and hold validations of their keys
  (\<open>store_inv\<close>).
\<close>

section \<open>Association lists as multisets of values\<close>

lemma mset_delete:
  assumes "al_distinct al" "map_of al k = Some v"
  shows "mset (map (f \<circ> snd) (AList.delete k al)) = mset (map (f \<circ> snd) al) - {#f v#}"
  using assms
proof (induction al)
  case (Cons kv al)
  show ?case
  proof (cases "fst kv = k")
    case True
    then have "AList.delete k al = al" using Cons.prems(1) by (simp add: delete_id)
    with True Cons.prems show ?thesis by (cases kv) simp
  next
    case False
    with Cons have v: "map_of al k = Some v" by (cases kv) (auto split: if_splits)
    have "f v \<in># mset (map (f \<circ> snd) al)" using map_of_SomeD[OF v] by force
    with False v Cons show ?thesis by (cases kv) simp
  qed
qed simp

lemma mset_update_new:
  "map_of al k = None \<Longrightarrow> mset (map (f \<circ> snd) (AList.update k v al)) = mset (map (f \<circ> snd) al) + {#f v#}"
  by (induction al) (auto split: if_splits)

lemma mset_update_old:
  "al_distinct al \<Longrightarrow> map_of al k = Some w \<Longrightarrow>
     mset (map (f \<circ> snd) (AList.update k v al)) = mset (map (f \<circ> snd) al) - {#f w#} + {#f v#}"
proof (induction al)
  case (Cons kv al)
  show ?case
  proof (cases "fst kv = k")
    case False
    with Cons have w: "map_of al k = Some w" by (cases kv) (auto split: if_splits)
    have "f w \<in># mset (map (f \<circ> snd) al)" using map_of_SomeD[OF w] by force
    with False w Cons show ?thesis by (cases kv) simp
  qed (use Cons in \<open>cases kv; simp\<close>)
qed simp

lemma set_delete_subset: "x \<in> set (AList.delete k al) \<Longrightarrow> x \<in> set al"
  by (simp add: AList.delete_eq)

section \<open>Invariants\<close>

abbreviation valKey :: "Validation \<Rightarrow> nat \<times> uint256" where
  "valKey v \<equiv> (v_seq v, v_ledgerID v)"

definition votes_inv ::
  "'l LedgerOps \<Rightarrow> ('l \<Rightarrow> bool) \<Rightarrow> (uint256 \<Rightarrow> nat) \<Rightarrow> (uint256 \<Rightarrow> nat \<Rightarrow> uint256) \<Rightarrow> 'l Validations \<Rightarrow> bool"
  where
  "votes_inv L ok num anc s \<longleftrightarrow> al_distinct (lastLedger s) \<and> (\<forall>(n, l) \<in> set (lastLedger s). ok l)
     \<and> wfTrie L ok num anc (trie s)
     \<and> trieEntries L (troot (trie s)) = mset (map (lg_id L \<circ> snd) (lastLedger s))"

definition waits :: "NodeID \<Rightarrow> nat \<times> uint256 \<Rightarrow> 'l Validations \<Rightarrow> bool" where
  "waits n key s \<longleftrightarrow> (\<exists>ns. map_of (acquiring s) key = Some ns \<and> n \<in> set ns)"

definition pending_inv :: "'l Validations \<Rightarrow> bool" where
  "pending_inv s \<longleftrightarrow> al_distinct (acquiring s) \<and> (\<forall>(key, ns) \<in> set (acquiring s). ns \<noteq> [] \<and> distinct ns)"

definition counts :: "'l LedgerOps \<Rightarrow> NodeID \<Rightarrow> uint256 \<Rightarrow> 'l Validations \<Rightarrow> bool" where
  "counts L n i s \<longleftrightarrow> (\<exists>l. map_of (lastLedger s) n = Some l \<and> lg_id L l = i)"

definition waits_current :: "'l Validations \<Rightarrow> bool" where
  "waits_current s \<longleftrightarrow> (\<forall>n key. waits n key s \<longrightarrow>
     (\<exists>v. map_of (current s) n = Some v \<and> v_trusted v \<and> valKey v = key))"

definition covered :: "'l LedgerOps \<Rightarrow> NodeID set \<Rightarrow> 'l Validations \<Rightarrow> bool" where
  "covered L X s \<longleftrightarrow> (\<forall>n v. map_of (current s) n = Some v \<longrightarrow> v_trusted v \<longrightarrow> n \<notin> X \<longrightarrow>
     waits n (valKey v) s \<or> counts L n (v_ledgerID v) s)"

definition cover_inv :: "'l LedgerOps \<Rightarrow> NodeID set \<Rightarrow> 'l Validations \<Rightarrow> bool" where
  "cover_inv L X s \<longleftrightarrow> al_distinct (current s) \<and> waits_current s \<and> covered L X s"

definition acquire_ok :: "'l LedgerOps \<Rightarrow> ('l \<Rightarrow> bool) \<Rightarrow> 'l ValAdaptor \<Rightarrow> bool" where
  "acquire_ok L ok A \<longleftrightarrow> (\<forall>i l. va_acquire A i = Some l \<longrightarrow> ok l \<and> lg_id L l = i)"

text \<open>The operations on the trie change the trie, the last ledgers and the waiting nodes only.\<close>

definition trie_frame :: "'l Validations \<Rightarrow> 'l Validations \<Rightarrow> bool" where
  "trie_frame s s' \<longleftrightarrow> current s' = current s \<and> localSeqEnforcer s' = localSeqEnforcer s
     \<and> seqEnforcers s' = seqEnforcers s \<and> byLedger s' = byLedger s \<and> bySequence s' = bySequence s
     \<and> toKeep s' = toKeep s"

lemma trie_frame_refl [simp]: "trie_frame s s"
  by (simp add: trie_frame_def)

lemma trie_frame_trans: "trie_frame s t \<Longrightarrow> trie_frame t u \<Longrightarrow> trie_frame s u"
  by (simp add: trie_frame_def)

section \<open>Waiting nodes\<close>

lemma waits_cong: "acquiring s' = acquiring s \<Longrightarrow> waits n key s' \<longleftrightarrow> waits n key s"
  by (simp add: waits_def)

lemma pending_cong: "acquiring s' = acquiring s \<Longrightarrow> pending_inv s' \<longleftrightarrow> pending_inv s"
  by (simp add: pending_inv_def)

lemma counts_cong: "lastLedger s' = lastLedger s \<Longrightarrow> counts L n i s' \<longleftrightarrow> counts L n i s"
  by (simp add: counts_def)

lemma votes_cong:
  "trie s' = trie s \<Longrightarrow> lastLedger s' = lastLedger s \<Longrightarrow> votes_inv L ok num anc s' \<longleftrightarrow> votes_inv L ok num anc s"
  by (simp add: votes_inv_def)

lemma eraseAcquiring_frame [simp]:
  "trie_frame s (eraseAcquiring key n s)" "trie (eraseAcquiring key n s) = trie s"
  "lastLedger (eraseAcquiring key n s) = lastLedger s" "current (eraseAcquiring key n s) = current s"
  by (simp_all add: eraseAcquiring_def trie_frame_def split: option.splits)

lemma votes_erase [simp]: "votes_inv L ok num anc (eraseAcquiring key n s) \<longleftrightarrow> votes_inv L ok num anc s"
  by (rule votes_cong) (rule eraseAcquiring_frame)+

lemma waits_erase:
  "waits m k (eraseAcquiring key n s) \<longleftrightarrow> waits m k s \<and> \<not> (m = n \<and> k = key)"
proof (cases "map_of (acquiring s) key")
  case (Some ns)
  have "m \<notin> set ns" if "removeAll n ns = []" "m \<noteq> n" for m
    using that by (induction ns) (auto split: if_splits)
  with Some show ?thesis
    by (auto simp: eraseAcquiring_def waits_def delete_conv' update_conv')
qed (auto simp: eraseAcquiring_def waits_def)

lemma pending_erase:
  assumes "pending_inv s"
  shows "pending_inv (eraseAcquiring key n s)"
proof (cases "map_of (acquiring s) key")
  case (Some ns)
  then have "distinct ns" using assms map_of_SomeD[OF Some] by (auto simp: pending_inv_def)
  then show ?thesis using assms Some
    by (auto simp: pending_inv_def eraseAcquiring_def distinct_removeAll
        dest!: set_delete_subset set_update_cases)
qed (use assms in \<open>simp add: eraseAcquiring_def\<close>)

lemma waits_currentD:
  assumes "cover_inv L X s" "waits n key s" "map_of (current s) n = Some v"
  shows "v_trusted v \<and> valKey v = key"
  using assms unfolding cover_inv_def waits_current_def by (metis option.inject)

lemma coveredD:
  assumes "cover_inv L X s" "map_of (current s) n = Some v" "v_trusted v" "n \<notin> X"
  shows "waits n (valKey v) s \<or> counts L n (v_ledgerID v) s"
  using assms unfolding cover_inv_def covered_def by blast

text \<open>A change of the current validation of one node.\<close>

lemma cover_change:
  assumes "cover_inv L {} s" "al_distinct (current s')" "map_of (current s') = (map_of (current s))(n := ov)"
    and others: "\<And>m k. m \<noteq> n \<Longrightarrow> waits m k s' \<longleftrightarrow> waits m k s" "\<And>m i. m \<noteq> n \<Longrightarrow> counts L m i s' \<longleftrightarrow> counts L m i s"
    and self: "\<And>k. waits n k s' \<Longrightarrow> \<exists>v. ov = Some v \<and> v_trusted v \<and> valKey v = k"
  shows "cover_inv L {n} s'" "(\<And>v. ov = Some v \<Longrightarrow> \<not> v_trusted v) \<Longrightarrow> cover_inv L {} s'"
proof -
  have "waits_current s'" unfolding waits_current_def
  proof (intro allI impI)
    fix m k assume w: "waits m k s'"
    show "\<exists>v. map_of (current s') m = Some v \<and> v_trusted v \<and> valKey v = k"
    proof (cases "m = n")
      case False
      with w others(1) assms(1) show ?thesis
        unfolding cover_inv_def waits_current_def assms(3) by (metis fun_upd_apply)
    qed (use self w assms(3) in simp)
  qed
  moreover have cov: "waits m (valKey v) s' \<or> counts L m (v_ledgerID v) s'"
    if "map_of (current s') m = Some v" "v_trusted v" "m \<noteq> n" for m v
    using coveredD[OF assms(1), of m v] that others assms(3) by simp
  ultimately show "cover_inv L {n} s'" using assms(2) by (auto simp: cover_inv_def covered_def)
  show "cover_inv L {} s'" if "\<And>v. ov = Some v \<Longrightarrow> \<not> v_trusted v"
    using that cov assms(2,3) \<open>waits_current s'\<close> unfolding cover_inv_def covered_def
    by (metis fun_upd_same)
qed

lemma cover_counted:
  assumes "cover_inv L {n} s" "current s' = current s" "acquiring s' = acquiring s"
    "lastLedger s' = AList.update n l (lastLedger s)" "map_of (current s) n = Some v" "lg_id L l = v_ledgerID v"
  shows "cover_inv L {} s'"
proof -
  have "counts L m i s' \<longleftrightarrow> (if m = n then lg_id L l = i else counts L m i s)" for m i
    by (simp add: counts_def assms(4) update_conv')
  with assms show ?thesis
    unfolding cover_inv_def waits_current_def covered_def waits_cong[OF assms(3)]
    by (metis assms(2) empty_iff insert_iff option.inject)
qed

lemma waits_waiting:
  "waits m k (s\<lparr>acquiring := AList.update key
     (case map_of (acquiring s) key of Some nodes \<Rightarrow> List.insert n nodes | None \<Rightarrow> [n]) (acquiring s)\<rparr>)
   \<longleftrightarrow> waits m k s \<or> m = n \<and> k = key"
  by (auto simp: waits_def update_conv' split: option.splits if_splits)

lemma pending_waiting:
  assumes "pending_inv s"
  shows "pending_inv (s\<lparr>acquiring := AList.update key
     (case map_of (acquiring s) key of Some nodes \<Rightarrow> List.insert n nodes | None \<Rightarrow> [n]) (acquiring s)\<rparr>)"
proof -
  have "distinct ns" if "map_of (acquiring s) key = Some ns" for ns
    using assms map_of_SomeD[OF that] by (auto simp: pending_inv_def)
  with assms show ?thesis
    by (auto simp: pending_inv_def dest!: set_update_cases split: option.splits)
      (simp_all add: List.insert_def split: if_splits)
qed

lemma cover_waiting:
  assumes "cover_inv L {n} s" "map_of (current s) n = Some v" "v_trusted v"
  shows "cover_inv L {} (s\<lparr>acquiring := AList.update (valKey v)
     (case map_of (acquiring s) (valKey v) of Some nodes \<Rightarrow> List.insert n nodes | None \<Rightarrow> [n]) (acquiring s)\<rparr>)"
    (is "cover_inv L {} ?s'")
proof -
  have "counts L m i ?s' \<longleftrightarrow> counts L m i s" for m i by (simp add: counts_def)
  with assms show ?thesis
    unfolding cover_inv_def waits_current_def covered_def waits_waiting
    by (simp del: map_of_eq_Some_iff) (metis option.inject)
qed

section \<open>Votes\<close>

context ledger_history
begin

lemma removeTrie_votes:
  assumes "votes_inv L ok num anc s" "pending_inv s"
  shows "\<exists>s'. removeTrie L n v s = Some s' \<and> votes_inv L ok num anc s' \<and> pending_inv s' \<and> trie_frame s s'
    \<and> (\<forall>m k. waits m k s' \<longleftrightarrow> waits m k s \<and> \<not> (m = n \<and> k = valKey v))
    \<and> lastLedger s' = (if counts L n (v_ledgerID v) s then AList.delete n (lastLedger s) else lastLedger s)"
proof -
  let ?s1 = "eraseAcquiring (valKey v) n s"
  note e = eraseAcquiring_frame[where s = s and key = "valKey v" and n = n]
  have w: "\<forall>m k. waits m k ?s1 \<longleftrightarrow> waits m k s \<and> \<not> (m = n \<and> k = valKey v)"
    using waits_erase by blast
  have p1: "pending_inv ?s1" by (rule pending_erase[OF assms(2)])
  have v1: "votes_inv L ok num anc ?s1" using assms(1) by simp
  show ?thesis
  proof (cases "counts L n (v_ledgerID v) s")
    case False
    then have "removeTrie L n v s = Some ?s1"
      by (auto simp: removeTrie_def counts_def e Let_def split: option.splits)
    with False w p1 v1 e show ?thesis by simp
  next
    case True
    then obtain l where l: "map_of (lastLedger s) n = Some l" "lg_id L l = v_ledgerID v"
      by (auto simp: counts_def)
    have okl: "ok l" using assms(1) map_of_SomeD[OF l(1)] by (auto simp: votes_inv_def)
    obtain t where t: "trie_remove L l 1 (trie s) = Some (lg_id L l \<in># trieEntries L (troot (trie s)), t)"
      "wfTrie L ok num anc t" "trieEntries L (troot t) = trieEntries L (troot (trie s)) - {#lg_id L l#}"
      using trie_remove_spec[OF _ okl, of "trie s" 1] assms(1) by (auto simp: votes_inv_def)
    let ?s2 = "?s1\<lparr>trie := t, lastLedger := AList.delete n (lastLedger s)\<rparr>"
    have "removeTrie L n v s = Some ?s2" using l t(1) by (simp add: removeTrie_def e)
    moreover have "votes_inv L ok num anc ?s2"
      using assms(1) t(2,3) mset_delete[OF _ l(1), of "lg_id L"]
      by (auto simp: votes_inv_def dest: set_delete_subset)
    moreover have "waits m k ?s2 \<longleftrightarrow> waits m k ?s1" for m k by (rule waits_cong) simp
    moreover have "pending_inv ?s2" using p1 pending_cong[of ?s2 ?s1] by simp
    moreover have "trie_frame s ?s2" using e(1) by (simp add: trie_frame_def)
    ultimately show ?thesis using w True by auto
  qed
qed

lemma updateTrieLedger_votes:
  assumes "votes_inv L ok num anc s" "ok l"
  shows "\<exists>s'. updateTrieLedger L l n s = Some s' \<and> votes_inv L ok num anc s' \<and> trie_frame s s'
    \<and> acquiring s' = acquiring s \<and> lastLedger s' = AList.update n l (lastLedger s)"
proof -
  let ?last = "lastLedger s" and ?M = "trieEntries L (troot (trie s))"
  have d: "al_distinct ?last" "\<forall>(n, l) \<in> set ?last. ok l"
    and tr: "wfTrie L ok num anc (trie s)" "?M = mset (map (lg_id L \<circ> snd) ?last)"
    using assms(1) by (auto simp: votes_inv_def)
  have "\<exists>t1. (case map_of ?last n of None \<Rightarrow> Some (trie s)
        | Some old \<Rightarrow> map_option snd (trie_remove L old 1 (trie s))) = Some t1
      \<and> wfTrie L ok num anc t1
      \<and> mset (map (lg_id L \<circ> snd) (AList.update n l ?last)) = trieEntries L (troot t1) + {#lg_id L l#}"
  proof (cases "map_of ?last n")
    case None
    then show ?thesis unfolding None using tr mset_update_new[OF None, of "lg_id L" l] by simp
  next
    case (Some old)
    have "ok old" using d(2) map_of_SomeD[OF Some] by auto
    from trie_remove_spec[OF tr(1) this, of 1] mset_update_old[OF d(1) Some, of "lg_id L" l] tr(2) Some
    show ?thesis by auto
  qed
  then obtain t1 where t1: "(case map_of ?last n of None \<Rightarrow> Some (trie s)
        | Some old \<Rightarrow> map_option snd (trie_remove L old 1 (trie s))) = Some t1" "wfTrie L ok num anc t1"
      "mset (map (lg_id L \<circ> snd) (AList.update n l ?last)) = trieEntries L (troot t1) + {#lg_id L l#}" by blast
  obtain t2 where t2: "trie_insert L l 1 t1 = Some t2" "wfTrie L ok num anc t2"
    "trieEntries L (troot t2) = trieEntries L (troot t1) + {#lg_id L l#}"
    using trie_insert_spec[OF t1(2) assms(2), of 1] by auto
  let ?s' = "s\<lparr>trie := t2, lastLedger := AList.update n l ?last\<rparr>"
  have "updateTrieLedger L l n s = Some ?s'" using t1(1) t2(1) by (simp add: updateTrieLedger_def)
  moreover have "votes_inv L ok num anc ?s'"
    using d t2(2,3) t1(3) assms(2) by (auto simp: votes_inv_def dest!: set_update_cases)
  moreover have "trie_frame s ?s'" by (simp add: trie_frame_def)
  ultimately show ?thesis by auto
qed

text \<open>The nodes that waited for a ledger are moved to it.\<close>

lemma updateTrieLedger_all:
  assumes "votes_inv L ok num anc s" "ok l"
  shows "\<exists>s'. foldM (updateTrieLedger L l) ns s = Some s' \<and> votes_inv L ok num anc s' \<and> trie_frame s s'
    \<and> acquiring s' = acquiring s
    \<and> map_of (lastLedger s') = (\<lambda>n. if n \<in> set ns then Some l else map_of (lastLedger s) n)"
proof (rule foldM_total_prefix[where I = "\<lambda>ys s'. votes_inv L ok num anc s' \<and> trie_frame s s'
    \<and> acquiring s' = acquiring s
    \<and> map_of (lastLedger s') = (\<lambda>n. if n \<in> set ys then Some l else map_of (lastLedger s) n)"])
  fix x t and ys zs :: "NodeID list"
  assume t: "votes_inv L ok num anc t \<and> trie_frame s t \<and> acquiring t = acquiring s
    \<and> map_of (lastLedger t) = (\<lambda>n. if n \<in> set ys then Some l else map_of (lastLedger s) n)"
  obtain t' where "updateTrieLedger L l x t = Some t'" "votes_inv L ok num anc t'" "trie_frame t t'"
    "acquiring t' = acquiring t" "lastLedger t' = AList.update x l (lastLedger t)"
    using updateTrieLedger_votes[OF conjunct1[OF t] assms(2), of x] by blast
  with t show "\<exists>t'. updateTrieLedger L l x t = Some t' \<and> votes_inv L ok num anc t' \<and> trie_frame s t'
    \<and> acquiring t' = acquiring s
    \<and> map_of (lastLedger t') = (\<lambda>n. if n \<in> set (ys @ [x]) then Some l else map_of (lastLedger s) n)"
    by (auto simp: update_conv' trie_frame_def fun_eq_iff)
qed (use assms in simp)

lemma checkAcquiredOne_inv:
  assumes "votes_inv L ok num anc s" "pending_inv s" "cover_inv L X s" "acquire_ok L ok A"
    and key: "map_of (acquiring s) key = Some ns"
  shows "\<exists>s'. checkAcquiredOne L A (key, ns) s = Some s' \<and> votes_inv L ok num anc s' \<and> pending_inv s'
    \<and> cover_inv L X s' \<and> trie_frame s s'
    \<and> map_of (acquiring s') = (map_of (acquiring s))(key := if va_acquire A (snd key) = None then Some ns else None)"
proof (cases "va_acquire A (snd key)")
  case None
  with assms show ?thesis by (auto simp: checkAcquiredOne_def fun_upd_idem)
next
  case (Some l)
  then have l: "ok l" "lg_id L l = snd key" using assms(4) by (auto simp: acquire_ok_def)
  obtain u where u: "foldM (updateTrieLedger L l) ns s = Some u" "votes_inv L ok num anc u" "trie_frame s u"
    "acquiring u = acquiring s"
    "map_of (lastLedger u) = (\<lambda>n. if n \<in> set ns then Some l else map_of (lastLedger s) n)"
    using updateTrieLedger_all[OF assms(1) l(1), of ns] by blast
  let ?s' = "u\<lparr>acquiring := AList.delete key (acquiring s)\<rparr>"
  have w: "waits n k ?s' \<longleftrightarrow> waits n k s \<and> k \<noteq> key" for n k by (auto simp: waits_def delete_conv')
  have cur: "current ?s' = current s" using u(3) by (simp add: trie_frame_def)
  have "waits n (valKey v) ?s' \<or> counts L n (v_ledgerID v) ?s'"
    if v: "map_of (current s) n = Some v" "v_trusted v" "n \<notin> X" for n v
  proof (cases "n \<in> set ns")
    case True
    then have "waits n key s" using key by (simp add: waits_def)
    then have "valKey v = key" using waits_currentD[OF assms(3) _ v(1)] by blast
    with True l(2) u(5) show ?thesis by (auto simp: counts_def)
  next
    case False
    then have "\<not> waits n key s" using key by (simp add: waits_def)
    moreover have "counts L n i ?s' \<longleftrightarrow> counts L n i s" for i using False u(5) by (simp add: counts_def)
    ultimately show ?thesis using coveredD[OF assms(3) v] w by metis
  qed
  then have "cover_inv L X ?s'"
    using assms(3) w unfolding cover_inv_def waits_current_def covered_def cur by blast
  moreover have "votes_inv L ok num anc ?s'" using u(2) votes_cong[of ?s' u] by simp
  moreover have "pending_inv ?s'" using assms(2) by (auto simp: pending_inv_def dest: set_delete_subset)
  moreover have "trie_frame s ?s'" using u(3) by (simp add: trie_frame_def)
  ultimately show ?thesis using Some u(1,4) by (auto simp: checkAcquiredOne_def delete_conv')
qed

lemma checkAcquired_inv:
  assumes "votes_inv L ok num anc s" "pending_inv s" "cover_inv L X s" "acquire_ok L ok A"
  shows "\<exists>s'. checkAcquired L A s = Some s' \<and> votes_inv L ok num anc s' \<and> pending_inv s' \<and> cover_inv L X s'
    \<and> trie_frame s s' \<and> (\<forall>n k. waits n k s' \<longleftrightarrow> waits n k s \<and> va_acquire A (snd k) = None)"
proof -
  let ?I = "\<lambda>ys s'. votes_inv L ok num anc s' \<and> pending_inv s' \<and> cover_inv L X s' \<and> trie_frame s s'
    \<and> map_of (acquiring s') = (\<lambda>k. if k \<in> al_keys ys \<and> va_acquire A (snd k) \<noteq> None then None
        else map_of (acquiring s) k)"
  have dist: "al_distinct (acquiring s)" using assms(2) by (simp add: pending_inv_def)
  have "\<exists>s'. foldM (checkAcquiredOne L A) (acquiring s) s = Some s' \<and> ?I (acquiring s) s'"
  proof (rule foldM_total_prefix[where I = ?I])
    fix ys x zs t assume xs: "acquiring s = ys @ x # zs" and t: "?I ys t"
    obtain key ns where x: "x = (key, ns)" by (cases x)
    have "key \<notin> al_keys ys" "map_of (acquiring s) key = Some ns"
      using dist by (simp_all add: xs x map_add_dom_app_simps dom_map_of_conv_image_fst)
    then have key: "map_of (acquiring t) key = Some ns" using t by simp
    obtain t' where "checkAcquiredOne L A (key, ns) t = Some t'" "votes_inv L ok num anc t'" "pending_inv t'"
      "cover_inv L X t'" "trie_frame t t'"
      "map_of (acquiring t') = (map_of (acquiring t))(key := if va_acquire A (snd key) = None then Some ns else None)"
      using checkAcquiredOne_inv[OF _ _ _ assms(4) key] t by blast
    with t x key show "\<exists>t'. checkAcquiredOne L A x t = Some t' \<and> ?I (ys @ [x]) t'"
      by (auto simp: fun_eq_iff trie_frame_def)
  qed (use assms in auto)
  then show ?thesis
    by (auto simp: checkAcquired_def waits_def split: if_splits dest: map_of_SomeD) (force dest: map_of_SomeD)
qed

text \<open>A new trusted validation is counted or waits, and nothing else changes.\<close>

lemma updateTrie_inv:
  assumes "votes_inv L ok num anc s" "pending_inv s" "acquire_ok L ok A"
    and v: "map_of (current s) n = Some v" "v_trusted v"
    and c: "cover_inv L {n} (case prior of None \<Rightarrow> s | Some key \<Rightarrow> eraseAcquiring key n s)"
  shows "\<exists>s'. updateTrie L A n v prior s = Some s' \<and> votes_inv L ok num anc s' \<and> pending_inv s'
    \<and> cover_inv L {} s' \<and> trie_frame s s'"
proof -
  define s1 where "s1 = (case prior of None \<Rightarrow> s | Some key \<Rightarrow> eraseAcquiring key n s)"
  have s1: "votes_inv L ok num anc s1" "pending_inv s1" "trie_frame s s1" "cover_inv L {n} s1"
    using assms pending_erase[OF assms(2)]
    by (simp_all add: s1_def votes_erase split: option.splits)
  obtain s2 where s2: "checkAcquired L A s1 = Some s2" "votes_inv L ok num anc s2" "pending_inv s2"
    "cover_inv L {n} s2" "trie_frame s1 s2"
    using checkAcquired_inv[OF s1(1,2,4) assms(3)] by blast
  have fr: "trie_frame s s2" by (rule trie_frame_trans[OF s1(3) s2(5)])
  then have cur: "map_of (current s2) n = Some v" using v(1) by (simp add: trie_frame_def)
  let ?key = "valKey v"
  have upd: "updateTrie L A n v prior s =
     (case map_of (acquiring s2) ?key of
        Some nodes \<Rightarrow> Some (s2\<lparr>acquiring := AList.update ?key (List.insert n nodes) (acquiring s2)\<rparr>)
      | None \<Rightarrow> (case va_acquire A (v_ledgerID v) of
             Some ledger \<Rightarrow> updateTrieLedger L ledger n s2
           | None \<Rightarrow> Some (s2\<lparr>acquiring := AList.update ?key [n] (acquiring s2)\<rparr>)))"
    using s2(1) v(2) by (simp add: updateTrie_def s1_def Let_def)
  show ?thesis
  proof (cases "map_of (acquiring s2) ?key = None \<and> va_acquire A (v_ledgerID v) \<noteq> None")
    case True
    then obtain l where l: "va_acquire A (v_ledgerID v) = Some l" by blast
    then have ok: "ok l" "lg_id L l = v_ledgerID v" using assms(3) by (auto simp: acquire_ok_def)
    obtain s' where s': "updateTrieLedger L l n s2 = Some s'" "votes_inv L ok num anc s'" "trie_frame s2 s'"
      "acquiring s' = acquiring s2" "lastLedger s' = AList.update n l (lastLedger s2)"
      using updateTrieLedger_votes[OF s2(2) ok(1)] by blast
    have "cover_inv L {} s'"
      by (rule cover_counted[OF s2(4) _ s'(4,5) cur]) (use s'(3) ok(2) in \<open>simp_all add: trie_frame_def\<close>)
    with s' s2(3) fr upd True l pending_cong[OF s'(4)] trie_frame_trans show ?thesis by simp blast
  next
    case False
    define ns where "ns = (case map_of (acquiring s2) ?key of Some nodes \<Rightarrow> List.insert n nodes | None \<Rightarrow> [n])"
    let ?s' = "s2\<lparr>acquiring := AList.update ?key ns (acquiring s2)\<rparr>"
    have "updateTrie L A n v prior s = Some ?s'"
      using upd False by (auto simp: ns_def split: option.splits)
    moreover have "votes_inv L ok num anc ?s'" using s2(2) votes_cong[of ?s' s2] by simp
    moreover have "pending_inv ?s'" "cover_inv L {} ?s'"
      using pending_waiting[OF s2(3)] cover_waiting[OF s2(4) cur v(2)] by (simp_all add: ns_def)
    ultimately show ?thesis using fr by (simp add: trie_frame_def)
  qed
qed

end

end
