(* ===== verification/Validations_Ops.thy ===== *)
theory Validations_Ops
  imports Validations_Inv
begin

text \<open>
  The operations on validations keep the invariant, and the validations are an instance of
  \<open>invariant_component\<close>.
\<close>

section \<open>Stored validations\<close>

definition keyed :: "(Validation \<Rightarrow> 'k) \<Rightarrow> ('k, (NodeID \<times> Validation) list) aged_map \<Rightarrow> bool" where
  "keyed key m \<longleftrightarrow> (\<forall>k w vals. (k, w, vals) \<in> set m \<longrightarrow>
     vals \<noteq> [] \<and> al_distinct vals \<and> (\<forall>n v. (n, v) \<in> set vals \<longrightarrow> key v = k))"

definition store_inv :: "'l Validations \<Rightarrow> bool" where
  "store_inv s \<longleftrightarrow> al_distinct (byLedger s) \<and> sorted (aged_when (byLedger s)) \<and> keyed v_ledgerID (byLedger s)
     \<and> al_distinct (bySequence s) \<and> sorted (aged_when (bySequence s)) \<and> keyed v_seq (bySequence s)"

definition clock_after :: "int \<Rightarrow> 'l Validations \<Rightarrow> bool" where
  "clock_after t s \<longleftrightarrow> (\<forall>w \<in> set (aged_when (byLedger s)). w \<le> t) \<and> (\<forall>w \<in> set (aged_when (bySequence s)). w \<le> t)"

definition tally_inv ::
  "'l LedgerOps \<Rightarrow> ('l \<Rightarrow> bool) \<Rightarrow> (uint256 \<Rightarrow> nat) \<Rightarrow> (uint256 \<Rightarrow> nat \<Rightarrow> uint256) \<Rightarrow> 'l Validations \<Rightarrow> bool"
  where
  "tally_inv L ok num anc s \<longleftrightarrow> votes_inv L ok num anc s \<and> pending_inv s \<and> cover_inv L {} s"

definition store_frame :: "'l Validations \<Rightarrow> 'l Validations \<Rightarrow> bool" where
  "store_frame s s' \<longleftrightarrow> localSeqEnforcer s' = localSeqEnforcer s
     \<and> seqEnforcers s' = seqEnforcers s \<and> byLedger s' = byLedger s \<and> bySequence s' = bySequence s
     \<and> toKeep s' = toKeep s"

lemma trie_store_frame: "trie_frame s s' \<longleftrightarrow> store_frame s s' \<and> current s' = current s"
  by (auto simp: trie_frame_def store_frame_def)

lemma store_frame_inv: "store_frame s s' \<Longrightarrow> store_inv s' \<longleftrightarrow> store_inv s"
  by (simp add: store_inv_def store_frame_def)

lemma tally_cong:
  assumes "tally_inv L ok num anc s" "trie s' = trie s" "lastLedger s' = lastLedger s"
    "acquiring s' = acquiring s" "current s' = current s"
  shows "tally_inv L ok num anc s'"
  using assms
  by (simp add: tally_inv_def votes_inv_def pending_inv_def cover_inv_def waits_current_def covered_def
      waits_def counts_def del: map_of_eq_Some_iff)

lemma tally_distinct: "tally_inv L ok num anc s \<Longrightarrow> al_distinct (current s)"
  by (simp add: tally_inv_def cover_inv_def)

lemma store_clock:
  "store_inv s \<and> clock_after t s \<longleftrightarrow> aged_ok t (byLedger s) \<and> aged_ok t (bySequence s)
     \<and> keyed v_ledgerID (byLedger s) \<and> keyed v_seq (bySequence s)"
  by (auto simp: store_inv_def clock_after_def aged_ok_def)

lemma keyedI:
  assumes "\<And>k w vals. (k, w, vals) \<in> set m \<Longrightarrow> vals \<noteq> [] \<and> al_distinct vals \<and> (\<forall>n v. (n, v) \<in> set vals \<longrightarrow> key v = k)"
  shows "keyed key m"
  unfolding keyed_def using assms by blast

lemma keyedD:
  "keyed key m \<Longrightarrow> (k, w, vals) \<in> set m \<Longrightarrow> vals \<noteq> [] \<and> al_distinct vals \<and> (\<forall>n v. (n, v) \<in> set vals \<longrightarrow> key v = k)"
  unfolding keyed_def by blast

lemma keyed_at:
  assumes "keyed key m"
    and "\<And>vals. al_distinct vals \<Longrightarrow> al_distinct (f vals)" "\<And>vals. f vals \<noteq> []"
    and "\<And>vals n v. (n, v) \<in> set (f vals) \<Longrightarrow> (n, v) \<in> set vals \<or> key v = k"
  shows "keyed key (aged_at now k [] f m)"
proof (rule keyedI)
  fix k' w vals assume m: "(k', w, vals) \<in> set (aged_at now k [] f m)"
  then consider "(k', w, vals) \<in> set m" | v where "(k', w, v) \<in> set m" "k' = k" "vals = f v"
    | "k' = k" "vals = f []"
    by (auto simp: aged_at_def split: option.splits if_splits)
  then show "vals \<noteq> [] \<and> al_distinct vals \<and> (\<forall>n v. (n, v) \<in> set vals \<longrightarrow> key v = k')"
  proof cases
    case 1
    then show ?thesis using keyedD[OF assms(1)] by blast
  next
    case (2 v)
    have "key u = k" if "(n, u) \<in> set (f v)" for n u
      using assms(4)[OF that] keyedD[OF assms(1) 2(1)] 2(2) by blast
    with keyedD[OF assms(1) 2(1)] assms(2,3)[of v] 2(2,3) show ?thesis by simp
  next
    case 3
    with assms(2)[of "[]"] assms(3)[of "[]"] assms(4)[of _ _ "[]"] show ?thesis by auto
  qed
qed

lemma keyed_touch: "keyed key m \<Longrightarrow> keyed key (aged_touch now k m)"
  unfolding keyed_def aged_touch_def
  by (auto split: option.splits dest!: set_delete_subset map_of_SomeD)

lemma keyed_expire: "keyed key m \<Longrightarrow> keyed key (aged_expire now age m)"
  unfolding aged_expire_def by (rule keyedI) (rule keyedD[of key m], assumption, drule set_dropWhileD, blast)

lemma trackSeq_keyed:
  "al_distinct vals \<Longrightarrow> al_distinct (trackSeq p n v vals)" "trackSeq p n v vals \<noteq> []"
  "(m, w) \<in> set (trackSeq p n v vals) \<Longrightarrow> (m, w) \<in> set vals \<or> w = v"
proof -
  have ne: "AList.update n v xs \<noteq> []" for xs by (cases xs) auto
  show "al_distinct vals \<Longrightarrow> al_distinct (trackSeq p n v vals)" "trackSeq p n v vals \<noteq> []"
    "(m, w) \<in> set (trackSeq p n v vals) \<Longrightarrow> (m, w) \<in> set vals \<or> w = v"
    using ne by (auto simp: trackSeq_def Let_def split: option.splits if_splits dest!: set_update_cases)
qed

text \<open>After a validation has been tracked, there is an entry for its node and sequence number.\<close>

lemma trackedAt_self:
  "\<exists>t. trackedAt (v_seq v) n (s\<lparr>bySequence := aged_at clock (v_seq v) [] (trackSeq p n v) (bySequence s)\<rparr>) = Some t
     \<and> (\<forall>t0. trackedAt (v_seq v) n s = Some t0 \<longrightarrow>
          t = (if validationCURRENT_WALL p < uint (v_signTime v) - uint (v_signTime t0)
                 \<and> v_signTime t0 < v_signTime v then v else t0))"
proof -
  define vals where "vals = (case aged_find (v_seq v) (bySequence s) of None \<Rightarrow> [] | Some vals \<Rightarrow> vals)"
  have t0: "trackedAt (v_seq v) n s = map_of vals n"
    by (simp add: trackedAt_def vals_def split: option.splits)
  have diff: "max (uint a) (uint b) - min (uint a) (uint b) = uint b - uint a" if "a < b" for a b :: "32 word"
    using that by (simp add: word_less_def)
  have "\<exists>t. map_of (trackSeq p n v vals) n = Some t \<and> (\<forall>t0. map_of vals n = Some t0 \<longrightarrow>
      t = (if validationCURRENT_WALL p < uint (v_signTime v) - uint (v_signTime t0)
             \<and> v_signTime t0 < v_signTime v then v else t0))"
    using diff by (cases "map_of vals n") (auto simp: trackSeq_def update_conv' Let_def)
  then show ?thesis unfolding t0 by (simp add: trackedAt_def aged_find_at vals_def)
qed

section \<open>Iteration over the current validations\<close>

abbreviation curAt :: "'l ValAdaptor \<Rightarrow> Validation \<Rightarrow> bool" where
  "curAt A v \<equiv> isCurrent (va_parms A) (va_now A) (v_signTime v) (v_seenTime v)"

context ledger_history
begin

text \<open>The removal of the current validation of a node, and of its vote.\<close>

lemma removeTrie_tally:
  assumes "tally_inv L ok num anc s" "map_of (current s) n = Some v"
    and cur: "\<And>t. map_of (current (upd t)) = (map_of (current t))(n := ov)" "\<And>t. al_distinct (current t) \<Longrightarrow> al_distinct (current (upd t))"
    and ov: "\<And>w. ov = Some w \<Longrightarrow> \<not> v_trusted w"
    and fr: "\<And>t. trie (upd t) = trie t" "\<And>t. lastLedger (upd t) = lastLedger t" "\<And>t. acquiring (upd t) = acquiring t"
  shows "\<exists>s'. removeTrie L n v s = Some s' \<and> tally_inv L ok num anc (upd s') \<and> trie_frame s s'"
proof -
  obtain s' where s': "removeTrie L n v s = Some s'" "votes_inv L ok num anc s'" "pending_inv s'" "trie_frame s s'"
    and w: "\<And>m k. waits m k s' \<longleftrightarrow> waits m k s \<and> \<not> (m = n \<and> k = valKey v)"
    and l: "lastLedger s' = (if counts L n (v_ledgerID v) s then AList.delete n (lastLedger s) else lastLedger s)"
    using removeTrie_votes[of s n v] assms(1) unfolding tally_inv_def by blast
  have c: "cover_inv L {} s" using assms(1) by (simp add: tally_inv_def)
  have wu: "waits m k (upd s') \<longleftrightarrow> waits m k s'" for m k by (rule waits_cong) (rule fr)
  have "current s' = current s" using s'(4) by (simp add: trie_frame_def)
  then have "cover_inv L {} (upd s')"
  proof (intro cover_change(2)[OF c, of "upd s'" n ov])
    fix m i assume "m \<noteq> n"
    then show "counts L m i (upd s') \<longleftrightarrow> counts L m i s" by (simp add: counts_def fr l delete_conv')
  next
    fix k assume "waits n k (upd s')"
    then show "\<exists>v. ov = Some v \<and> v_trusted v \<and> valKey v = k"
      using waits_currentD[OF c _ assms(2)] wu w by metis
  qed (use c cur ov in \<open>simp_all add: wu w cover_inv_def\<close>)
  then show ?thesis
    using s' votes_cong[of "upd s'" s'] pending_cong[of "upd s'" s'] fr by (simp add: tally_inv_def)
qed

lemma currentStep_inv:
  assumes "tally_inv L ok num anc s" "map_of (current s) n = Some v"
  shows "\<exists>s'. currentStep L A f (n, v) (acc, s) = Some (if curAt A v then f n v acc else acc, s')
    \<and> tally_inv L ok num anc s' \<and> store_frame s s'
    \<and> map_of (current s') = (map_of (current s))(n := if curAt A v then Some v else None)"
proof (cases "curAt A v")
  case True
  then show ?thesis using assms by (simp add: currentStep_def store_frame_def fun_upd_idem del: map_of_eq_Some_iff)
next
  case False
  obtain s' where "removeTrie L n v s = Some s'" "trie_frame s s'"
    "tally_inv L ok num anc (s'\<lparr>current := AList.delete n (current s')\<rparr>)"
    using removeTrie_tally[OF assms, of "\<lambda>t. t\<lparr>current := AList.delete n (current t)\<rparr>" None]
    by (auto simp: delete_conv')
  with False show ?thesis
    by (auto simp: currentStep_def store_frame_def trie_frame_def delete_conv')
qed

text \<open>
  A pass over the current validations gives those that are current to the callback, in order, and
  removes the others with their votes.
\<close>

lemma iterCurrent_inv:
  assumes "tally_inv L ok num anc s"
  shows "\<exists>s'. iterCurrent L A f acc s
      = Some (fold (\<lambda>(n, v) a. if curAt A v then f n v a else a) (current s) acc, s')
    \<and> tally_inv L ok num anc s' \<and> store_frame s s'
    \<and> (\<forall>n. map_of (current s') n = Option.bind (map_of (current s) n) (\<lambda>v. if curAt A v then Some v else None))"
proof -
  let ?keep = "\<lambda>v. if curAt A v then Some v else None"
  let ?I = "\<lambda>ys (a, s'). a = fold (\<lambda>(n, v) a. if curAt A v then f n v a else a) ys acc
    \<and> tally_inv L ok num anc s' \<and> store_frame s s'
    \<and> (\<forall>n. map_of (current s') n = (if n \<in> al_keys ys then Option.bind (map_of (current s) n) ?keep
         else map_of (current s) n))"
  have dist: "al_distinct (current s)" by (rule tally_distinct[OF assms])
  have "\<exists>t. foldM (currentStep L A f) (current s) (acc, s) = Some t \<and> ?I (current s) t"
  proof (rule foldM_total_prefix[where I = ?I])
    fix ys x zs t assume xs: "current s = ys @ x # zs" and t: "?I ys t"
    obtain n v where x: "x = (n, v)" by (cases x)
    obtain a u where u: "t = (a, u)" by (cases t)
    have n: "n \<notin> al_keys ys" "map_of (current s) n = Some v"
      using dist by (simp_all add: xs x map_add_dom_app_simps dom_map_of_conv_image_fst)
    then have cu: "tally_inv L ok num anc u" "map_of (current u) n = Some v" using t u by simp_all
    obtain u' where u': "currentStep L A f (n, v) (a, u) = Some (if curAt A v then f n v a else a, u')"
      "tally_inv L ok num anc u'" "store_frame u u'"
      "map_of (current u') = (map_of (current u))(n := if curAt A v then Some v else None)"
      using currentStep_inv[OF cu, of A f a] by blast
    have "map_of (current u') m = (if m \<in> al_keys (ys @ [x]) then Option.bind (map_of (current s) m) ?keep
         else map_of (current s) m)" for m
      using t n unfolding u'(4) u x by (cases "m = n") simp_all
    then have "?I (ys @ [x]) (if curAt A v then f n v a else a, u')"
      using t u' unfolding u x by (simp add: store_frame_def)
    with u' x u show "\<exists>t'. currentStep L A f x t = Some t' \<and> ?I (ys @ [x]) t'" by blast
  qed (use assms in \<open>simp add: store_frame_def\<close>)
  moreover have "Option.bind (map_of (current s) n) ?keep = None" if "n \<notin> al_keys (current s)" for n
    using that by (simp flip: map_of_eq_None_iff)
  ultimately show ?thesis unfolding iterCurrent_def by (force simp: al_keys_map_of)
qed

lemma withTrie_inv:
  assumes "tally_inv L ok num anc s" "acquire_ok L ok A"
  shows "\<exists>s'. withTrie L A s = Some s' \<and> tally_inv L ok num anc s' \<and> store_frame s s'
    \<and> (\<forall>n. map_of (current s') n = Option.bind (map_of (current s) n) (\<lambda>v. if curAt A v then Some v else None))
    \<and> (\<forall>n k. waits n k s' \<longrightarrow> va_acquire A (snd k) = None)"
proof -
  obtain s1 where s1: "iterCurrent L A (\<lambda>_ _ acc. acc) () s = Some ((), s1)"
    "tally_inv L ok num anc s1" "store_frame s s1"
    "\<forall>n. map_of (current s1) n = Option.bind (map_of (current s) n) (\<lambda>v. if curAt A v then Some v else None)"
    using iterCurrent_inv[OF assms(1), of A "\<lambda>_ _ acc. acc" "()"] by auto
  obtain s2 where "checkAcquired L A s1 = Some s2" "tally_inv L ok num anc s2" "trie_frame s1 s2"
    "\<forall>n k. waits n k s2 \<longleftrightarrow> waits n k s1 \<and> va_acquire A (snd k) = None"
    using checkAcquired_inv[OF _ _ _ assms(2), of s1 "{}"] s1(2) unfolding tally_inv_def by blast
  with s1 show ?thesis by (auto simp: withTrie_def store_frame_def trie_frame_def)
qed

section \<open>New validations\<close>

text \<open>The current validation of a node becomes a trusted one, whose ledger is counted or awaited.\<close>

lemma updateTrie_tally:
  assumes "tally_inv L ok num anc s" "acquire_ok L ok A" "v_trusted v"
    and prior: "\<And>old. map_of (current s) n = Some old \<Longrightarrow> v_trusted old \<Longrightarrow> prior = Some (valKey old) \<or> valKey old = valKey v"
  shows "\<exists>s'. updateTrie L A n v prior (s\<lparr>current := AList.update n v (current s)\<rparr>) = Some s'
    \<and> tally_inv L ok num anc s' \<and> store_frame s s' \<and> current s' = AList.update n v (current s)"
proof -
  let ?s1 = "s\<lparr>current := AList.update n v (current s)\<rparr>"
  let ?s2 = "case prior of None \<Rightarrow> ?s1 | Some key \<Rightarrow> eraseAcquiring key n ?s1"
  have s: "votes_inv L ok num anc s" "pending_inv s" "cover_inv L {} s" using assms(1) by (auto simp: tally_inv_def)
  have w1: "waits m k ?s1 \<longleftrightarrow> waits m k s" for m k by (rule waits_cong) simp
  have w: "waits m k ?s2 \<longleftrightarrow> waits m k s \<and> \<not> (m = n \<and> prior = Some k)" for m k
    by (cases prior) (auto simp: waits_erase w1)
  have cur: "current ?s2 = AList.update n v (current s)" "lastLedger ?s2 = lastLedger s" by (cases prior; simp)+
  have "cover_inv L {n} ?s2"
  proof (rule cover_change(1)[OF s(3), where ov = "Some v"])
    fix k assume "waits n k ?s2"
    then have k: "waits n k s" "prior \<noteq> Some k" using w by simp_all
    then obtain old where "map_of (current s) n = Some old" "v_trusted old" "valKey old = k"
      using s(3) unfolding cover_inv_def waits_current_def by blast
    with k prior[of old] assms(3) show "\<exists>u. Some v = Some u \<and> v_trusted u \<and> valKey u = k" by auto
  next
    show "map_of (current ?s2) = (map_of (current s))(n := Some v)" unfolding cur by (rule update_conv')
  next
    fix m i assume "m \<noteq> n"
    show "counts L m i ?s2 \<longleftrightarrow> counts L m i s" by (rule counts_cong[OF cur(2)])
  qed (use s(3) w cur in \<open>simp_all add: cover_inv_def\<close>)
  moreover have "map_of (current ?s1) n = Some v" by (simp add: update_conv')
  moreover have "votes_inv L ok num anc ?s1" "pending_inv ?s1"
    using s votes_cong[of ?s1 s] pending_cong[of ?s1 s] by simp_all
  ultimately obtain s' where "updateTrie L A n v prior ?s1 = Some s'" "votes_inv L ok num anc s'" "pending_inv s'"
    "cover_inv L {} s'" "trie_frame ?s1 s'"
    using updateTrie_inv[OF _ _ assms(2) _ assms(3), of ?s1 n prior] by blast
  then show ?thesis by (auto simp: tally_inv_def trie_frame_def store_frame_def)
qed

lemma addCurrent_inv:
  assumes "tally_inv L ok num anc s" "acquire_ok L ok A"
    and "\<And>old. map_of (current s) n = Some old \<Longrightarrow> v_trusted old \<Longrightarrow> v_trusted v"
  shows "\<exists>st s'. addCurrent L A n v s = Some (st, s') \<and> tally_inv L ok num anc s' \<and> store_frame s s'
    \<and> (if st = vs_current then current s' = AList.update n v (current s) else st = vs_stale \<and> s' = s)"
proof (cases "\<exists>old. map_of (current s) n = Some old \<and> \<not> v_signTime old < v_signTime v")
  case True
  then show ?thesis using assms(1) by (auto simp: addCurrent_def store_frame_def simp del: map_of_eq_Some_iff)
next
  case False
  let ?s1 = "s\<lparr>current := AList.update n v (current s)\<rparr>"
  let ?prior = "map_option valKey (map_of (current s) n)"
  have add: "addCurrent L A n v s = do {
      s2 \<leftarrow> (if v_trusted v then updateTrie L A n v ?prior ?s1 else Some ?s1); Some (vs_current, s2) }"
    using False by (auto simp: addCurrent_def simp del: map_of_eq_Some_iff split: option.splits)
  show ?thesis
  proof (cases "v_trusted v")
    case True
    then show ?thesis using add updateTrie_tally[OF assms(1,2) True, of n ?prior] by auto
  next
    case False
    have w: "waits m k ?s1 \<longleftrightarrow> waits m k s" for m k by (rule waits_cong) simp
    have c: "cover_inv L {} s" using assms(1) by (simp add: tally_inv_def)
    have "cover_inv L {} ?s1"
    proof (rule cover_change(2)[OF c, where ov = "Some v"])
      fix k assume "waits n k ?s1"
      then obtain old where "map_of (current s) n = Some old" "v_trusted old"
        using c w unfolding cover_inv_def waits_current_def by blast
      with assms(3) False show "\<exists>u. Some v = Some u \<and> v_trusted u \<and> valKey u = k" by blast
    next
      show "map_of (current ?s1) = (map_of (current s))(n := Some v)" by (simp add: update_conv')
    next
      fix m i assume "m \<noteq> n"
      show "counts L m i ?s1 \<longleftrightarrow> counts L m i s" by (rule counts_cong) simp
    qed (use False c w in \<open>auto simp: cover_inv_def\<close>)
    with False add assms(1) votes_cong[of ?s1 s] pending_cong[of ?s1 s] show ?thesis
      by (simp add: tally_inv_def store_frame_def)
  qed
qed

text \<open>
  A validation is refused without any effect on the current validations and the votes, or becomes the
  current one. The validation tracked for its sequence number is present when it is needed.
\<close>

lemma val_add_inv:
  assumes "tally_inv L ok num anc s" "store_inv s" "clock_after (va_clock A) s" "acquire_ok L ok A"
    and trust: "\<And>old. map_of (current s) n = Some old \<Longrightarrow> v_trusted old \<Longrightarrow> v_trusted v"
  shows "\<exists>st s'. val_add L A n v s = Some (st, s') \<and> tally_inv L ok num anc s' \<and> store_inv s'"
proof (cases "curAt A v")
  case False
  then show ?thesis using assms by (simp add: val_add_def)
next
  case True
  let ?p = "va_parms A" and ?c = "va_clock A"
  let ?s1 = "s\<lparr>bySequence := aged_at ?c (v_seq v) [] (trackSeq ?p n v) (bySequence s)\<rparr>"
  obtain b e where enf: "enforceSeq ?p ?c (v_seq v)
      (case map_of (seqEnforcers s) n of None \<Rightarrow> newSeqEnforcer | Some e \<Rightarrow> e) = (b, e)" by fastforce
  let ?s2 = "?s1\<lparr>seqEnforcers := AList.update n e (seqEnforcers s)\<rparr>"
  let ?s3 = "?s2\<lparr>byLedger := aged_at ?c (v_ledgerID v) [] (AList.update n v) (byLedger s)\<rparr>"
  have st: "aged_ok ?c (byLedger s)" "aged_ok ?c (bySequence s)" "keyed v_ledgerID (byLedger s)" "keyed v_seq (bySequence s)"
    using store_clock[of s ?c] assms(2,3) by blast+
  have seqs: "aged_ok ?c (bySequence ?s1)" "keyed v_seq (bySequence ?s1)"
    using aged_ok_at[OF st(2)] keyed_at[OF st(4), of "trackSeq ?p n v" "v_seq v"] trackSeq_keyed by fastforce+
  have upd: "AList.update n v xs \<noteq> []" for xs by (cases xs) auto
  have leds: "aged_ok ?c (byLedger ?s3)" "keyed v_ledgerID (byLedger ?s3)"
    using aged_ok_at[OF st(1)] keyed_at[OF st(3), of "AList.update n v" "v_ledgerID v"] upd
    by (fastforce dest: set_update_cases)+
  have s2: "tally_inv L ok num anc ?s2" "store_inv ?s2"
    using tally_cong[OF assms(1), of ?s2] store_clock[of ?s2 ?c] st seqs by simp_all
  have s3: "tally_inv L ok num anc ?s3" "store_inv ?s3"
    using tally_cong[OF assms(1), of ?s3] store_clock[of ?s3 ?c] seqs leds by simp_all
  obtain t where "trackedAt (v_seq v) n ?s1 = Some t" using trackedAt_self by blast
  then have t: "trackedAt (v_seq v) n ?s2 = Some t" by (simp add: trackedAt_def)
  obtain st' s' where a: "addCurrent L A n v ?s3 = Some (st', s')" "tally_inv L ok num anc s'" "store_frame ?s3 s'"
    using addCurrent_inv[OF s3(1) assms(4), of n v] trust by auto
  have "val_add L A n v s = (if b then addCurrent L A n v ?s3 else Some (seqFault t v, ?s2))"
    using True enf t by (simp add: val_add_def Let_def)
  with a s2 store_frame_inv[OF a(3)] s3(2) show ?thesis by (cases b) auto
qed

end

section \<open>Changes of trust\<close>

lemma setTrust_simps [simp]:
  "v_ledgerID (setTrust added gone n v) = v_ledgerID v" "v_seq (setTrust added gone n v) = v_seq v"
  by (simp_all add: setTrust_def)

lemma removeTrie_current:
  assumes "valKey w = valKey v"
  shows "removeTrie L n w (s\<lparr>current := c\<rparr>) = map_option (\<lambda>s'. s'\<lparr>current := c\<rparr>) (removeTrie L n v s)"
  using assms
  by (auto simp: removeTrie_def eraseAcquiring_def Let_def split: option.splits if_splits Option.bind_splits)

lemma keyed_map_values:
  assumes "keyed key m" "\<And>n v. key (f n v) = key v"
  shows "keyed key (map (\<lambda>(i, w, vals). (i, w, map (\<lambda>(n, v). (n, f n v)) vals)) m)"
proof (rule keyedI)
  fix k w vals assume "(k, w, vals) \<in> set (map (\<lambda>(i, w, vals). (i, w, map (\<lambda>(n, v). (n, f n v)) vals)) m)"
  then obtain vs where vs: "(k, w, vs) \<in> set m" "vals = map (\<lambda>(n, v). (n, f n v)) vs" by auto
  have "al_distinct vals" using keyedD[OF assms(1) vs(1)] vs(2) by (simp add: comp_def case_prod_beta)
  moreover have "vals \<noteq> [] \<and> (\<forall>n v. (n, v) \<in> set vals \<longrightarrow> key v = k)"
    using keyedD[OF assms(1) vs(1)] vs(2) assms(2) by auto
  ultimately show "vals \<noteq> [] \<and> al_distinct vals \<and> (\<forall>n v. (n, v) \<in> set vals \<longrightarrow> key v = k)" by blast
qed

context ledger_history
begin

lemma trustChangedStep_inv:
  assumes "tally_inv L ok num anc s" "acquire_ok L ok A" "map_of (current s) n = Some v"
  shows "\<exists>s'. trustChangedStep L A added gone (n, v) s = Some s' \<and> tally_inv L ok num anc s' \<and> store_frame s s'
    \<and> map_of (current s') = (map_of (current s))(n \<mapsto> setTrust added gone n v)"
proof -
  let ?v1 = "setTrust added gone n v" and ?st = "trustChangedStep L A added gone (n, v) s"
  let ?upd = "\<lambda>t. t\<lparr>current := AList.update n ?v1 (current s)\<rparr>"
  consider "n \<in> set added" | "n \<notin> set added" "n \<in> set gone" | "n \<notin> set added" "n \<notin> set gone" by blast
  then show ?thesis
  proof cases
    case 1
    then have "v_trusted ?v1" "?st = updateTrie L A n ?v1 None (?upd s)"
      by (simp_all add: setTrust_def trustChangedStep_def Let_def)
    with updateTrie_tally[OF assms(1,2) this(1), of n None] assms(3) show ?thesis by (auto simp: update_conv')
  next
    case 2
    let ?c = "\<lambda>t. t\<lparr>current := AList.update n ?v1 (current t)\<rparr>"
    have nt: "\<not> v_trusted ?v1" using 2 by (simp add: setTrust_def)
    obtain s' where s': "removeTrie L n v s = Some s'" "tally_inv L ok num anc (?c s')" "trie_frame s s'"
      using removeTrie_tally[OF assms(1,3), of ?c "Some ?v1"] nt by (auto simp: update_conv')
    have "?st = map_option ?upd (removeTrie L n v s)"
      using 2 removeTrie_current[where w = ?v1 and v = v] by (simp add: trustChangedStep_def Let_def)
    with s' show ?thesis by (auto simp: trie_store_frame update_conv' store_frame_def)
  next
    case 3
    with assms show ?thesis
      by (auto simp: trustChangedStep_def setTrust_def store_frame_def fun_upd_idem simp del: map_of_eq_Some_iff)
  qed
qed

lemma trustChanged_inv:
  assumes "tally_inv L ok num anc s" "store_inv s" "acquire_ok L ok A"
  shows "\<exists>s'. trustChanged L A added gone s = Some s' \<and> tally_inv L ok num anc s' \<and> store_inv s'
    \<and> (\<forall>n. map_of (current s') n = map_option (setTrust added gone n) (map_of (current s) n))"
proof -
  let ?f = "setTrust added gone"
  let ?I = "\<lambda>ys s'. tally_inv L ok num anc s' \<and> store_frame s s'
    \<and> (\<forall>n. map_of (current s') n = (if n \<in> al_keys ys then map_option (?f n) (map_of (current s) n)
         else map_of (current s) n))"
  have dist: "al_distinct (current s)" by (rule tally_distinct[OF assms(1)])
  have "\<exists>t. foldM (trustChangedStep L A added gone) (current s) s = Some t \<and> ?I (current s) t"
  proof (rule foldM_total_prefix[where I = ?I])
    fix ys x zs t assume xs: "current s = ys @ x # zs" and t: "?I ys t"
    obtain n v where x: "x = (n, v)" by (cases x)
    have n: "n \<notin> al_keys ys" "map_of (current s) n = Some v"
      using dist by (simp_all add: xs x map_add_dom_app_simps dom_map_of_conv_image_fst)
    then have ct: "map_of (current t) n = Some v" using t by simp
    obtain t' where t': "trustChangedStep L A added gone (n, v) t = Some t'" "tally_inv L ok num anc t'"
      "store_frame t t'" "map_of (current t') = (map_of (current t))(n \<mapsto> ?f n v)"
      using trustChangedStep_inv[OF conjunct1[OF t] assms(3) ct] by blast
    have "map_of (current t') m = (if m \<in> al_keys (ys @ [x]) then map_option (?f m) (map_of (current s) m)
         else map_of (current s) m)" for m
      using t n unfolding t'(4) x by (cases "m = n") simp_all
    with t t' x show "\<exists>t'. trustChangedStep L A added gone x t = Some t' \<and> ?I (ys @ [x]) t'"
      by (simp add: store_frame_def)
  qed (use assms in \<open>simp add: store_frame_def\<close>)
  then obtain t where t: "foldM (trustChangedStep L A added gone) (current s) s = Some t" "?I (current s) t" by blast
  let ?s' = "t\<lparr>byLedger := map (\<lambda>(i, w, vals). (i, w, map (\<lambda>(n, v). (n, ?f n v)) vals)) (byLedger t)\<rparr>"
  have "store_inv t" using t(2) store_frame_inv assms(2) by blast
  then have "keyed v_ledgerID (byLedger ?s')" by (simp add: store_inv_def keyed_map_values)
  with \<open>store_inv t\<close> have "store_inv ?s'" by (simp add: store_inv_def comp_def case_prod_beta')
  moreover have "tally_inv L ok num anc ?s'" using tally_cong[where s = t and s' = ?s'] t(2) by simp
  moreover have "map_of (current ?s') n = map_option (?f n) (map_of (current s) n)" for n
    using t(2) by (cases "map_of (current s) n") (auto simp: al_keys_map_of)
  ultimately show ?thesis using t(1) by (simp add: trustChanged_def)
qed

end

section \<open>Expiry\<close>

lemma touchKept_gen:
  assumes "al_distinct xs" "\<And>k w v. (k, w, v) \<in> set xs \<Longrightarrow> map_of m k = Some (w, v)" "aged_ok clock m" "keyed key m"
  shows "aged_ok clock (fold (\<lambda>(k, _, v) m'. if keep k v then aged_touch clock k m' else m') xs m)
    \<and> keyed key (fold (\<lambda>(k, _, v) m'. if keep k v then aged_touch clock k m' else m') xs m)
    \<and> map_of (fold (\<lambda>(k, _, v) m'. if keep k v then aged_touch clock k m' else m') xs m) k =
        (if k \<in> al_keys xs then map_option (\<lambda>(w, v). (if keep k v then clock else w, v)) (map_of m k) else map_of m k)"
  using assms
proof (induction xs arbitrary: m)
  case (Cons x xs)
  obtain k' w' v' where x: "x = (k', w', v')" by (cases x)
  let ?m = "if keep k' v' then aged_touch clock k' m else m"
  have k': "map_of m k' = Some (w', v')" "k' \<notin> al_keys xs" using Cons.prems(1,2) x by auto
  have "map_of ?m k = Some (w, v)" if "(k, w, v) \<in> set xs" for k w v
    using that Cons.prems(2)[of k w v] k'(2) by (auto simp: map_of_aged_touch image_iff)
  moreover have "aged_ok clock ?m" "keyed key ?m"
    using Cons.prems(3,4) by (simp_all add: aged_ok_touch keyed_touch)
  ultimately have "?case \<longleftrightarrow> (if k \<in> al_keys xs then map_option (\<lambda>(w, v). (if keep k v then clock else w, v)) (map_of ?m k) else map_of ?m k)
     = (if k \<in> al_keys (x # xs) then map_option (\<lambda>(w, v). (if keep k v then clock else w, v)) (map_of m k) else map_of m k)"
    using Cons.IH[of ?m] Cons.prems(1) x by simp
  with k' x show ?case by (auto simp: map_of_aged_touch)
qed simp

lemma touchKept_spec:
  assumes "aged_ok clock m" "keyed key m"
  shows "aged_ok clock (touchKept clock keep m)" "keyed key (touchKept clock keep m)"
    "map_of (touchKept clock keep m) k = map_option (\<lambda>(w, v). (if keep k v then clock else w, v)) (map_of m k)"
proof -
  have d: "al_distinct m" using assms(1) by (simp add: aged_ok_def)
  note t = touchKept_gen[OF d _ assms, of keep, folded touchKept_def]
  show "aged_ok clock (touchKept clock keep m)" "keyed key (touchKept clock keep m)" using t d by auto
  show "map_of (touchKept clock keep m) k = map_option (\<lambda>(w, v). (if keep k v then clock else w, v)) (map_of m k)"
    using t[of k] d by (cases "map_of m k") (auto simp: al_keys_map_of)
qed

definition kept :: "('k \<Rightarrow> 'v \<Rightarrow> bool) \<Rightarrow> int \<Rightarrow> int \<Rightarrow> 'k \<Rightarrow> int \<times> 'v \<Rightarrow> bool" where
  "kept keep clock age k wv \<longleftrightarrow> 0 < age \<and> keep k (snd wv) \<or> clock - age < fst wv"

abbreviation keepLedgers :: "'l Validations \<Rightarrow> uint256 \<Rightarrow> (NodeID \<times> Validation) list \<Rightarrow> bool" where
  "keepLedgers s i vals \<equiv> (case toKeep s of None \<Rightarrow> False | Some sq \<Rightarrow> keepLedger sq i vals)"

abbreviation keepSequences :: "'l Validations \<Rightarrow> nat \<Rightarrow> (NodeID \<times> Validation) list \<Rightarrow> bool" where
  "keepSequences s q vals \<equiv> (case toKeep s of None \<Rightarrow> False | Some sq \<Rightarrow> keepSequence sq q vals)"

lemma touch_expire:
  assumes "aged_ok clock m" "keyed key m"
  shows "map_option snd (map_of (aged_expire clock age (touchKept clock keep m)) k)
    = map_option snd (case map_of m k of None \<Rightarrow> None | Some wv \<Rightarrow> if kept keep clock age k wv then Some wv else None)"
  unfolding map_of_aged_expire[OF touchKept_spec(1)[OF assms]] touchKept_spec(3)[OF assms]
  using assms(1) by (cases "map_of m k") (auto simp: kept_def aged_ok_def dest!: map_of_SomeD)

lemma val_expire_inv:
  assumes "store_inv s" "clock_after (va_clock A) s"
  shows "store_inv (val_expire A s)" "clock_after (va_clock A) (val_expire A s)"
    "current (val_expire A s) = current s" "trie (val_expire A s) = trie s"
    "lastLedger (val_expire A s) = lastLedger s" "acquiring (val_expire A s) = acquiring s"
    "seqEnforcers (val_expire A s) = seqEnforcers s" "localSeqEnforcer (val_expire A s) = localSeqEnforcer s"
proof -
  let ?c = "va_clock A"
  have st: "aged_ok ?c (byLedger s)" "aged_ok ?c (bySequence s)" "keyed v_ledgerID (byLedger s)" "keyed v_seq (bySequence s)"
    using store_clock[of s ?c] assms by blast+
  have "aged_ok ?c (byLedger (val_expire A s)) \<and> aged_ok ?c (bySequence (val_expire A s))
     \<and> keyed v_ledgerID (byLedger (val_expire A s)) \<and> keyed v_seq (bySequence (val_expire A s))"
    using st touchKept_spec(1,2)[OF st(1,3)] touchKept_spec(1,2)[OF st(2,4)]
    by (auto simp: val_expire_def Let_def intro!: aged_ok_expire keyed_expire split: option.splits)
  then show "store_inv (val_expire A s)" "clock_after ?c (val_expire A s)"
    using store_clock[of "val_expire A s" ?c] by blast+
qed (simp_all add: val_expire_def Let_def split: option.splits)

end
