(* ===== verification/Validations_Component.thy ===== *)
theory Validations_Component
  imports Validations_Ops
begin

text \<open>
  The validations as a component: the calls of its owners as events, what each call relies on, and
  the instance of \<open>invariant_component\<close> over the validated ledgers of the chain.
\<close>

datatype 'l val_op =
    CanValidateSeq "'l ValAdaptor" nat
  | AddValidation "'l ValAdaptor" NodeID Validation
  | SetSeqToKeep nat
  | Expire "'l ValAdaptor"
  | TrustChanged "'l ValAdaptor" "NodeID list" "NodeID list"
  | GetPreferred "'l ValAdaptor" 'l
  | GetPreferredMin "'l ValAdaptor" 'l nat
  | GetPreferredLCL "'l ValAdaptor" 'l nat "(uint256 \<times> 32 word) list"
  | GetNodesAfter "'l ValAdaptor" 'l uint256
  | CurrentTrusted "'l ValAdaptor"
  | GetCurrentNodeIDs "'l ValAdaptor"
  | NumTrustedForLedger "'l ValAdaptor" uint256
  | GetTrustedForLedger "'l ValAdaptor" uint256
  | Fees "'l ValAdaptor" uint256 "32 word"
  | Flush
  | Laggards "'l ValAdaptor" nat "8 word list list"

fun val_step :: "'l LedgerOps \<Rightarrow> 'l val_op \<Rightarrow> 'l Validations \<Rightarrow> 'l Validations option" where
  "val_step L (CanValidateSeq A q) s = Some (snd (canValidateSeq A q s))"
| "val_step L (AddValidation A n v) s = map_option snd (val_add L A n v s)"
| "val_step L (SetSeqToKeep q) s = Some (setSeqToKeep q s)"
| "val_step L (Expire A) s = Some (val_expire A s)"
| "val_step L (TrustChanged A added gone) s = trustChanged L A added gone s"
| "val_step L (GetPreferred A working) s = map_option snd (getPreferred L A working s)"
| "val_step L (GetPreferredMin A working q) s = map_option snd (getPreferredMin L A working q s)"
| "val_step L (GetPreferredLCL A lcl q peers) s = map_option snd (getPreferredLCL L A lcl q peers s)"
| "val_step L (GetNodesAfter A ledger i) s = map_option snd (getNodesAfter L A ledger i s)"
| "val_step L (CurrentTrusted A) s = map_option snd (currentTrusted L A s)"
| "val_step L (GetCurrentNodeIDs A) s = map_option snd (getCurrentNodeIDs L A s)"
| "val_step L (NumTrustedForLedger A i) s = Some (snd (numTrustedForLedger A i s))"
| "val_step L (GetTrustedForLedger A i) s = Some (snd (getTrustedForLedger A i s))"
| "val_step L (Fees A i baseFee) s = Some (snd (val_fees A i baseFee s))"
| "val_step L Flush s = Some (val_flush s)"
| "val_step L (Laggards A q keys) s = map_option snd (laggards L A q keys s)"

text \<open>
  The clock does not go back, the adaptor acquires the ledger it was asked for, a node whose current
  validation is trusted sends trusted ones until its trust changes, and the validations are flushed
  only when no node waits for a ledger. The sequence number after that of the working ledger has 32
  bits.
\<close>

definition adaptor_fits :: "'l LedgerOps \<Rightarrow> ('l \<Rightarrow> bool) \<Rightarrow> 'l ValAdaptor \<Rightarrow> 'l Validations \<Rightarrow> bool" where
  "adaptor_fits L ok A s \<longleftrightarrow> acquire_ok L ok A \<and> clock_after (va_clock A) s"

definition trust_kept :: "NodeID \<Rightarrow> Validation \<Rightarrow> 'l Validations \<Rightarrow> bool" where
  "trust_kept n v s \<longleftrightarrow> (case map_of (current s) n of None \<Rightarrow> True | Some old \<Rightarrow> v_trusted old \<longrightarrow> v_trusted v)"

definition small_seq :: "'l LedgerOps \<Rightarrow> 'l \<Rightarrow> bool" where
  "small_seq L l \<longleftrightarrow> lg_seq L l + 1 < 2 ^ 32"

fun val_allowed :: "'l LedgerOps \<Rightarrow> ('l \<Rightarrow> bool) \<Rightarrow> 'l val_op \<Rightarrow> 'l Validations \<Rightarrow> bool" where
  "val_allowed L ok (CanValidateSeq A q) s \<longleftrightarrow> True"
| "val_allowed L ok (AddValidation A n v) s \<longleftrightarrow> adaptor_fits L ok A s \<and> trust_kept n v s"
| "val_allowed L ok (SetSeqToKeep q) s \<longleftrightarrow> True"
| "val_allowed L ok (Expire A) s \<longleftrightarrow> adaptor_fits L ok A s"
| "val_allowed L ok (TrustChanged A added gone) s \<longleftrightarrow> adaptor_fits L ok A s"
| "val_allowed L ok (GetPreferred A working) s \<longleftrightarrow> adaptor_fits L ok A s \<and> small_seq L working"
| "val_allowed L ok (GetPreferredMin A working q) s \<longleftrightarrow> adaptor_fits L ok A s \<and> small_seq L working"
| "val_allowed L ok (GetPreferredLCL A lcl q peers) s \<longleftrightarrow> adaptor_fits L ok A s \<and> small_seq L lcl"
| "val_allowed L ok (GetNodesAfter A ledger i) s \<longleftrightarrow> adaptor_fits L ok A s"
| "val_allowed L ok (NumTrustedForLedger A i) s \<longleftrightarrow> adaptor_fits L ok A s"
| "val_allowed L ok (GetTrustedForLedger A i) s \<longleftrightarrow> adaptor_fits L ok A s"
| "val_allowed L ok (Fees A i baseFee) s \<longleftrightarrow> adaptor_fits L ok A s"
| "val_allowed L ok Flush s \<longleftrightarrow> acquiring s = []"
| "val_allowed L ok _ s \<longleftrightarrow> True"

definition vals_inv ::
  "'l LedgerOps \<Rightarrow> ('l \<Rightarrow> bool) \<Rightarrow> (uint256 \<Rightarrow> nat) \<Rightarrow> (uint256 \<Rightarrow> nat \<Rightarrow> uint256) \<Rightarrow> 'l Validations \<Rightarrow> bool"
  where
  "vals_inv L ok num anc s \<longleftrightarrow> tally_inv L ok num anc s \<and> store_inv s"

section \<open>Queries\<close>

lemma iterByLedger_inv:
  assumes "vals_inv L ok num anc s" "clock_after (va_clock A) s"
  shows "vals_inv L ok num anc (snd (iterByLedger A i f acc s))"
proof -
  let ?s' = "s\<lparr>byLedger := aged_touch (va_clock A) i (byLedger s)\<rparr>"
  have "store_inv ?s'"
    using assms store_clock[of s "va_clock A"] store_clock[of ?s' "va_clock A"]
    by (auto simp: vals_inv_def aged_ok_touch keyed_touch)
  moreover have "tally_inv L ok num anc ?s'" using assms tally_cong[of L ok num anc s ?s'] by (simp add: vals_inv_def)
  ultimately show ?thesis
    using assms by (auto simp: iterByLedger_def vals_inv_def split: option.splits)
qed

context ledger_history
begin

lemma iterCurrent_vals:
  assumes "vals_inv L ok num anc s"
  shows "\<exists>s'. map_option snd (iterCurrent L A f acc s) = Some s' \<and> vals_inv L ok num anc s'"
proof -
  obtain r s' where "iterCurrent L A f acc s = Some (r, s')" "vals_inv L ok num anc s'"
    using iterCurrent_inv[of s A f acc] assms store_frame_inv unfolding vals_inv_def by blast
  then show ?thesis by simp
qed

lemma withTrie_vals:
  assumes "vals_inv L ok num anc s" "acquire_ok L ok A"
  shows "\<exists>s'. withTrie L A s = Some s' \<and> vals_inv L ok num anc s' \<and> localSeqEnforcer s' = localSeqEnforcer s"
  using withTrie_inv[of s A] assms store_frame_inv unfolding vals_inv_def store_frame_def by blast

lemma switchTo_total:
  assumes "small_seq L working" shows "\<exists>r. switchTo L working tip = Some r"
proof -
  have "(int (lg_seq L working) + 1) mod 2 ^ 32 = int (lg_seq L working) + 1" using assms by (simp add: small_seq_def)
  then show ?thesis by (auto simp: switchTo_def tip_ancestor_def)
qed

lemma getPreferred_vals:
  assumes "vals_inv L ok num anc s" "acquire_ok L ok A" "small_seq L working"
  shows "\<exists>r s'. getPreferred L A working s = Some (r, s') \<and> vals_inv L ok num anc s'"
proof -
  obtain s1 where s1: "withTrie L A s = Some s1" "vals_inv L ok num anc s1"
    using withTrie_vals[OF assms(1,2)] by blast
  have wf: "wfTrie L ok num anc (trie s1)" using s1(2) by (simp add: vals_inv_def tally_inv_def votes_inv_def)
  obtain p where p: "trie_getPreferred L (enf_seq (localSeqEnforcer s1)) (trie s1) = Some p"
    using getPreferred_spec[OF wf, of "enf_seq (localSeqEnforcer s1)"] by (auto split: if_splits)
  show ?thesis
  proof (cases p)
    case (Some tip)
    with s1 p switchTo_total[OF assms(3), of tip] show ?thesis by (auto simp: getPreferred_def)
  qed (use s1 p in \<open>simp add: getPreferred_def\<close>)
qed

lemma val_step_total:
  assumes "vals_inv L ok num anc s" "val_allowed L ok op s"
  shows "\<exists>s'. val_step L op s = Some s' \<and> vals_inv L ok num anc s'"
proof (cases op)
  case (CanValidateSeq A q)
  let ?s' = "snd (canValidateSeq A q s)"
  have "trie ?s' = trie s" "lastLedger ?s' = lastLedger s" "acquiring ?s' = acquiring s" "current ?s' = current s"
    "byLedger ?s' = byLedger s" "bySequence ?s' = bySequence s"
    by (simp_all add: canValidateSeq_def split: prod.splits)
  with assms(1) CanValidateSeq tally_cong[of L ok num anc s ?s'] show ?thesis
    by (simp add: vals_inv_def store_inv_def)
next
  case (AddValidation A n v)
  have "v_trusted v" if "map_of (current s) n = Some old" "v_trusted old" for old
    using assms(2) AddValidation that by (simp add: trust_kept_def del: map_of_eq_Some_iff)
  with assms AddValidation val_add_inv[of s A n v] show ?thesis
    by (auto simp: vals_inv_def adaptor_fits_def)
next
  case (SetSeqToKeep q)
  with assms(1) tally_cong[of L ok num anc s "setSeqToKeep q s"] show ?thesis
    by (simp add: vals_inv_def store_inv_def setSeqToKeep_def)
next
  case (Expire A)
  with assms val_expire_inv[of s A] tally_cong[of L ok num anc s "val_expire A s"] show ?thesis
    by (simp add: vals_inv_def adaptor_fits_def)
next
  case (TrustChanged A added gone)
  with assms trustChanged_inv[of s A added gone] show ?thesis by (auto simp: vals_inv_def adaptor_fits_def)
next
  case (GetPreferred A working)
  with assms getPreferred_vals[of s A working] show ?thesis by (auto simp: adaptor_fits_def)
next
  case (GetPreferredMin A working q)
  with assms getPreferred_vals[of s A working] show ?thesis by (auto simp: adaptor_fits_def getPreferredMin_def)
next
  case (GetPreferredLCL A lcl q peers)
  with assms getPreferred_vals[of s A lcl] show ?thesis by (auto simp: adaptor_fits_def getPreferredLCL_def)
next
  case (GetNodesAfter A ledger i)
  with assms withTrie_vals[of s A] show ?thesis by (auto simp: adaptor_fits_def getNodesAfter_def)
next
  case (CurrentTrusted A)
  show ?thesis unfolding CurrentTrusted val_step.simps currentTrusted_def by (rule iterCurrent_vals[OF assms(1)])
next
  case (GetCurrentNodeIDs A)
  show ?thesis unfolding GetCurrentNodeIDs val_step.simps getCurrentNodeIDs_def by (rule iterCurrent_vals[OF assms(1)])
next
  case (Laggards A q keys)
  show ?thesis unfolding Laggards val_step.simps laggards_def by (rule iterCurrent_vals[OF assms(1)])
next
  case Flush
  with assms show ?thesis
    by (auto simp: val_flush_def vals_inv_def tally_inv_def votes_inv_def pending_inv_def cover_inv_def
        waits_current_def covered_def waits_def store_inv_def)
qed (use assms iterByLedger_inv in \<open>auto simp: adaptor_fits_def numTrustedForLedger_def
    getTrustedForLedger_def val_fees_def\<close>)

lemma newValidations_inv: "vals_inv L ok num anc (newValidations L)"
  using newTrie_wf
  by (simp add: newValidations_def vals_inv_def tally_inv_def votes_inv_def pending_inv_def cover_inv_def
      waits_current_def covered_def waits_def store_inv_def keyed_def)

end

sublocale ledger_history \<subseteq> vals: invariant_component "val_step L" "vals_inv L ok num anc" "val_allowed L ok"
  using val_step_total by unfold_locales

end
