(* ===== verification/Validations_Frames.thy ===== *)
theory Validations_Frames
  imports Validations_Component
begin

text \<open>
  What no operation on the validations changes, whatever the state: the operations on the votes leave
  the sequence enforcers alone, so an enforcer changes only when its own node validates.
\<close>

lemma removeTrie_frame: "removeTrie L n v s = Some s' \<Longrightarrow> trie_frame s s'"
  by (auto simp: removeTrie_def Let_def trie_frame_def eraseAcquiring_def
      split: option.splits if_splits Option.bind_splits)

lemma updateTrieLedger_frame: "updateTrieLedger L l n s = Some s' \<Longrightarrow> trie_frame s s'"
  by (auto simp: updateTrieLedger_def trie_frame_def split: option.splits Option.bind_splits)

lemma checkAcquired_frame:
  assumes "checkAcquired L A s = Some s'" shows "trie_frame s s'"
  using assms unfolding checkAcquired_def
proof (rule foldM_keeps)
  fix x u u' assume u: "trie_frame s u" "checkAcquiredOne L A x u = Some u'"
  obtain key ns where x: "x = (key, ns)" by (cases x)
  show "trie_frame s u'"
  proof (cases "va_acquire A (snd key)")
    case None
    then show ?thesis using u x by (simp add: checkAcquiredOne_def)
  next
    case (Some l)
    then obtain w where w: "foldM (updateTrieLedger L l) ns u = Some w" "u' = w\<lparr>acquiring := AList.delete key (acquiring w)\<rparr>"
      using u(2) x by (auto simp: checkAcquiredOne_def split: Option.bind_splits)
    have "trie_frame u w"
      by (rule foldM_keeps[OF w(1), of "trie_frame u"]) (auto intro: trie_frame_trans updateTrieLedger_frame)
    with u(1) w(2) show ?thesis by (simp add: trie_frame_def)
  qed
qed simp

lemma updateTrie_frame:
  assumes "updateTrie L A n v prior s = Some s'" shows "trie_frame s s'"
proof -
  let ?s1 = "case prior of None \<Rightarrow> s | Some key \<Rightarrow> eraseAcquiring key n s"
  have tr: "v_trusted v" using assms by (cases "v_trusted v") (simp_all add: updateTrie_def)
  obtain s2 where s2: "checkAcquired L A ?s1 = Some s2"
    using assms tr by (auto simp: updateTrie_def split: Option.bind_splits)
  have "trie_frame s ?s1" by (cases prior) simp_all
  then have f: "trie_frame s s2" using checkAcquired_frame[OF s2] trie_frame_trans by blast
  have "trie_frame s2 s'"
    using assms tr s2 updateTrieLedger_frame[of L _ n s2 s']
    by (auto simp: updateTrie_def Let_def trie_frame_def split: option.splits)
  with f show ?thesis by (rule trie_frame_trans)
qed

lemma iterCurrent_frame:
  assumes "iterCurrent L A f acc s = Some (r, s')" shows "store_frame s s'"
proof -
  have "(\<lambda>(_, u). store_frame s u) (r, s')"
    using assms unfolding iterCurrent_def
    by (rule foldM_keeps)
      (auto simp: currentStep_def store_frame_def trie_store_frame split: if_splits Option.bind_splits
        dest!: removeTrie_frame)
  then show ?thesis by simp
qed

lemma withTrie_frame: "withTrie L A s = Some s' \<Longrightarrow> store_frame s s'"
  by (auto simp: withTrie_def trie_store_frame store_frame_def split: Option.bind_splits
      dest!: iterCurrent_frame checkAcquired_frame)

lemma getPreferred_frame: "getPreferred L A working s = Some (r, s') \<Longrightarrow> store_frame s s'"
  by (auto simp: getPreferred_def split: Option.bind_splits option.splits dest!: withTrie_frame)

lemma addCurrent_frame: "addCurrent L A n v s = Some (st, s') \<Longrightarrow> store_frame s s'"
  by (auto simp: addCurrent_def Let_def trie_store_frame store_frame_def
      split: option.splits if_splits Option.bind_splits dest!: updateTrie_frame)

lemma trustChanged_frame:
  assumes "trustChanged L A added gone s = Some s'"
  shows "localSeqEnforcer s' = localSeqEnforcer s \<and> seqEnforcers s' = seqEnforcers s"
proof -
  obtain t where t: "foldM (trustChangedStep L A added gone) (current s) s = Some t"
    "localSeqEnforcer s' = localSeqEnforcer t" "seqEnforcers s' = seqEnforcers t"
    using assms by (auto simp: trustChanged_def split: Option.bind_splits)
  have "store_frame s t"
    by (rule foldM_keeps[OF t(1)])
      (auto simp: trustChangedStep_def Let_def trie_store_frame store_frame_def split: if_splits
        dest!: updateTrie_frame removeTrie_frame)
  with t show ?thesis by (simp add: store_frame_def)
qed

section \<open>Enforcers\<close>

lemma iterByLedger_frame [simp]:
  "localSeqEnforcer (snd (iterByLedger A i f acc s)) = localSeqEnforcer s"
  "seqEnforcers (snd (iterByLedger A i f acc s)) = seqEnforcers s"
  by (simp_all add: iterByLedger_def split: option.splits)

lemma val_expire_frame [simp]:
  "localSeqEnforcer (val_expire A s) = localSeqEnforcer s" "seqEnforcers (val_expire A s) = seqEnforcers s"
  by (simp_all add: val_expire_def Let_def split: option.splits)

lemma val_add_frame:
  assumes "val_add L A n v s = Some (st, s')"
  shows "localSeqEnforcer s' = localSeqEnforcer s"
    "seqEnforcers s' = seqEnforcers s \<or> seqEnforcers s' = AList.update n (snd (enforceSeq (va_parms A) (va_clock A)
       (v_seq v) (case map_of (seqEnforcers s) n of None \<Rightarrow> newSeqEnforcer | Some e \<Rightarrow> e))) (seqEnforcers s)"
  using assms
  by (auto simp: val_add_def Let_def store_frame_def split: if_splits prod.splits Option.bind_splits
      dest!: addCurrent_frame)

text \<open>The enforcers of a state: the local one, and those of the nodes.\<close>

lemma val_step_local:
  assumes "val_step L op s = Some s'" "\<And>A q. op \<noteq> CanValidateSeq A q"
  shows "localSeqEnforcer s' = localSeqEnforcer s"
  using assms
  by (cases op) (auto simp: setSeqToKeep_def val_flush_def currentTrusted_def getCurrentNodeIDs_def laggards_def
      numTrustedForLedger_def getTrustedForLedger_def val_fees_def getPreferredMin_def getPreferredLCL_def
      getNodesAfter_def store_frame_def
      split: Option.bind_splits if_splits
      dest!: iterCurrent_frame getPreferred_frame withTrie_frame trustChanged_frame val_add_frame(1))

lemma val_step_nodes:
  assumes "val_step L op s = Some s'" "\<And>A n v. op \<noteq> AddValidation A n v"
  shows "seqEnforcers s' = seqEnforcers s"
  using assms
  by (cases op) (auto simp: setSeqToKeep_def val_flush_def currentTrusted_def getCurrentNodeIDs_def laggards_def
      numTrustedForLedger_def getTrustedForLedger_def val_fees_def getPreferredMin_def getPreferredLCL_def
      getNodesAfter_def store_frame_def canValidateSeq_def
      split: Option.bind_splits if_splits prod.splits
      dest!: iterCurrent_frame getPreferred_frame withTrie_frame trustChanged_frame)

end
