(* ===== verification/Validations_Props.thy ===== *)
theory Validations_Props
  imports Validations_Frames
begin

text \<open>
  The properties of the validations over the validated ledgers of the chain: each node has one vote,
  every current, trusted validation is counted once its ledger is there, a supermajority decides the
  preferred ledger, sequence numbers increase, and refused validations have no effect on the votes.
\<close>

abbreviation R :: "RCLValidatedLedger LedgerOps" where
  "R \<equiv> rclLedgerOps"

abbreviation val_run :: "RCLValidatedLedger val_op list \<Rightarrow> RCLValidatedLedger Validations option" where
  "val_run ops \<equiv> foldM (val_step R) ops (newValidations R)"

abbreviation val_runs :: "(RCLValidatedLedger \<Rightarrow> bool) \<Rightarrow> RCLValidatedLedger val_op list \<Rightarrow> bool" where
  "val_runs ok ops \<equiv> guarded (val_step R) (val_allowed R ok) ops (newValidations R)"

abbreviation rl_inv ::
  "(uint256 \<Rightarrow> uint256) \<Rightarrow> nat \<Rightarrow> uint256 \<Rightarrow> RCLValidatedLedger Validations \<Rightarrow> bool" where
  "rl_inv par base baseID \<equiv> vals_inv R (rv_ok par base baseID) (chain_num par) (chain_anc par)"

lemma R_simps [simp]: "lg_id R = ledgerID" "lg_seq R = ledgerSeq" "lg_get R = rv_get"
  by (simp_all add: rclLedgerOps_def)

lemma val_run_inv:
  assumes "val_runs (rv_ok par base baseID) ops"
  obtains s where "val_run ops = Some s" "rl_inv par base baseID s"
  using rl.vals.run_total[OF rl.newValidations_inv assms] by blast

lemma inv_parts:
  assumes "rl_inv par base baseID s"
  shows "wfTrie R (rv_ok par base baseID) (chain_num par) (chain_anc par) (trie s)"
    "trieEntries R (troot (trie s)) = mset (map (ledgerID \<circ> snd) (lastLedger s))"
    "al_distinct (lastLedger s)" "cover_inv R {} s"
  using assms by (simp_all add: vals_inv_def tally_inv_def votes_inv_def)

lemma count_votes: "count (mset (map (f \<circ> snd) xs)) i = length (filter (\<lambda>(n, l). f l = i) xs)"
  by (induction xs) (auto simp: case_prod_beta)

lemma filter_votes:
  "size (filter_mset P (mset (map (f \<circ> snd) xs))) = length (filter (\<lambda>(n, l). P (f l)) xs)"
  by (induction xs) (auto simp: case_prod_beta)

section \<open>Votes\<close>


section \<open>A sample run\<close>

text \<open>
  Ledgers 3 and 13 can be acquired, ledger 4 cannot. Three nodes validate ledger 3, ledger 3 and
  ledger 13; then the first validates ledger 4.
\<close>

definition sampleAdaptor :: "RCLValidatedLedger ValAdaptor" where
  "sampleAdaptor = \<lparr>va_parms = defaultValidationParms, va_now = 1000, va_clock = 0,
     va_acquire = (\<lambda>i. if i = 3 then Some sampleA else if i = 13 then Some sampleB else None)\<rparr>"

definition sampleVal :: "uint256 \<Rightarrow> nat \<Rightarrow> NetTime \<Rightarrow> Validation" where
  "sampleVal i q t = \<lparr>v_ledgerID = i, v_seq = q, v_signTime = t, v_seenTime = t, v_key = [], v_trusted = True,
     v_full = True, v_loadFee = None, v_cookie = 0\<rparr>"

definition sampleValOps :: "RCLValidatedLedger val_op list" where
  "sampleValOps = [AddValidation sampleAdaptor 1 (sampleVal 3 3 1000), AddValidation sampleAdaptor 2 (sampleVal 3 3 1000),
     AddValidation sampleAdaptor 3 (sampleVal 13 3 1000), AddValidation sampleAdaptor 1 (sampleVal 4 4 1001)]"

lemma sampleAdaptor_fits: "adaptor_fits R (rv_ok samplePar 2 2) sampleAdaptor s \<longleftrightarrow> clock_after 0 s"
proof -
  have "rv_ok samplePar 2 2 l \<and> ledgerID l = i" if "va_acquire sampleAdaptor i = Some l" for i l
    using that sampleLedgers_ok by (auto simp: sampleAdaptor_def sampleA_def sampleB_def split: if_splits)
  then show ?thesis by (auto simp: adaptor_fits_def acquire_ok_def) (simp_all add: sampleAdaptor_def)
qed

lemma sampleValOps_allowed: "val_runs (rv_ok samplePar 2 2) sampleValOps"
  unfolding sampleValOps_def guarded.simps val_allowed.simps sampleAdaptor_fits by code_simp

lemma sampleValOps_last:
  "map_option lastLedger (val_run sampleValOps) = Some [(1, sampleA), (2, sampleA), (3, sampleB)]"
  by code_simp

lemma sampleValOps_waits: "map_option acquiring (val_run sampleValOps) = Some [((4, 4), [1])]"
  by code_simp


section \<open>Counting\<close>


text \<open>The adaptor of the sample after the first node's last ledger has arrived.\<close>

definition sampleLater :: "RCLValidatedLedger ValAdaptor" where
  "sampleLater = sampleAdaptor\<lparr>va_acquire := (\<lambda>i. if i = 4 then Some sampleC else None)\<rparr>"

lemma sampleLater_fits: "adaptor_fits R (rv_ok samplePar 2 2) sampleLater s \<longleftrightarrow> clock_after 0 s"
proof -
  have "rv_ok samplePar 2 2 l \<and> ledgerID l = i" if "va_acquire sampleLater i = Some l" for i l
    using that sampleLedgers_ok by (auto simp: sampleLater_def sampleC_def split: if_splits)
  then show ?thesis by (auto simp: adaptor_fits_def acquire_ok_def) (simp_all add: sampleLater_def sampleAdaptor_def)
qed

lemma sampleValOps_now:
  "map_option (\<lambda>s. (clock_after 0 s, map_of (current s) 1)) (val_run sampleValOps) = Some (True, Some (sampleVal 4 4 1001))"
  by code_simp


section \<open>The preferred ledger\<close>

lemma rv_get_base:
  assumes "rv_ok par base baseID l" "base \<le> q" "q \<le> ledgerSeq l"
  shows "rv_get l q = chain_anc par (ledgerID l) q"
proof (cases "l = makeGenesis")
  case True
  then have "rv_minSeq l \<le> q" by (simp add: rv_minSeq_def makeGenesis_def)
  then show ?thesis by (rule rv_get_window[OF assms(1) _ assms(3)])
qed (use assms rv_get_known in blast)

lemma switchTo_safe:
  assumes t: "rv_ok par base baseID (tip_ledger tip)" "tip_seq tip \<le> ledgerSeq (tip_ledger tip)"
      "tip_id tip = rv_get (tip_ledger tip) (tip_seq tip)"
    and x: "q \<le> tip_seq tip" "chain_anc par (ledgerID (tip_ledger tip)) q = x"
    and w: "rv_ok par base baseID working" "small_seq R working" and q: "base \<le> q"
  shows "\<exists>sq i. switchTo R working tip = Some (sq, i) \<and> (q \<le> sq \<and> chain_anc par i q = x
    \<or> sq = ledgerSeq working \<and> i = ledgerID working \<and> sq + 1 = q \<and> chain_anc par x sq = i)"
proof -
  let ?t = "tip_ledger tip" and ?w = "ledgerSeq working"
  let ?stay = "tip_seq tip = ?w + 1 \<and> rv_get ?t ?w = ledgerID working"
  have "(int ?w + 1) mod 2 ^ 32 = int ?w + 1" using w(2) by (simp add: small_seq_def)
  moreover have "int (tip_seq tip) = int ?w + 1 \<longleftrightarrow> tip_seq tip = ?w + 1" by linarith
  ultimately have sw: "switchTo R working tip = Some (if ?stay then (?w, ledgerID working)
      else if ?w < tip_seq tip \<or> rv_get working (tip_seq tip) \<noteq> tip_id tip then (tip_seq tip, tip_id tip)
      else (?w, ledgerID working))"
    by (auto simp: switchTo_def tip_ancestor_def)
  have tip: "tip_id tip = chain_anc par (ledgerID ?t) (tip_seq tip)" "chain_anc par (tip_id tip) q = x"
    using rv_get_base[OF t(1) _ t(2)] rv_anc_anc[OF t(1) x(1) t(2)] t(3) x q by auto
  have anc_x: "chain_anc par x p = chain_anc par (ledgerID ?t) p" if "p \<le> q" for p
    using rv_anc_anc[OF t(1) that] x t(2) by auto
  show ?thesis
  proof (cases "?stay \<and> base \<le> ?w")
    case True
    then have "chain_anc par (ledgerID ?t) ?w = ledgerID working"
      using rv_get_base[OF t(1), of ?w] t(2) by auto
    with True sw x t(2) anc_x[of ?w] rv_anc_anc[OF t(1), of q ?w] show ?thesis
      by (cases "q \<le> ?w") auto
  next
    case False
    show ?thesis
    proof (cases ?stay)
      case True
      with False have "working = makeGenesis" using rv_base(1)[OF w(1)] by blast
      moreover from this True False q x(1) have "q = 1" by (simp add: makeGenesis_def)
      ultimately show ?thesis using True sw anc_x[of 0] rv_genesis_anc[OF t(1)] by (auto simp: makeGenesis_def)
    next
      case False
      have "chain_anc par (ledgerID working) q = x"
        if "tip_seq tip \<le> ?w" "rv_get working (tip_seq tip) = tip_id tip"
        using that rv_get_base[OF w(1) _ that(1)] rv_anc_anc[OF w(1) x(1) that(1)] tip(2) q x(1) by auto
      with False sw tip x(1) show ?thesis by auto
    qed
  qed
qed

text \<open>
  (C8) A supermajority of nodes decides. After any sequence of operations, when more than two thirds
  of the nodes that are counted validated a ledger or a descendant of it, and this node has issued no
  validation with a larger sequence number, the preferred ledger is that ledger or a descendant of
  it; or it is the working ledger, as the parent of that ledger.
\<close>

theorem supermajority_of_nodes:
  assumes "val_runs (rv_ok par base baseID) ops" "val_run ops = Some s" "adaptor_fits R (rv_ok par base baseID) A s"
    and "withTrie R A s = Some s1"
    and maj: "2 * length (lastLedger s1)
      < 3 * length (filter (\<lambda>(n, l). descends (chain_num par) (chain_anc par) q x (ledgerID l)) (lastLedger s1))"
    and "enf_seq (localSeqEnforcer s) \<le> q" "base \<le> q" "rv_ok par base baseID working" "ledgerSeq working + 1 < 2 ^ 32"
  shows "\<exists>sq i. getPreferred R A working s = Some (Some (sq, i), s1) \<and> (q \<le> sq \<and> chain_anc par i q = x
    \<or> sq = ledgerSeq working \<and> i = ledgerID working \<and> sq + 1 = q \<and> chain_anc par x sq = i)"
proof -
  let ?M = "trieEntries R (troot (trie s1))" and ?e = "enf_seq (localSeqEnforcer s1)"
  have inv: "rl_inv par base baseID s" using val_run_inv[OF assms(1)] assms(2) by auto
  have ac: "acquire_ok R (rv_ok par base baseID) A" using assms(3) by (simp add: adaptor_fits_def)
  have s1: "rl_inv par base baseID s1" "localSeqEnforcer s1 = localSeqEnforcer s"
    using rl.withTrie_vals[OF inv ac] assms(4) by auto
  note i = inv_parts[OF s1(1)]
  have m: "2 * size ?M < 3 * branchAt (chain_num par) (chain_anc par) ?M q x"
    using maj unfolding i(2) branchAt_def filter_votes by simp
  have "?e \<le> q" using assms(6) s1(2) by simp
  then obtain tip where tip: "trie_getPreferred R ?e (trie s1) = Some (Some tip)" "q \<le> tip_seq tip"
    "chain_anc par (ledgerID (tip_ledger tip)) q = x"
    using rl.majority_preferred[OF i(1) m] by auto
  have "rl.walkEnd par base baseID ?M ?e tip"
    using rl.getPreferred_spec[OF i(1), of ?e] tip(1) by (auto split: if_splits)
  then have t: "rv_ok par base baseID (tip_ledger tip)" "tip_seq tip \<le> ledgerSeq (tip_ledger tip)"
    "tip_id tip = rv_get (tip_ledger tip) (tip_seq tip)" by (simp_all add: rl.walkEnd_def)
  have "small_seq R working" using assms(9) by (simp add: small_seq_def)
  from switchTo_safe[OF t tip(2,3) assms(8) this assms(7)] tip(1) assms(4) show ?thesis
    by (auto simp: getPreferred_def)
qed

definition sampleMajority :: "RCLValidatedLedger val_op list" where
  "sampleMajority = [AddValidation sampleAdaptor 1 (sampleVal 3 3 1000), AddValidation sampleAdaptor 2 (sampleVal 3 3 1000),
     AddValidation sampleAdaptor 3 (sampleVal 13 3 1000), AddValidation sampleAdaptor 4 (sampleVal 3 3 1001)]"

lemma sampleMajority_allowed: "val_runs (rv_ok samplePar 2 2) sampleMajority"
  unfolding sampleMajority_def guarded.simps val_allowed.simps sampleAdaptor_fits by code_simp

lemma sampleMajority_state:
  "map_option (\<lambda>s. (clock_after 0 s, enf_seq (localSeqEnforcer s), map_option lastLedger (withTrie R sampleAdaptor s)))
     (val_run sampleMajority) = Some (True, 0, Some [(1, sampleA), (2, sampleA), (3, sampleB), (4, sampleA)])"
  by code_simp

theorem supermajority_of_nodes_witness:
  "\<exists>s s1 sq i. val_run sampleMajority = Some s \<and> getPreferred R sampleAdaptor sampleB s = Some (Some (sq, i), s1)
     \<and> 3 \<le> sq \<and> chain_anc samplePar i 3 = 3"
proof -
  obtain s s1 where s: "val_run sampleMajority = Some s" "clock_after 0 s" "enf_seq (localSeqEnforcer s) \<le> 3"
    "withTrie R sampleAdaptor s = Some s1" "lastLedger s1 = [(1, sampleA), (2, sampleA), (3, sampleB), (4, sampleA)]"
    using sampleMajority_state by auto
  have maj: "2 * length (lastLedger s1) < 3 * length (filter (\<lambda>(n, l). descends (chain_num samplePar)
      (chain_anc samplePar) 3 3 (ledgerID l)) (lastLedger s1))"
    unfolding s(5) using sample_descends by (simp add: sampleA_def sampleB_def)
  have f: "adaptor_fits R (rv_ok samplePar 2 2) sampleAdaptor s" using s(2) sampleAdaptor_fits by blast
  have b: "ledgerSeq sampleB + 1 < 2 ^ 32" "ledgerSeq sampleB = 3" by (simp_all add: sampleB_def)
  show ?thesis
    using supermajority_of_nodes[OF sampleMajority_allowed s(1) f s(4) maj s(3) _ sampleLedgers_ok(2) b(1)] s(1) b(2)
    by force
qed

section \<open>Sequence numbers\<close>

lemma enforceSeq_accept:
  assumes "enforceSeq p clock q e = (True, e')"
  shows "enf_seq e' = q" "enf_when e' = clock" "enf_when e + validationSET_EXPIRES p < clock \<or> enf_seq e < q"
  using assms by (auto simp: enforceSeq_def Let_def split: if_splits)

text \<open>An enforcer remembers a sequence number until the expiry time has passed.\<close>

definition remembers :: "int \<Rightarrow> nat \<Rightarrow> SeqEnforcer \<Rightarrow> bool" where
  "remembers t q e \<longleftrightarrow> t \<le> enf_when e \<and> q \<le> enf_seq e"

lemma enforceSeq_remembers:
  assumes "remembers t q e" "t \<le> clock" "clock \<le> t + validationSET_EXPIRES p"
  shows "remembers t q (snd (enforceSeq p clock q' e))" "fst (enforceSeq p clock q' e) \<Longrightarrow> q < q'"
  using assms by (auto simp: enforceSeq_def remembers_def Let_def split: if_splits)

text \<open>The calls in the interval during which the sequence number is remembered.\<close>

fun local_between :: "ValidationParms \<Rightarrow> int \<Rightarrow> 'l val_op \<Rightarrow> bool" where
  "local_between p t (CanValidateSeq A q) \<longleftrightarrow>
     va_parms A = p \<and> t \<le> va_clock A \<and> va_clock A \<le> t + validationSET_EXPIRES p"
| "local_between p t _ \<longleftrightarrow> True"

fun add_between :: "ValidationParms \<Rightarrow> int \<Rightarrow> 'l val_op \<Rightarrow> bool" where
  "add_between p t (AddValidation A n v) \<longleftrightarrow>
     va_parms A = p \<and> t \<le> va_clock A \<and> va_clock A \<le> t + validationSET_EXPIRES p"
| "add_between p t _ \<longleftrightarrow> True"

lemma local_step:
  assumes "val_step L op s = Some s'" "local_between p t op" "remembers t q (localSeqEnforcer s)"
  shows "remembers t q (localSeqEnforcer s')"
proof (cases "\<exists>A q. op = CanValidateSeq A q")
  case True
  then show ?thesis using assms enforceSeq_remembers(1)[OF assms(3)]
    by (auto simp: canValidateSeq_def split: prod.splits)
      (metis snd_conv)
next
  case False
  then have "localSeqEnforcer s' = localSeqEnforcer s" using val_step_local[OF assms(1)] by blast
  with assms(3) show ?thesis by simp
qed

text \<open>
  (C18) The validations of this node increase. When \<open>canValidateSeq\<close> allows a validation and, within
  the expiry time and after any operations in between, another one, the second sequence number is
  greater.
\<close>

theorem own_validations_increase:
  assumes "canValidateSeq A1 q1 s = (True, s1)"
    and "foldM (val_step L) ops s1 = Some s2" "list_all (local_between (va_parms A1) (va_clock A1)) ops"
    and "canValidateSeq A2 q2 s2 = (True, s3)" "va_parms A2 = va_parms A1"
    and "va_clock A1 \<le> va_clock A2" "va_clock A2 \<le> va_clock A1 + validationSET_EXPIRES (va_parms A1)"
  shows "q1 < q2"
proof -
  obtain e1 where e1: "enforceSeq (va_parms A1) (va_clock A1) q1 (localSeqEnforcer s) = (True, e1)"
    "localSeqEnforcer s1 = e1" using assms(1) by (auto simp: canValidateSeq_def split: prod.splits)
  have "remembers (va_clock A1) q1 (localSeqEnforcer s2)"
    using assms(2)
  proof (rule foldM_keeps)
    show "remembers (va_clock A1) q1 (localSeqEnforcer s1)"
      using enforceSeq_accept[OF e1(1)] e1(2) by (simp add: remembers_def)
  next
    fix op u u' assume "op \<in> set ops" "remembers (va_clock A1) q1 (localSeqEnforcer u)" "val_step L op u = Some u'"
    with assms(3) show "remembers (va_clock A1) q1 (localSeqEnforcer u')"
      by (intro local_step[of L op u u']) (auto simp: list_all_iff)
  qed
  moreover have "fst (enforceSeq (va_parms A1) (va_clock A2) q2 (localSeqEnforcer s2))"
    using assms(4,5) by (auto simp: canValidateSeq_def split: prod.splits)
  ultimately show ?thesis using enforceSeq_remembers(2) assms(6,7) by blast
qed

theorem own_validations_increase_witness:
  "\<exists>s1 s2 s3. canValidateSeq sampleAdaptor 3 (newValidations R) = (True, s1)
     \<and> foldM (val_step R) (CanValidateSeq sampleAdaptor 3 # sampleValOps) s1 = Some s2
     \<and> canValidateSeq sampleAdaptor 4 s2 = (True, s3) \<and> (3::nat) < 4"
proof -
  have c: "(\<lambda>(b, s1). (b, map_option (\<lambda>s2. fst (canValidateSeq sampleAdaptor 4 s2))
      (foldM (val_step R) (CanValidateSeq sampleAdaptor 3 # sampleValOps) s1)))
      (canValidateSeq sampleAdaptor 3 (newValidations R)) = (True, Some True)" by code_simp
  obtain s1 where s1: "canValidateSeq sampleAdaptor 3 (newValidations R) = (True, s1)" using c by (auto split: prod.splits)
  obtain s2 where s2: "foldM (val_step R) (CanValidateSeq sampleAdaptor 3 # sampleValOps) s1 = Some s2"
    "fst (canValidateSeq sampleAdaptor 4 s2)" using c unfolding s1 by auto
  obtain s3 where s3: "canValidateSeq sampleAdaptor 4 s2 = (True, s3)"
    using s2(2) by (cases "canValidateSeq sampleAdaptor 4 s2") simp
  have "list_all (local_between (va_parms sampleAdaptor) (va_clock sampleAdaptor)) (CanValidateSeq sampleAdaptor 3 # sampleValOps)"
    by code_simp
  from own_validations_increase[OF s1 s2(1) this s3] s1 s2(1) s3 show ?thesis
    by (simp add: sampleAdaptor_def defaultValidationParms_def)
qed

abbreviation enforcerOf :: "NodeID \<Rightarrow> 'l Validations \<Rightarrow> SeqEnforcer" where
  "enforcerOf n s \<equiv> (case map_of (seqEnforcers s) n of None \<Rightarrow> newSeqEnforcer | Some e \<Rightarrow> e)"

lemma node_step:
  assumes "val_step L op s = Some s'" "add_between p t op" "remembers t q (enforcerOf n s)"
  shows "remembers t q (enforcerOf n s')"
proof (cases "\<exists>A n v. op = AddValidation A n v")
  case True
  then obtain A m v where op: "op = AddValidation A m v" by blast
  obtain st where st: "val_add L A m v s = Some (st, s')" using assms(1) op by auto
  let ?e = "snd (enforceSeq (va_parms A) (va_clock A) (v_seq v) (enforcerOf m s))"
  from val_add_frame(2)[OF st] show ?thesis
  proof
    assume "seqEnforcers s' = AList.update m ?e (seqEnforcers s)"
    moreover have "remembers t q ?e" if "m = n"
      using enforceSeq_remembers(1)[OF assms(3), of "va_clock A" "va_parms A" "v_seq v"] assms(2) op that by simp
    ultimately show ?thesis using assms(3) by (cases "m = n") (simp_all add: update_conv')
  qed (use assms(3) in simp)
next
  case False
  then have "seqEnforcers s' = seqEnforcers s" using val_step_nodes[OF assms(1)] by blast
  with assms(3) show ?thesis by simp
qed

lemma val_add_current:
  assumes "val_add L A n v s = Some (vs_current, s')"
  shows "fst (enforceSeq (va_parms A) (va_clock A) (v_seq v) (enforcerOf n s))"
    "enforcerOf n s' = snd (enforceSeq (va_parms A) (va_clock A) (v_seq v) (enforcerOf n s))"
proof -
  obtain b e where e: "enforceSeq (va_parms A) (va_clock A) (v_seq v) (enforcerOf n s) = (b, e)" by fastforce
  have "seqFault t v \<noteq> vs_current" for t by (simp add: seqFault_def)
  then have b: "b" using assms e by (auto simp: val_add_def Let_def split: if_splits Option.bind_splits)
  with assms e have "seqEnforcers s' = AList.update n e (seqEnforcers s)"
    by (auto simp: val_add_def Let_def store_frame_def split: if_splits dest!: addCurrent_frame)
  with b e show "fst (enforceSeq (va_parms A) (va_clock A) (v_seq v) (enforcerOf n s))"
    "enforcerOf n s' = snd (enforceSeq (va_parms A) (va_clock A) (v_seq v) (enforcerOf n s))"
    by (simp_all add: update_conv')
qed

text \<open>
  (C19) The accepted validations of a node increase. When two validations of a node are accepted as
  current within the expiry time, with any operations in between, the second has the greater
  sequence number.
\<close>

theorem node_validations_increase:
  assumes "val_add L A1 n v1 s = Some (vs_current, s1)"
    and "foldM (val_step L) ops s1 = Some s2" "list_all (add_between (va_parms A1) (va_clock A1)) ops"
    and "val_add L A2 n v2 s2 = Some (vs_current, s3)" "va_parms A2 = va_parms A1"
    and "va_clock A1 \<le> va_clock A2" "va_clock A2 \<le> va_clock A1 + validationSET_EXPIRES (va_parms A1)"
  shows "v_seq v1 < v_seq v2"
proof -
  obtain e1 where e1: "enforceSeq (va_parms A1) (va_clock A1) (v_seq v1) (enforcerOf n s) = (True, e1)"
    "enforcerOf n s1 = e1" using val_add_current[OF assms(1)] by (metis fst_conv snd_conv surj_pair)
  have "remembers (va_clock A1) (v_seq v1) (enforcerOf n s2)"
    using assms(2)
  proof (rule foldM_keeps)
    show "remembers (va_clock A1) (v_seq v1) (enforcerOf n s1)"
      using enforceSeq_accept[OF e1(1)] unfolding e1(2) by (simp add: remembers_def)
  next
    fix op u u' assume "op \<in> set ops" "remembers (va_clock A1) (v_seq v1) (enforcerOf n u)" "val_step L op u = Some u'"
    with assms(3) show "remembers (va_clock A1) (v_seq v1) (enforcerOf n u')"
      by (intro node_step[of L op u u']) (auto simp: list_all_iff)
  qed
  moreover have "fst (enforceSeq (va_parms A1) (va_clock A2) (v_seq v2) (enforcerOf n s2))"
    using val_add_current(1)[OF assms(4)] assms(5) by simp
  ultimately show ?thesis using enforceSeq_remembers(2) assms(6,7) by blast
qed

theorem node_validations_increase_witness:
  "\<exists>s1 s2 s3. val_add R sampleAdaptor 7 (sampleVal 3 3 1000) (newValidations R) = Some (vs_current, s1)
     \<and> foldM (val_step R) sampleValOps s1 = Some s2
     \<and> val_add R sampleAdaptor 7 (sampleVal 4 4 1001) s2 = Some (vs_current, s3)
     \<and> v_seq (sampleVal 3 3 1000) < v_seq (sampleVal 4 4 1001)"
proof -
  have c: "map_option (\<lambda>(st, s1). (st, map_option (\<lambda>s2. map_option fst (val_add R sampleAdaptor 7 (sampleVal 4 4 1001) s2))
      (foldM (val_step R) sampleValOps s1))) (val_add R sampleAdaptor 7 (sampleVal 3 3 1000) (newValidations R))
      = Some (vs_current, Some (Some vs_current))" by code_simp
  then obtain s1 s2 s3 where s: "val_add R sampleAdaptor 7 (sampleVal 3 3 1000) (newValidations R) = Some (vs_current, s1)"
    "foldM (val_step R) sampleValOps s1 = Some s2" "val_add R sampleAdaptor 7 (sampleVal 4 4 1001) s2 = Some (vs_current, s3)"
    by auto
  have "list_all (add_between (va_parms sampleAdaptor) (va_clock sampleAdaptor)) sampleValOps" by code_simp
  from node_validations_increase[OF s(1,2) this s(3)] s show ?thesis
    by (simp add: sampleAdaptor_def defaultValidationParms_def)
qed

section \<open>Refused validations\<close>

lemma val_add_refused:
  assumes "curAt A v" "\<not> fst (enforceSeq (va_parms A) (va_clock A) (v_seq v) (enforcerOf n s))"
    and "trackedAt (v_seq v) n (s\<lparr>bySequence := aged_at (va_clock A) (v_seq v) [] (trackSeq (va_parms A) n v)
      (bySequence s)\<rparr>) = Some t"
  shows "\<exists>s'. val_add L A n v s = Some (seqFault t v, s') \<and> current s' = current s \<and> byLedger s' = byLedger s
    \<and> trie s' = trie s \<and> lastLedger s' = lastLedger s \<and> acquiring s' = acquiring s"
proof -
  obtain e where "enforceSeq (va_parms A) (va_clock A) (v_seq v) (enforcerOf n s) = (False, e)"
    using assms(2) by (cases "enforceSeq (va_parms A) (va_clock A) (v_seq v) (enforcerOf n s)") simp
  with assms(1,3) show ?thesis by (simp add: val_add_def Let_def trackedAt_def)
qed

lemma tracked_seq:
  assumes "store_inv s" "trackedAt q n s = Some t"
  shows "v_seq t = q"
proof -
  obtain vals w where "map_of (bySequence s) q = Some (w, vals)" "map_of vals n = Some t"
    using assms(2) by (auto simp: trackedAt_def aged_find_def simp del: map_of_eq_Some_iff split: Option.bind_splits)
  moreover have "keyed v_seq (bySequence s)" using assms(1) by (simp add: store_inv_def)
  ultimately show ?thesis by (blast dest: keyedD map_of_SomeD)
qed

text \<open>
  (C20) Byzantine validations. In every state that a sequence of operations reaches, a validation
  that is current but does not increase the sequence number of its node, signed not much later than
  the one tracked for the same node and sequence number, is refused as conflicting when it names
  another ledger, as multiple when it has another cookie, and as a bad sequence number otherwise. It
  has no effect on the current validations, the validations by ledger, the votes and the waiting
  nodes.
\<close>

theorem byzantine_validation_refused:
  assumes "val_runs (rv_ok par base baseID) ops" "val_run ops = Some s"
    and "trackedAt (v_seq v) n s = Some t" "curAt A v"
    and "\<not> fst (enforceSeq (va_parms A) (va_clock A) (v_seq v) (enforcerOf n s))"
    and "uint (v_signTime v) - uint (v_signTime t) \<le> validationCURRENT_WALL (va_parms A)"
  shows "\<exists>s'. val_add R A n v s = Some (if v_ledgerID t \<noteq> v_ledgerID v then vs_conflicting
      else if v_cookie t \<noteq> v_cookie v then vs_multiple else vs_badSeq, s')
    \<and> current s' = current s \<and> byLedger s' = byLedger s \<and> trie s' = trie s \<and> lastLedger s' = lastLedger s
    \<and> acquiring s' = acquiring s"
proof -
  have "rl_inv par base baseID s" using val_run_inv[OF assms(1)] assms(2) by auto
  then have "v_seq t = v_seq v" using tracked_seq assms(3) by (auto simp: vals_inv_def)
  then have f: "seqFault t v = (if v_ledgerID t \<noteq> v_ledgerID v then vs_conflicting
      else if v_cookie t \<noteq> v_cookie v then vs_multiple else vs_badSeq)" by (simp add: seqFault_def)
  have "trackedAt (v_seq v) n (s\<lparr>bySequence := aged_at (va_clock A) (v_seq v) [] (trackSeq (va_parms A) n v)
      (bySequence s)\<rparr>) = Some t"
    using trackedAt_self[where v = v and n = n and s = s] assms(3,6) by auto
  from val_add_refused[OF assms(4,5) this, of R] show ?thesis unfolding f .
qed

theorem byzantine_validation_refused_witness:
  "\<exists>s s'. val_run sampleValOps = Some s \<and> val_add R sampleAdaptor 2 (sampleVal 13 3 1001) s = Some (vs_conflicting, s')
     \<and> trie s' = trie s \<and> lastLedger s' = lastLedger s"
proof -
  let ?v = "sampleVal 13 3 1001"
  have "map_option (\<lambda>s. (trackedAt 3 2 s, fst (enforceSeq (va_parms sampleAdaptor) (va_clock sampleAdaptor) 3 (enforcerOf 2 s))))
      (val_run sampleValOps) = Some (Some (sampleVal 3 3 1000), False)" by code_simp
  then obtain s where s: "val_run sampleValOps = Some s" "trackedAt 3 2 s = Some (sampleVal 3 3 1000)"
    "\<not> fst (enforceSeq (va_parms sampleAdaptor) (va_clock sampleAdaptor) 3 (enforcerOf 2 s))" by auto
  have q: "v_seq ?v = 3" by (simp add: sampleVal_def)
  have v: "curAt sampleAdaptor ?v"
    "uint (v_signTime ?v) - uint (v_signTime (sampleVal 3 3 1000)) \<le> validationCURRENT_WALL (va_parms sampleAdaptor)"
    "v_ledgerID (sampleVal 3 3 1000) \<noteq> v_ledgerID ?v" by code_simp+
  show ?thesis
    using byzantine_validation_refused[OF sampleValOps_allowed s(1), of ?v 2 "sampleVal 3 3 1000" sampleAdaptor,
        unfolded q, OF s(2) v(1) s(3) v(2)] v(3) s(1) by auto
qed

section \<open>Expiry\<close>

text \<open>
  (C22) Expiry. In every state that a sequence of operations reaches, \<open>expire\<close> keeps exactly the sets
  of validations that were used within the expiry time, and those for ledgers at or above the
  sequence number to keep.
\<close>

theorem expire_keeps_recent:
  assumes "val_runs (rv_ok par base baseID) ops" "val_run ops = Some s" "clock_after (va_clock A) s"
    and "0 < validationSET_EXPIRES (va_parms A)"
  shows "aged_find i (byLedger (val_expire A s)) = (case map_of (byLedger s) i of None \<Rightarrow> None
      | Some (w, vals) \<Rightarrow> if keepLedgers s i vals \<or> va_clock A - validationSET_EXPIRES (va_parms A) < w
          then Some vals else None)
    \<and> aged_find q (bySequence (val_expire A s)) = (case map_of (bySequence s) q of None \<Rightarrow> None
      | Some (w, vals) \<Rightarrow> if keepSequences s q vals \<or> va_clock A - validationSET_EXPIRES (va_parms A) < w
          then Some vals else None)"
proof -
  let ?c = "va_clock A" and ?age = "validationSET_EXPIRES (va_parms A)"
  have "store_inv s" using val_run_inv[OF assms(1)] assms(2) by (auto simp: vals_inv_def)
  then have st: "aged_ok ?c (byLedger s)" "aged_ok ?c (bySequence s)" "keyed v_ledgerID (byLedger s)" "keyed v_seq (bySequence s)"
    using store_clock[of s ?c] assms(3) by blast+
  have "aged_find i (byLedger (val_expire A s)) = (case map_of (byLedger s) i of None \<Rightarrow> None
      | Some (w, vals) \<Rightarrow> if keepLedgers s i vals \<or> ?c - ?age < w then Some vals else None)"
    using touch_expire[OF st(1,3)] map_of_aged_expire[OF st(1)] assms(4)
    by (cases "toKeep s") (auto simp: val_expire_def Let_def aged_find_def kept_def split: option.splits)
  moreover have "aged_find q (bySequence (val_expire A s)) = (case map_of (bySequence s) q of None \<Rightarrow> None
      | Some (w, vals) \<Rightarrow> if keepSequences s q vals \<or> ?c - ?age < w then Some vals else None)"
    using touch_expire[OF st(2,4)] map_of_aged_expire[OF st(2)] assms(4)
    by (cases "toKeep s") (auto simp: val_expire_def Let_def aged_find_def kept_def split: option.splits)
  ultimately show ?thesis by blast
qed

definition sampleKeep :: "RCLValidatedLedger val_op list" where
  "sampleKeep = [AddValidation sampleAdaptor 3 (sampleVal 13 3 1000), AddValidation sampleAdaptor 1 (sampleVal 4 4 1001),
     SetSeqToKeep 4]"

theorem expire_keeps_recent_witness:
  "\<exists>s. val_run sampleKeep = Some s
     \<and> aged_find 13 (byLedger (val_expire (sampleAdaptor\<lparr>va_clock := 601\<rparr>) s)) = None
     \<and> aged_find 4 (bySequence (val_expire (sampleAdaptor\<lparr>va_clock := 601\<rparr>) s)) = Some [(1, sampleVal 4 4 1001)]"
proof -
  let ?A = "sampleAdaptor\<lparr>va_clock := 601\<rparr>"
  have ok: "val_runs (rv_ok samplePar 2 2) sampleKeep"
    unfolding sampleKeep_def guarded.simps val_allowed.simps sampleAdaptor_fits by code_simp
  have "map_option (\<lambda>s. (clock_after 601 s, map_of (byLedger s) 13, map_of (bySequence s) 4, toKeep s)) (val_run sampleKeep)
      = Some (True, Some (0, [(3, sampleVal 13 3 1000)]), Some (0, [(1, sampleVal 4 4 1001)]), Some 4)" by code_simp
  then obtain s where s: "val_run sampleKeep = Some s" "clock_after (va_clock ?A) s" "toKeep s = Some 4"
    "map_of (byLedger s) 13 = Some (0, [(3, sampleVal 13 3 1000)])" "map_of (bySequence s) 4 = Some (0, [(1, sampleVal 4 4 1001)])"
    by auto
  have pos: "0 < validationSET_EXPIRES (va_parms ?A)" and "va_clock ?A - validationSET_EXPIRES (va_parms ?A) = 1" by code_simp+
  note e = expire_keeps_recent[OF ok s(1,2) pos, of 13 4, unfolded s(3-5) this]
  have "keepLedger 4 13 [(3, sampleVal 13 3 1000)] = False" "keepSequence 4 4 [(1, sampleVal 4 4 1001)] = True" by code_simp+
  then have "aged_find 13 (byLedger (val_expire ?A s)) = None"
    "aged_find 4 (bySequence (val_expire ?A s)) = Some [(1, sampleVal 4 4 1001)]" using e by simp_all
  with s(1) show ?thesis by blast
qed

section \<open>A vote that remains\<close>

text \<open>
  (C21) A vote survives the loss of trust. \<open>removeTrie\<close> withdraws the vote of a node only when its last
  acquired ledger is the one of its current validation. So in every state that a sequence of operations
  reaches, when the last acquired ledger of a node is another one, because the ledger of its current
  validation is still being acquired, the removal of the node from the trusted ones marks its
  validation as untrusted and leaves its vote in the trie.
\<close>

theorem pending_vote_survives_untrust:
  assumes "val_runs (rv_ok par base baseID) ops" "val_run ops = Some s" "adaptor_fits R (rv_ok par base baseID) A s"
    and "map_of (current s) n = Some v" "map_of (lastLedger s) n = Some l" "ledgerID l \<noteq> v_ledgerID v"
  shows "\<exists>s'. trustChanged R A [] [n] s = Some s' \<and> map_of (current s') n = Some (v\<lparr>v_trusted := False\<rparr>)
    \<and> map_of (lastLedger s') n = Some l \<and> trie s' = trie s"
proof -
  have inv: "rl_inv par base baseID s" using val_run_inv[OF assms(1)] assms(2) by auto
  then have t: "tally_inv R (rv_ok par base baseID) (chain_num par) (chain_anc par) s" "store_inv s"
    by (simp_all add: vals_inv_def)
  have ac: "acquire_ok R (rv_ok par base baseID) A" using assms(3) by (simp add: adaptor_fits_def)
  obtain s' where s': "trustChanged R A [] [n] s = Some s'"
    "\<And>m. map_of (current s') m = map_option (setTrust [] [n] m) (map_of (current s) m)"
    using rl.trustChanged_inv[OF t ac] by blast
  obtain u where u: "foldM (trustChangedStep R A [] [n]) (current s) s = Some u" "trie s' = trie u" "lastLedger s' = lastLedger u"
    using s'(1) by (auto simp: trustChanged_def split: Option.bind_splits)
  have "trie u = trie s \<and> lastLedger u = lastLedger s"
    using u(1)
  proof (rule foldM_keeps)
    fix x w w' assume x: "x \<in> set (current s)" "trie w = trie s \<and> lastLedger w = lastLedger s"
      "trustChangedStep R A [] [n] x w = Some w'"
    obtain m v' where m: "x = (m, v')" by (cases x)
    show "trie w' = trie s \<and> lastLedger w' = lastLedger s"
    proof (cases "m = n")
      case True
      then have "v' = v" using x(1) m assms(4) tally_distinct[OF t(1)] by (metis map_of_is_SomeI option.inject)
      with True x m assms(5,6) show ?thesis
        by (auto simp: trustChangedStep_def removeTrie_def eraseAcquiring_def Let_def split: option.splits if_splits)
    qed (use x m in \<open>auto simp: trustChangedStep_def\<close>)
  qed simp
  with s' u assms(4,5) show ?thesis by (auto simp: setTrust_def)
qed

text \<open>In the sample, a node that is no longer trusted then decides the preferred ledger alone.\<close>

definition samplePending :: "RCLValidatedLedger val_op list" where
  "samplePending = [AddValidation sampleAdaptor 1 (sampleVal 3 3 1000), AddValidation sampleAdaptor 1 (sampleVal 4 4 1001)]"

lemma samplePending_preferred:
  "map_option (\<lambda>s. (list_all (\<lambda>(n, v). \<not> v_trusted v) (current s),
       map_option fst (getPreferred R sampleAdaptor makeGenesis s)))
     (val_run (samplePending @ [TrustChanged sampleAdaptor [] [1]])) = Some (True, Some (Some (3, 3)))"
  by code_simp

theorem pending_vote_survives_untrust_witness:
  "\<exists>s s'. val_run samplePending = Some s \<and> trustChanged R sampleAdaptor [] [1] s = Some s'
     \<and> map_of (lastLedger s') 1 = Some sampleA \<and> trie s' = trie s"
proof -
  have ok: "val_runs (rv_ok samplePar 2 2) samplePending"
    unfolding samplePending_def guarded.simps val_allowed.simps sampleAdaptor_fits by code_simp
  have "map_option (\<lambda>s. (clock_after 0 s, map_of (current s) 1, map_of (lastLedger s) 1)) (val_run samplePending)
      = Some (True, Some (sampleVal 4 4 1001), Some sampleA)" by code_simp
  then obtain s where s: "val_run samplePending = Some s" "clock_after 0 s"
    "map_of (current s) 1 = Some (sampleVal 4 4 1001)" "map_of (lastLedger s) 1 = Some sampleA" by auto
  have f: "adaptor_fits R (rv_ok samplePar 2 2) sampleAdaptor s" using s(2) sampleAdaptor_fits by blast
  have "ledgerID sampleA \<noteq> v_ledgerID (sampleVal 4 4 1001)" by code_simp
  from pending_vote_survives_untrust[OF ok s(1) f s(3,4) this] s(1) show ?thesis by blast
qed

end
