(* ===== verification/Exceptions.thy ===== *)
theory Exceptions
  imports Prelude
begin

text \<open>
  Results of operations that throw. An exception is a left value, with its message; a failed
  assertion and undefined behaviour are left values as well.
\<close>

datatype cpp_error = OverflowError string | RuntimeError string | RangeError string int | AssertError | Undefined

type_synonym 'a cpp_result = "cpp_error + 'a"

fun andThen :: "'a cpp_result \<Rightarrow> ('a \<Rightarrow> 'b cpp_result) \<Rightarrow> 'b cpp_result" where
  "andThen (Inl e) f = Inl e"
| "andThen (Inr a) f = f a"

lemma andThen_Inr: "andThen r f = Inr b \<longleftrightarrow> (\<exists>a. r = Inr a \<and> f a = Inr b)"
  by (cases r) auto

text \<open>What holds of every outcome: \<open>P\<close> of the results, \<open>E\<close> of the errors.\<close>

fun outcome :: "('a \<Rightarrow> bool) \<Rightarrow> (cpp_error \<Rightarrow> bool) \<Rightarrow> 'a cpp_result \<Rightarrow> bool" where
  "outcome P E (Inl e) = E e"
| "outcome P E (Inr a) = P a"

lemma outcome_andThen:
  assumes "outcome Q E r" "\<And>a. Q a \<Longrightarrow> outcome P E (f a)"
  shows "outcome P E (andThen r f)"
  using assms by (cases r) auto

lemma outcome_Inr: "outcome P E r \<Longrightarrow> r = Inr a \<Longrightarrow> P a"
  by simp

end
