(* ===== verification/Serializer.thy ===== *)
theory Serializer
  imports Exceptions
begin

text \<open>
  Serialisation: \<^verbatim>\<open>src/ripple/protocol/Serializer.h\<close> and \<^verbatim>\<open>src/ripple/protocol/impl/Serializer.cpp\<close>.
  A serializer is its bytes; each operation that adds to it returns the former length, as an \<open>int\<close>,
  and the new bytes. A \<open>SerialIter\<close> is a buffer and the number of bytes used. Exceptions
  and failed assertions are left values.
\<close>

unbundle bit_operations_syntax

type_synonym byte = "8 word"

section \<open>Serializer\<close>

definition add8 :: "byte \<Rightarrow> byte list \<Rightarrow> int \<times> byte list" where
  "add8 i s = (int_of_size (length s), s @ [i])"

definition add16 :: "16 word \<Rightarrow> byte list \<Rightarrow> int \<times> byte list" where
  "add16 i s = (int_of_size (length s), s @ [ucast (drop_bit 8 i), ucast (i AND 255)])"

definition add32 :: "32 word \<Rightarrow> byte list \<Rightarrow> int \<times> byte list" where
  "add32 i s = (int_of_size (length s),
     s @ [ucast (drop_bit 24 i), ucast (drop_bit 16 i AND 255), ucast (drop_bit 8 i AND 255), ucast (i AND 255)])"

definition add64 :: "64 word \<Rightarrow> byte list \<Rightarrow> int \<times> byte list" where
  "add64 i s = (int_of_size (length s),
     s @ [ucast (drop_bit 56 i), ucast (drop_bit 48 i AND 255), ucast (drop_bit 40 i AND 255),
          ucast (drop_bit 32 i AND 255), ucast (drop_bit 24 i AND 255), ucast (drop_bit 16 i AND 255),
          ucast (drop_bit 8 i AND 255), ucast (i AND 255)])"

definition addRaw :: "byte list \<Rightarrow> byte list \<Rightarrow> int \<times> byte list" where
  "addRaw v s = (int_of_size (length s), s @ v)"

definition addFieldID :: "int \<Rightarrow> int \<Rightarrow> byte list \<Rightarrow> (int \<times> byte list) cpp_result" where
  "addFieldID type name s =
     (if \<not> (0 < type \<and> type < 256 \<and> 0 < name \<and> name < 256) then Inl AssertError
      else Inr (int_of_size (length s), s @
        (if type < 16 then
           if name < 16 then [word_of_int (push_bit 4 type OR name)]
           else [word_of_int (push_bit 4 type), word_of_int name]
         else if name < 16 then [word_of_int name, word_of_int type]
         else [0, word_of_int type, word_of_int name])))"

definition ser_get8 :: "int \<Rightarrow> byte list \<Rightarrow> byte option" where
  "ser_get8 offset s = (if size_of_int offset \<ge> length s then None else Some (s ! nat offset))"

definition chop :: "int \<Rightarrow> byte list \<Rightarrow> byte list option" where
  "chop n s = (if size_of_int n > length s then None else Some (take (length s - size_of_int n) s))"

definition encodeLengthLength :: "int \<Rightarrow> int cpp_result" where
  "encodeLengthLength len =
     (if len < 0 then Inl (OverflowError ''len<0'')
      else if len \<le> 192 then Inr 1
      else if len \<le> 12480 then Inr 2
      else if len \<le> 918744 then Inr 3
      else Inl (OverflowError ''len>918744''))"

definition decodeLengthLength :: "int \<Rightarrow> int cpp_result" where
  "decodeLengthLength b1 =
     (if b1 < 0 then Inl (OverflowError ''b1<0'')
      else if b1 \<le> 192 then Inr 1
      else if b1 \<le> 240 then Inr 2
      else if b1 \<le> 254 then Inr 3
      else Inl (OverflowError ''b1>254''))"

definition decodeVLLength1 :: "int \<Rightarrow> int cpp_result" where
  "decodeVLLength1 b1 =
     (if b1 < 0 then Inl (OverflowError ''b1<0'')
      else if 254 < b1 then Inl (OverflowError ''b1>254'')
      else Inr b1)"

definition decodeVLLength2 :: "int \<Rightarrow> int \<Rightarrow> int cpp_result" where
  "decodeVLLength2 b1 b2 =
     (if b1 < 193 then Inl (OverflowError ''b1<193'')
      else if 240 < b1 then Inl (OverflowError ''b1>240'')
      else Inr (193 + (b1 - 193) * 256 + b2))"

definition decodeVLLength3 :: "int \<Rightarrow> int \<Rightarrow> int \<Rightarrow> int cpp_result" where
  "decodeVLLength3 b1 b2 b3 =
     (if b1 < 241 then Inl (OverflowError ''b1<241'')
      else if 254 < b1 then Inl (OverflowError ''b1>254'')
      else Inr (12481 + (b1 - 241) * 65536 + b2 * 256 + b3))"

definition addEncoded :: "int \<Rightarrow> byte list \<Rightarrow> (int \<times> byte list) cpp_result" where
  "addEncoded len s =
     (if len \<le> 192 then Inr (addRaw [word_of_int len] s)
      else if len \<le> 12480 then
        let l = len - 193
        in Inr (addRaw [193 + word_of_int (drop_bit 8 l), word_of_int (l AND 255)] s)
      else if len \<le> 918744 then
        let l = len - 12481
        in Inr (addRaw [241 + word_of_int (drop_bit 16 l), word_of_int (drop_bit 8 l AND 255),
                        word_of_int (l AND 255)] s)
      else Inl (OverflowError ''lenlen''))"

definition addVL :: "byte list \<Rightarrow> byte list \<Rightarrow> (int \<times> byte list) cpp_result" where
  "addVL v s = andThen (addEncoded (int_of_size (length v)) s) (\<lambda>(ret, s1).
     let s2 = snd (addRaw v s1)
     in andThen (encodeLengthLength (int_of_size (length v))) (\<lambda>n.
        if length s2 = size_of_int ret + length v + size_of_int n then Inr (ret, s2) else Inl AssertError))"

definition addVLSlice :: "byte list \<Rightarrow> byte list \<Rightarrow> (int \<times> byte list) cpp_result" where
  "addVLSlice v s = andThen (addEncoded (int_of_size (length v)) s) (\<lambda>(ret, s1).
     Inr (ret, if v = [] then s1 else snd (addRaw v s1)))"

section \<open>SerialIter\<close>

record SerialIter =
  it_data :: "byte list"
  it_used :: nat

definition newSerialIter :: "byte list \<Rightarrow> SerialIter" where
  "newSerialIter data = \<lparr>it_data = data, it_used = 0\<rparr>"

definition it_remain :: "SerialIter \<Rightarrow> nat" where
  "it_remain it = length (it_data it) - it_used it"

definition it_empty :: "SerialIter \<Rightarrow> bool" where
  "it_empty it \<longleftrightarrow> it_remain it = 0"

definition it_reset :: "SerialIter \<Rightarrow> SerialIter" where
  "it_reset it = it\<lparr>it_used := 0\<rparr>"

text \<open>The bytes from the pointer on, and the pointer advanced.\<close>

definition it_rest :: "SerialIter \<Rightarrow> byte list" where
  "it_rest it = drop (it_used it) (it_data it)"

definition it_advance :: "nat \<Rightarrow> SerialIter \<Rightarrow> SerialIter" where
  "it_advance n it = it\<lparr>it_used := it_used it + n\<rparr>"

definition it_skip :: "int \<Rightarrow> SerialIter \<Rightarrow> SerialIter cpp_result" where
  "it_skip len it =
     (if it_remain it < size_of_int len then Inl (RuntimeError ''invalid SerialIter skip'')
      else Inr (it_advance (size_of_int len) it))"

definition get8 :: "SerialIter \<Rightarrow> (byte \<times> SerialIter) cpp_result" where
  "get8 it =
     (if it_remain it < 1 then Inl (RuntimeError ''invalid SerialIter get8'')
      else Inr (it_rest it ! 0, it_advance 1 it))"

definition get16 :: "SerialIter \<Rightarrow> (16 word \<times> SerialIter) cpp_result" where
  "get16 it =
     (if it_remain it < 2 then Inl (RuntimeError ''invalid SerialIter get16'')
      else let t = it_rest it
           in Inr (ucast (push_bit 8 (ucast (t ! 0)) + ucast (t ! 1) :: 64 word), it_advance 2 it))"

definition get32 :: "SerialIter \<Rightarrow> (32 word \<times> SerialIter) cpp_result" where
  "get32 it =
     (if it_remain it < 4 then Inl (RuntimeError ''invalid SerialIter get32'')
      else let t = it_rest it
           in Inr (ucast (push_bit 24 (ucast (t ! 0)) + push_bit 16 (ucast (t ! 1))
                + push_bit 8 (ucast (t ! 2)) + ucast (t ! 3) :: 64 word), it_advance 4 it))"

definition get64 :: "SerialIter \<Rightarrow> (64 word \<times> SerialIter) cpp_result" where
  "get64 it =
     (if it_remain it < 8 then Inl (RuntimeError ''invalid SerialIter get64'')
      else let t = it_rest it
           in Inr (push_bit 56 (ucast (t ! 0)) + push_bit 48 (ucast (t ! 1)) + push_bit 40 (ucast (t ! 2))
                + push_bit 32 (ucast (t ! 3)) + push_bit 24 (ucast (t ! 4)) + push_bit 16 (ucast (t ! 5))
                + push_bit 8 (ucast (t ! 6)) + ucast (t ! 7), it_advance 8 it))"

text \<open>A bit string of \<open>n\<close> bytes, as its bytes.\<close>

definition getBitString :: "nat \<Rightarrow> SerialIter \<Rightarrow> (byte list \<times> SerialIter) cpp_result" where
  "getBitString n it =
     (if it_remain it < n then Inl (RuntimeError ''invalid SerialIter getBitString'')
      else Inr (take n (it_rest it), it_advance n it))"

definition getFieldID :: "SerialIter \<Rightarrow> ((int \<times> int) \<times> SerialIter) cpp_result" where
  "getFieldID it = andThen (get8 it) (\<lambda>(b, it1).
     let name = uint b AND 15; type = drop_bit 4 (uint b)
     in andThen (if type = 0 then andThen (get8 it1) (\<lambda>(t, it2).
                   if uint t < 16 then Inl (RangeError ''gFID: uncommon type out of range '' (uint t))
                   else Inr (uint t, it2))
                 else Inr (type, it1)) (\<lambda>(type, it2).
        andThen (if name = 0 then andThen (get8 it2) (\<lambda>(n, it3).
                   if uint n < 16 then Inl (RangeError ''gFID: uncommon name out of range '' (uint n))
                   else Inr (uint n, it3))
                 else Inr (name, it2)) (\<lambda>(name, it3). Inr ((type, name), it3))))"

definition getRaw :: "int \<Rightarrow> SerialIter \<Rightarrow> (byte list \<times> SerialIter) cpp_result" where
  "getRaw n it =
     (if it_remain it < size_of_int n then Inl (RuntimeError ''invalid SerialIter getRaw'')
      else Inr (take (size_of_int n) (it_rest it), if n \<noteq> 0 then it_advance (size_of_int n) it else it))"

definition getVLDataLength :: "SerialIter \<Rightarrow> (int \<times> SerialIter) cpp_result" where
  "getVLDataLength it = andThen (get8 it) (\<lambda>(b1, it1).
     andThen (decodeLengthLength (uint b1)) (\<lambda>lenLen.
       if lenLen = 1 then andThen (decodeVLLength1 (uint b1)) (\<lambda>n. Inr (n, it1))
       else if lenLen = 2 then andThen (get8 it1) (\<lambda>(b2, it2).
         andThen (decodeVLLength2 (uint b1) (uint b2)) (\<lambda>n. Inr (n, it2)))
       else if lenLen = 3 then andThen (get8 it1) (\<lambda>(b2, it2). andThen (get8 it2) (\<lambda>(b3, it3).
         andThen (decodeVLLength3 (uint b1) (uint b2) (uint b3)) (\<lambda>n. Inr (n, it3))))
       else Inl AssertError))"

definition getSlice :: "nat \<Rightarrow> SerialIter \<Rightarrow> (byte list \<times> SerialIter) cpp_result" where
  "getSlice n it =
     (if it_remain it < n then Inl (RuntimeError ''invalid SerialIter getSlice'')
      else Inr (take n (it_rest it), it_advance n it))"

definition getVL :: "SerialIter \<Rightarrow> (byte list \<times> SerialIter) cpp_result" where
  "getVL it = andThen (getVLDataLength it) (\<lambda>(n, it1). getRaw n it1)"

end
