(* ===== verification/Serializer_Props.thy ===== *)
theory Serializer_Props
  imports Serializer "HOL-Library.Sublist"
begin

text \<open>
  Round trips of the serialisation. A codec (\<open>codec\<close>) is a writer and a reader such that the reader
  returns what was written, advances past it, and fails on a truncated input; sequences of values of
  a codec are written and read in the same way. The integers, the bit strings, the field identifiers
  and the variable length data are codecs.
\<close>

unbundle bit_operations_syntax

section \<open>Bytes of words\<close>

lemma unat_shift: "unat (drop_bit n w :: 'a::len word) = unat w div 2 ^ n"
proof -
  have "take_bit LENGTH('a) (unat w) = unat w" by (rule take_bit_nat_eq_self) (rule unsigned_less)
  then show ?thesis by (simp only: unsigned_drop_bit_eq drop_bit_nat_def)
qed

lemma unat_bound: "unat (w :: 'a::len word) < 2 ^ LENGTH('a)"
  by (rule unsigned_less)

lemma byte_eqI: "unat w mod 256 = n mod 256 \<Longrightarrow> ucast w = (word_of_nat n :: byte)"
  by (simp add: word_unat_eq_iff unsigned_ucast_eq unat_of_nat take_bit_nat_def)

lemma unat_and_255: "unat (w AND 255 :: 'a::len word) mod 256 = unat w mod 256"
proof -
  have m: "(255 :: 'a word) = mask 8" by (simp add: mask_eq_exp_minus_1)
  have "unat (w AND 255) = take_bit 8 (unat w)" unfolding m take_bit_eq_mask[symmetric] by (rule unsigned_take_bit_eq)
  then show ?thesis by (simp add: take_bit_nat_def)
qed

lemma byte_low: "ucast (w AND 255) = (word_of_nat (unat w) :: byte)"
  by (rule byte_eqI) (rule unat_and_255)

lemma byte_top: "ucast (drop_bit n w) = (word_of_nat (unat w div 2 ^ n) :: byte)"
  by (rule byte_eqI) (simp only: unat_shift)

lemma wide_byte: "ucast (word_of_nat y :: byte) = (word_of_nat (y mod 256) :: 64 word)"
  by (simp add: word_unat_eq_iff unsigned_ucast_eq unat_of_nat take_bit_nat_def)

lemma wide_shift: "push_bit n (word_of_nat y) = (word_of_nat (y * 2 ^ n) :: 64 word)"
  by (simp add: push_bit_eq_mult)

lemmas bytes_value = byte_top byte_low unat_shift wide_byte wide_shift of_nat_add[symmetric]

text \<open>The digits of a number in base 256.\<close>

lemma digit_step: "(x :: nat) div 2 ^ n mod 256 * 2 ^ n + x mod 2 ^ n = x mod 2 ^ (n + 8)"
  by (simp add: power_add mod_mult2_eq mult.commute)

lemma digits2: "x div 2 ^ 8 mod 256 * 2 ^ 8 + x mod 256 = (x :: nat) mod 2 ^ 16"
  using digit_step[of x 8] by simp

lemma digits4: "x div 2 ^ 24 mod 256 * 2 ^ 24 + x div 2 ^ 16 mod 256 * 2 ^ 16 + x div 2 ^ 8 mod 256 * 2 ^ 8 + x mod 256
    = (x :: nat) mod 2 ^ 32"
  using digits2[of x] digit_step[of x 16] digit_step[of x 24] by simp

lemma digits8: "x div 2 ^ 56 mod 256 * 2 ^ 56 + x div 2 ^ 48 mod 256 * 2 ^ 48 + x div 2 ^ 40 mod 256 * 2 ^ 40
    + x div 2 ^ 32 mod 256 * 2 ^ 32 + x div 2 ^ 24 mod 256 * 2 ^ 24 + x div 2 ^ 16 mod 256 * 2 ^ 16
    + x div 2 ^ 8 mod 256 * 2 ^ 8 + x mod 256 = (x :: nat) mod 2 ^ 64"
  using digits4[of x] digit_step[of x 32] digit_step[of x 40] digit_step[of x 48] digit_step[of x 56] by simp

lemma narrow_nat: "ucast (word_of_nat y :: 64 word) = (word_of_nat y :: 'a::len word)" if "LENGTH('a) \<le> 64"
proof (rule word_unat_eq_iff[THEN iffD2])
  have "y mod 2 ^ 64 mod 2 ^ LENGTH('a) = y mod 2 ^ LENGTH('a)"
    using that by (intro mod_mod_cancel) (rule le_imp_power_dvd)
  then show "unat (ucast (word_of_nat y :: 64 word) :: 'a word) = unat (word_of_nat y :: 'a word)"
    by (simp add: unsigned_ucast_eq unat_of_nat take_bit_nat_def)
qed

lemma narrow_unat: "ucast (word_of_nat (unat i) :: 64 word) = (i :: 'a::len word)" if "LENGTH('a) \<le> 64"
  unfolding narrow_nat[OF that] by simp

lemma word16_bytes:
  "ucast (push_bit 8 (ucast (ucast (drop_bit 8 i) :: byte)) + ucast (ucast (i AND 255) :: byte) :: 64 word) = (i :: 16 word)"
proof -
  have "push_bit 8 (ucast (ucast (drop_bit 8 i) :: byte)) + ucast (ucast (i AND 255) :: byte)
      = (word_of_nat (unat i mod 2 ^ 16) :: 64 word)"
    unfolding bytes_value digits2 ..
  moreover have "unat i mod 2 ^ 16 = unat i" using unat_bound[of i] by simp
  ultimately show ?thesis by (simp only: narrow_unat) (rule narrow_unat, simp)
qed

lemma word32_bytes:
  "ucast (push_bit 24 (ucast (ucast (drop_bit 24 i) :: byte)) + push_bit 16 (ucast (ucast (drop_bit 16 i AND 255) :: byte))
     + push_bit 8 (ucast (ucast (drop_bit 8 i AND 255) :: byte)) + ucast (ucast (i AND 255) :: byte) :: 64 word) = (i :: 32 word)"
proof -
  have "push_bit 24 (ucast (ucast (drop_bit 24 i) :: byte)) + push_bit 16 (ucast (ucast (drop_bit 16 i AND 255) :: byte))
     + push_bit 8 (ucast (ucast (drop_bit 8 i AND 255) :: byte)) + ucast (ucast (i AND 255) :: byte)
      = (word_of_nat (unat i mod 2 ^ 32) :: 64 word)"
    unfolding bytes_value digits4 ..
  moreover have "unat i mod 2 ^ 32 = unat i" using unat_bound[of i] by simp
  ultimately show ?thesis by (simp only: narrow_unat) (rule narrow_unat, simp)
qed

lemma word64_bytes:
  "push_bit 56 (ucast (ucast (drop_bit 56 i) :: byte)) + push_bit 48 (ucast (ucast (drop_bit 48 i AND 255) :: byte))
     + push_bit 40 (ucast (ucast (drop_bit 40 i AND 255) :: byte)) + push_bit 32 (ucast (ucast (drop_bit 32 i AND 255) :: byte))
     + push_bit 24 (ucast (ucast (drop_bit 24 i AND 255) :: byte)) + push_bit 16 (ucast (ucast (drop_bit 16 i AND 255) :: byte))
     + push_bit 8 (ucast (ucast (drop_bit 8 i AND 255) :: byte)) + ucast (ucast (i AND 255) :: byte) = (i :: 64 word)"
proof -
  have "unat i mod 2 ^ 64 = unat i" using unat_bound[of i] by simp
  then show ?thesis unfolding bytes_value digits8 by simp
qed

section \<open>Iterators\<close>

definition it_ok :: "SerialIter \<Rightarrow> bool" where
  "it_ok it \<longleftrightarrow> it_used it \<le> length (it_data it)"

lemma it_remain_rest: "it_remain it = length (it_rest it)"
  by (simp add: it_remain_def it_rest_def)

lemma it_rest_advance: "it_rest (it_advance n it) = drop n (it_rest it)"
  by (simp add: it_rest_def it_advance_def add.commute)

lemma it_advance_advance: "it_advance m (it_advance n it) = it_advance (n + m) it"
  by (simp add: it_advance_def add.assoc)

lemma it_advance_0 [simp]: "it_advance 0 it = it"
  by (simp add: it_advance_def)

lemmas it_simps = it_remain_rest it_rest_advance it_advance_advance

lemma get8_rest: "it_rest it = b # bs \<Longrightarrow> get8 it = Inr (b, it_advance 1 it)"
  by (simp add: get8_def it_simps)

lemma get8_end: "it_rest it = [] \<Longrightarrow> get8 it = Inl (RuntimeError ''invalid SerialIter get8'')"
  by (simp add: get8_def it_simps)

lemma strict_prefix_appendE:
  assumes "strict_prefix zs (a @ b)" "\<not> strict_prefix zs a"
  obtains ys where "zs = a @ ys" "strict_prefix ys b"
proof -
  obtain ys where "zs = a @ ys" "prefix ys b"
    using assms by (auto simp: strict_prefix_def prefix_append)
  with assms(1) that show thesis by (auto simp: strict_prefix_def)
qed

section \<open>Codecs\<close>

fun readAll ::
  "('k \<Rightarrow> SerialIter \<Rightarrow> ('a \<times> SerialIter) cpp_result) \<Rightarrow> 'k list \<Rightarrow> SerialIter \<Rightarrow> ('a list \<times> SerialIter) cpp_result" where
  "readAll dec [] it = Inr ([], it)"
| "readAll dec (k # ks) it = andThen (dec k it) (\<lambda>(x, it1). andThen (readAll dec ks it1) (\<lambda>(xs, it2). Inr (x # xs, it2)))"

locale codec =
  fixes ok :: "'a \<Rightarrow> bool" and enc :: "'a \<Rightarrow> byte list" and shape :: "'a \<Rightarrow> 'k"
    and dec :: "'k \<Rightarrow> SerialIter \<Rightarrow> ('a \<times> SerialIter) cpp_result"
  assumes dec_enc: "\<And>x it rest. ok x \<Longrightarrow> it_rest it = enc x @ rest
      \<Longrightarrow> dec (shape x) it = Inr (x, it_advance (length (enc x)) it)"
    and dec_short: "\<And>x it. ok x \<Longrightarrow> strict_prefix (it_rest it) (enc x) \<Longrightarrow> \<exists>e. dec (shape x) it = Inl e"
begin

lemma readAll_enc:
  "list_all ok xs \<Longrightarrow> it_rest it = concat (map enc xs) @ rest \<Longrightarrow>
     readAll dec (map shape xs) it = Inr (xs, it_advance (length (concat (map enc xs))) it)"
proof (induction xs arbitrary: it)
  case (Cons x xs)
  have "dec (shape x) it = Inr (x, it_advance (length (enc x)) it)"
    using Cons.prems dec_enc[of x it "concat (map enc xs) @ rest"] by simp
  moreover have "it_rest (it_advance (length (enc x)) it) = concat (map enc xs) @ rest"
    using Cons.prems(2) by (simp add: it_simps)
  ultimately show ?case using Cons.IH[of "it_advance (length (enc x)) it"] Cons.prems(1) by (simp add: it_simps)
qed simp

lemma readAll_short:
  "list_all ok xs \<Longrightarrow> strict_prefix (it_rest it) (concat (map enc xs)) \<Longrightarrow> \<exists>e. readAll dec (map shape xs) it = Inl e"
proof (induction xs arbitrary: it)
  case (Cons x xs)
  show ?case
  proof (cases "strict_prefix (it_rest it) (enc x)")
    case True
    then show ?thesis using dec_short[of x it] Cons.prems(1) by auto
  next
    case False
    with Cons.prems(2) obtain ys where ys: "it_rest it = enc x @ ys" "strict_prefix ys (concat (map enc xs))"
      by (auto elim: strict_prefix_appendE)
    have "dec (shape x) it = Inr (x, it_advance (length (enc x)) it)" using Cons.prems(1) dec_enc ys(1) by simp
    moreover have "it_rest (it_advance (length (enc x)) it) = ys" using ys(1) by (simp add: it_simps)
    ultimately show ?thesis using Cons.IH[of "it_advance (length (enc x)) it"] Cons.prems(1) ys(2) by auto
  qed
qed simp

end

section \<open>Integers and bit strings\<close>

lemma strict_prefix_length: "strict_prefix xs ys \<Longrightarrow> length xs < length ys"
  by (rule prefix_length_less)

interpretation u8: codec "\<lambda>_. True" "\<lambda>i. snd (add8 i [])" "\<lambda>_. ()" "\<lambda>_. get8"
  by unfold_locales (auto simp: add8_def get8_def it_simps dest!: strict_prefix_length)

interpretation u16: codec "\<lambda>_. True" "\<lambda>i. snd (add16 i [])" "\<lambda>_. ()" "\<lambda>_. get16"
  by unfold_locales (auto simp: add16_def get16_def it_simps it_advance_def word16_bytes dest!: strict_prefix_length)

interpretation u32: codec "\<lambda>_. True" "\<lambda>i. snd (add32 i [])" "\<lambda>_. ()" "\<lambda>_. get32"
  by unfold_locales (auto simp: add32_def get32_def it_simps it_advance_def word32_bytes dest!: strict_prefix_length)

interpretation u64: codec "\<lambda>_. True" "\<lambda>i. snd (add64 i [])" "\<lambda>_. ()" "\<lambda>_. get64"
  by unfold_locales (auto simp: add64_def get64_def it_simps it_advance_def word64_bytes dest!: strict_prefix_length)

interpretation bits: codec "\<lambda>_. True" "\<lambda>v. snd (addRaw v [])" length getBitString
  by unfold_locales (auto simp: addRaw_def getBitString_def it_simps dest!: strict_prefix_length)

section \<open>Variable length data\<close>

lemma drop_and_int: "drop_bit n (l :: int) = l div 2 ^ n" "(l :: int) AND 255 = l mod 256"
proof -
  have "(255 :: int) = mask 8" by (simp add: mask_eq_exp_minus_1)
  then have "l AND 255 = take_bit 8 l" by (simp only: take_bit_eq_mask)
  then show "l AND 255 = l mod 256" by (simp add: take_bit_eq_mod)
qed (simp add: drop_bit_eq_div)

lemma int_digits3: "(l :: int) = l div 65536 * 65536 + l div 256 mod 256 * 256 + l mod 256"
proof -
  have "l div 65536 = l div 256 div 256" using zdiv_zmult2_eq[of 256 l 256] by simp
  moreover have "l = l div 256 * 256 + l mod 256" by simp
  moreover have "l div 256 = l div 256 div 256 * 256 + l div 256 mod 256" by simp
  ultimately show ?thesis by linarith
qed

text \<open>The length prefix: one, two or three bytes.\<close>

definition lengthBytes :: "nat \<Rightarrow> byte list" where
  "lengthBytes n = (case addEncoded (int n) [] of Inr (_, s) \<Rightarrow> s | Inl _ \<Rightarrow> [])"

lemma addEncoded_bytes:
  assumes "n \<le> 918744"
  shows "addEncoded (int n) s = Inr (int_of_size (length s), s @ lengthBytes n)"
    "encodeLengthLength (int n) = Inr (int (length (lengthBytes n)))"
  using assms by (auto simp: lengthBytes_def addEncoded_def addRaw_def encodeLengthLength_def Let_def)

lemma lengthBytes_cases:
  assumes "n \<le> 918744"
  obtains (one) b where "lengthBytes n = [b]" "uint b = int n" "n \<le> 192"
  | (two) b c where "lengthBytes n = [b, c]" "193 \<le> uint b" "uint b \<le> 240" "int n = 193 + (uint b - 193) * 256 + uint c"
  | (three) b c d where "lengthBytes n = [b, c, d]" "241 \<le> uint b" "uint b \<le> 254"
      "int n = 12481 + (uint b - 241) * 65536 + uint c * 256 + uint d"
proof -
  consider "n \<le> 192" | "192 < n" "n \<le> 12480" | "12480 < n" by linarith
  then show thesis
  proof cases
    case 1
    have "uint (word_of_nat n :: byte) = int n" using 1 by (simp add: unsigned_of_nat take_bit_nat_eq_self)
    with 1 show thesis by (intro one[of "word_of_int (int n)"]) (simp_all add: lengthBytes_def addEncoded_def addRaw_def)
  next
    case 2
    let ?l = "int n - 193"
    have "uint (193 + word_of_int (?l div 256) :: byte) = 193 + ?l div 256"
      using 2 by (simp add: uint_word_ariths uint_word_of_int mod_pos_pos_trivial)
    moreover have "uint (word_of_int (?l mod 256) :: byte) = ?l mod 256" by (simp add: uint_word_of_int)
    moreover have "?l div 256 \<le> 47" "0 \<le> ?l div 256" using 2 by linarith+
    moreover have "?l = ?l div 256 * 256 + ?l mod 256" by simp
    ultimately show thesis using 2
      by (intro two[of "193 + word_of_int (?l div 256)" "word_of_int (?l mod 256)"])
        (simp_all add: lengthBytes_def addEncoded_def addRaw_def Let_def drop_and_int)
  next
    case 3
    let ?l = "int n - 12481"
    have u: "uint (241 + word_of_int (?l div 65536) :: byte) = 241 + ?l div 65536"
      using 3 assms by (simp add: uint_word_ariths uint_word_of_int mod_pos_pos_trivial)
    have v: "uint (word_of_int (?l div 256 mod 256) :: byte) = ?l div 256 mod 256"
      "uint (word_of_int (?l mod 256) :: byte) = ?l mod 256" by (simp_all add: uint_word_of_int)
    have bnd: "?l div 65536 \<le> 13" "0 \<le> ?l div 65536" using 3 assms by linarith+
    have "lengthBytes n = [241 + word_of_int (?l div 65536), word_of_int (?l div 256 mod 256), word_of_int (?l mod 256)]"
      using 3 assms by (simp add: lengthBytes_def addEncoded_def addRaw_def Let_def drop_and_int)
    moreover define q r t where "q = ?l div 65536" "r = ?l div 256 mod 256" "t = ?l mod 256"
    ultimately have "lengthBytes n = [241 + word_of_int q, word_of_int r, word_of_int t]" by simp
    moreover have "int n = 12481 + q * 65536 + r * 256 + t"
      using int_digits3[of ?l, folded q_r_t_def] by linarith
    moreover note u v bnd
    ultimately show thesis unfolding q_r_t_def[symmetric] by (intro three) auto
  qed
qed

lemma getVLDataLength_bytes:
  assumes "n \<le> 918744" "it_rest it = lengthBytes n @ rest"
  shows "getVLDataLength it = Inr (int n, it_advance (length (lengthBytes n)) it)"
  using assms(1)
proof (cases rule: lengthBytes_cases)
  case (one b)
  with assms(2) show ?thesis
    by (simp add: getVLDataLength_def get8_rest decodeLengthLength_def decodeVLLength1_def)
next
  case (two b c)
  with assms(2) show ?thesis
    by (simp add: getVLDataLength_def get8_rest[of _ _ "c # rest"] get8_rest[of _ c rest] it_simps decodeLengthLength_def
        decodeVLLength2_def)
next
  case (three b c d)
  with assms(2) show ?thesis
    by (simp add: getVLDataLength_def get8_rest[of _ _ "c # d # rest"] get8_rest[of _ c "d # rest"] get8_rest[of _ d rest]
        it_simps decodeLengthLength_def decodeVLLength3_def)
qed

lemma getVLDataLength_short:
  assumes "n \<le> 918744" "strict_prefix (it_rest it) (lengthBytes n)"
  shows "\<exists>e. getVLDataLength it = Inl e"
  using assms(1)
proof (cases rule: lengthBytes_cases)
  case (one b)
  with assms(2) show ?thesis by (auto simp: getVLDataLength_def get8_end strict_prefix_def prefix_Cons)
next
  case (two b c)
  with assms(2) consider "it_rest it = []" | "it_rest it = [b]" by (auto simp: strict_prefix_def prefix_Cons)
  then show ?thesis using two
    by cases (auto simp: getVLDataLength_def get8_end get8_rest it_simps decodeLengthLength_def)
next
  case (three b c d)
  with assms(2) consider "it_rest it = []" | "it_rest it = [b]" | "it_rest it = [b, c]"
    by (auto simp: strict_prefix_def prefix_Cons)
  then show ?thesis using three
    by cases (auto simp: getVLDataLength_def get8_end get8_rest it_simps decodeLengthLength_def)
qed

definition vlBytes :: "byte list \<Rightarrow> byte list" where
  "vlBytes v = lengthBytes (length v) @ v"

lemma size_of_int_nat: "n \<le> 918744 \<Longrightarrow> size_of_int (int n) = n" "n \<le> 918744 \<Longrightarrow> int_of_size n = int n"
  by (simp_all add: size_of_int_nonneg int_of_size_small)

lemma getRaw_bytes:
  assumes "length v \<le> 918744" "it_rest it = v @ rest"
  shows "getRaw (int (length v)) it = Inr (v, it_advance (length v) it)"
  using assms by (simp add: getRaw_def it_simps size_of_int_nat)

interpretation vl: codec "\<lambda>v. length v \<le> 918744" vlBytes "\<lambda>_. ()" "\<lambda>_. getVL"
proof
  fix x it rest assume x: "length x \<le> 918744" "it_rest it = vlBytes x @ rest"
  then show "getVL it = Inr (x, it_advance (length (vlBytes x)) it)"
    using getVLDataLength_bytes[of "length x" it "x @ rest"]
      getRaw_bytes[of x "it_advance (length (lengthBytes (length x))) it" rest]
    by (simp add: getVL_def vlBytes_def it_simps)
next
  fix x it assume x: "length x \<le> 918744" "strict_prefix (it_rest it) (vlBytes x)"
  show "\<exists>e. getVL it = Inl e"
  proof (cases "strict_prefix (it_rest it) (lengthBytes (length x))")
    case True
    then obtain e where "getVLDataLength it = Inl e" using getVLDataLength_short[OF x(1)] by blast
    then show ?thesis by (simp add: getVL_def)
  next
    case False
    with x(2) obtain ys where ys: "it_rest it = lengthBytes (length x) @ ys" "strict_prefix ys x"
      unfolding vlBytes_def by (rule strict_prefix_appendE)
    then show ?thesis using getVLDataLength_bytes[OF x(1) ys(1)] x(1) strict_prefix_length[OF ys(2)]
      by (simp add: getVL_def getRaw_def it_simps size_of_int_nat)
  qed
qed

section \<open>Field identifiers\<close>

definition fieldIDBytes :: "int \<times> int \<Rightarrow> byte list" where
  "fieldIDBytes = (\<lambda>(type, name). case addFieldID type name [] of Inr (_, s) \<Rightarrow> s | Inl _ \<Rightarrow> [])"

definition field_ok :: "int \<times> int \<Rightarrow> bool" where
  "field_ok = (\<lambda>(type, name). 0 < type \<and> type < 256 \<and> 0 < name \<and> name < 256)"

lemma addFieldID_bytes:
  "field_ok (type, name) \<Longrightarrow> addFieldID type name s = Inr (int_of_size (length s), s @ fieldIDBytes (type, name))"
  by (auto simp: field_ok_def addFieldID_def fieldIDBytes_def)

text \<open>The three forms of the first byte, for all values below 16.\<close>

lemma first_byte:
  "list_all (\<lambda>t. uint (word_of_int (push_bit 4 t) :: byte) AND 15 = 0 \<and> drop_bit 4 (uint (word_of_int (push_bit 4 t) :: byte)) = t
     \<and> uint (word_of_int t :: byte) AND 15 = t \<and> drop_bit 4 (uint (word_of_int t :: byte)) = 0
     \<and> list_all (\<lambda>n. uint (word_of_int (push_bit 4 t OR n) :: byte) AND 15 = n
          \<and> drop_bit 4 (uint (word_of_int (push_bit 4 t OR n) :: byte)) = t) [1..15]) [1..15]"
  by code_simp

lemma first_byte_cases:
  assumes "0 < t" "t < 16"
  shows "uint (word_of_int (push_bit 4 t) :: byte) AND 15 = 0" "drop_bit 4 (uint (word_of_int (push_bit 4 t) :: byte)) = t"
    "uint (word_of_int t :: byte) AND 15 = t" "drop_bit 4 (uint (word_of_int t :: byte)) = 0"
    "0 < n \<Longrightarrow> n < 16 \<Longrightarrow> uint (word_of_int (push_bit 4 t OR n) :: byte) AND 15 = n"
    "0 < n \<Longrightarrow> n < 16 \<Longrightarrow> drop_bit 4 (uint (word_of_int (push_bit 4 t OR n) :: byte)) = t"
  using first_byte assms unfolding list_all_iff by auto

lemma uint_byte: "0 < n \<Longrightarrow> n < 256 \<Longrightarrow> uint (word_of_int n :: byte) = n"
  by (simp add: uint_word_of_int)

lemma fieldID_cases:
  assumes "field_ok (type, name)"
  obtains (common) b where "fieldIDBytes (type, name) = [b]" "drop_bit 4 (uint b) = type" "uint b AND 15 = name"
  | (uncommon_name) b c where "fieldIDBytes (type, name) = [b, c]" "drop_bit 4 (uint b) = type" "uint b AND 15 = 0"
      "uint c = name" "16 \<le> name"
  | (uncommon_type) b c where "fieldIDBytes (type, name) = [b, c]" "drop_bit 4 (uint b) = 0" "uint b AND 15 = name"
      "uint c = type" "16 \<le> type"
  | (uncommon) c d where "fieldIDBytes (type, name) = [0, c, d]" "uint c = type" "uint d = name" "16 \<le> type" "16 \<le> name"
proof -
  have r: "0 < type" "type < 256" "0 < name" "name < 256" using assms by (auto simp: field_ok_def)
  consider "type < 16" "name < 16" | "type < 16" "16 \<le> name" | "16 \<le> type" "name < 16" | "16 \<le> type" "16 \<le> name" by linarith
  then show thesis
  proof cases
    case 1
    then show thesis using r first_byte_cases(5,6)[of type name] common by (simp add: fieldIDBytes_def addFieldID_def)
  next
    case 2
    then show thesis using r first_byte_cases(1,2)[of type] uncommon_name uint_byte by (simp add: fieldIDBytes_def addFieldID_def)
  next
    case 3
    then show thesis using r first_byte_cases(3,4)[of name] uncommon_type uint_byte by (simp add: fieldIDBytes_def addFieldID_def)
  next
    case 4
    then show thesis using r uncommon uint_byte by (simp add: fieldIDBytes_def addFieldID_def)
  qed
qed

interpretation fid: codec field_ok fieldIDBytes "\<lambda>_. ()" "\<lambda>_. getFieldID"
proof
  fix x it rest assume x: "field_ok x" "it_rest it = fieldIDBytes x @ rest"
  obtain type name where tn: "x = (type, name)" by (cases x)
  have pos: "type \<noteq> 0" "name \<noteq> 0" using x(1) tn by (auto simp: field_ok_def)
  from x(1)[unfolded tn] show "getFieldID it = Inr (x, it_advance (length (fieldIDBytes x)) it)"
    by (cases rule: fieldID_cases)
      (use x(2) pos in \<open>auto simp: tn getFieldID_def Let_def get8_def it_simps\<close>)
next
  fix x it assume x: "field_ok x" "strict_prefix (it_rest it) (fieldIDBytes x)"
  obtain type name where tn: "x = (type, name)" by (cases x)
  have pos: "type \<noteq> 0" "name \<noteq> 0" using x(1) tn by (auto simp: field_ok_def)
  from x(1)[unfolded tn] show "\<exists>e. getFieldID it = Inl e"
    by (cases rule: fieldID_cases)
      (use x(2) pos in \<open>auto simp: tn getFieldID_def Let_def get8_def it_simps strict_prefix_def prefix_Cons\<close>)
qed

section \<open>Sequences of values\<close>

datatype ser_item = U8 byte | U16 "16 word" | U32 "32 word" | U64 "64 word" | Bits "byte list" | VL "byte list"
  | FieldID int int

datatype ser_kind = K8 | K16 | K32 | K64 | KBits nat | KVL | KFieldID

fun item_kind :: "ser_item \<Rightarrow> ser_kind" where
  "item_kind (U8 i) = K8"
| "item_kind (U16 i) = K16"
| "item_kind (U32 i) = K32"
| "item_kind (U64 i) = K64"
| "item_kind (Bits v) = KBits (length v)"
| "item_kind (VL v) = KVL"
| "item_kind (FieldID type name) = KFieldID"

fun item_ok :: "ser_item \<Rightarrow> bool" where
  "item_ok (VL v) \<longleftrightarrow> length v \<le> 918744"
| "item_ok (FieldID type name) \<longleftrightarrow> field_ok (type, name)"
| "item_ok _ \<longleftrightarrow> True"

fun put_item :: "ser_item \<Rightarrow> byte list \<Rightarrow> (int \<times> byte list) cpp_result" where
  "put_item (U8 i) s = Inr (add8 i s)"
| "put_item (U16 i) s = Inr (add16 i s)"
| "put_item (U32 i) s = Inr (add32 i s)"
| "put_item (U64 i) s = Inr (add64 i s)"
| "put_item (Bits v) s = Inr (addRaw v s)"
| "put_item (VL v) s = addVL v s"
| "put_item (FieldID type name) s = addFieldID type name s"

definition mapItem :: "('a \<Rightarrow> ser_item) \<Rightarrow> ('a \<times> SerialIter) cpp_result \<Rightarrow> (ser_item \<times> SerialIter) cpp_result" where
  "mapItem f r = andThen r (\<lambda>(x, it). Inr (f x, it))"

fun get_item :: "ser_kind \<Rightarrow> SerialIter \<Rightarrow> (ser_item \<times> SerialIter) cpp_result" where
  "get_item K8 it = mapItem U8 (get8 it)"
| "get_item K16 it = mapItem U16 (get16 it)"
| "get_item K32 it = mapItem U32 (get32 it)"
| "get_item K64 it = mapItem U64 (get64 it)"
| "get_item (KBits n) it = mapItem Bits (getBitString n it)"
| "get_item KVL it = mapItem VL (getVL it)"
| "get_item KFieldID it = mapItem (\<lambda>(type, name). FieldID type name) (getFieldID it)"

fun writeAll :: "ser_item list \<Rightarrow> byte list \<Rightarrow> byte list cpp_result" where
  "writeAll [] s = Inr s"
| "writeAll (x # xs) s = andThen (put_item x s) (\<lambda>(_, s1). writeAll xs s1)"

fun item_bytes :: "ser_item \<Rightarrow> byte list" where
  "item_bytes (U8 i) = snd (add8 i [])"
| "item_bytes (U16 i) = snd (add16 i [])"
| "item_bytes (U32 i) = snd (add32 i [])"
| "item_bytes (U64 i) = snd (add64 i [])"
| "item_bytes (Bits v) = snd (addRaw v [])"
| "item_bytes (VL v) = vlBytes v"
| "item_bytes (FieldID type name) = fieldIDBytes (type, name)"

interpretation item: codec item_ok item_bytes item_kind get_item
proof
  fix x it rest assume x: "item_ok x" "it_rest it = item_bytes x @ rest"
  then show "get_item (item_kind x) it = Inr (x, it_advance (length (item_bytes x)) it)"
    using u8.dec_enc u16.dec_enc u32.dec_enc u64.dec_enc bits.dec_enc vl.dec_enc fid.dec_enc
    by (cases x) (auto simp: mapItem_def)
next
  fix x it assume x: "item_ok x" "strict_prefix (it_rest it) (item_bytes x)"
  have m: "\<exists>e. mapItem f r = Inl e" if "\<exists>e. r = Inl e" for f :: "'z \<Rightarrow> ser_item" and r using that by (auto simp: mapItem_def)
  show "\<exists>e. get_item (item_kind x) it = Inl e"
  proof (cases x)
    case (U8 i)
    with x show ?thesis using u8.dec_short[of it i] by (simp add: m)
  next
    case (U16 i)
    with x show ?thesis using u16.dec_short[of it i] by (simp add: m)
  next
    case (U32 i)
    with x show ?thesis using u32.dec_short[of it i] by (simp add: m)
  next
    case (U64 i)
    with x show ?thesis using u64.dec_short[of it i] by (simp add: m)
  next
    case (Bits v)
    with x show ?thesis using bits.dec_short[of it v] by (simp add: m)
  next
    case (VL v)
    with x show ?thesis using vl.dec_short[of v it] by (simp add: m)
  next
    case (FieldID type name)
    with x show ?thesis using fid.dec_short[of "(type, name)" it] by (simp add: m)
  qed
qed

text \<open>The writers append the bytes of the value, for serializers within the range of \<open>int\<close>.\<close>

lemma addVL_bytes:
  assumes "length v \<le> 918744" "length s < 2 ^ 31"
  shows "addVL v s = Inr (int_of_size (length s), s @ vlBytes v)"
proof -
  have "length (lengthBytes (length v)) \<le> 3" using assms(1) by (cases rule: lengthBytes_cases) auto
  then have "size_of_int (int (length (lengthBytes (length v)))) = length (lengthBytes (length v))"
    by (intro size_of_int_nat) simp
  moreover have "size_of_int (int_of_size (length s)) = length s"
    using assms(2) by (simp add: int_of_size_small size_of_int_nonneg)
  ultimately show ?thesis using assms(1)
    by (simp add: addVL_def size_of_int_nat addEncoded_bytes vlBytes_def addRaw_def)
qed

lemma put_item_bytes:
  assumes "item_ok x" "length s < 2 ^ 31"
  shows "put_item x s = Inr (int_of_size (length s), s @ item_bytes x)"
  using assms by (cases x) (simp_all add: add8_def add16_def add32_def add64_def addRaw_def addVL_bytes addFieldID_bytes)

lemma writeAll_bytes:
  "list_all item_ok xs \<Longrightarrow> length s + length (concat (map item_bytes xs)) < 2 ^ 31 \<Longrightarrow>
     writeAll xs s = Inr (s @ concat (map item_bytes xs))"
  by (induction xs arbitrary: s) (simp_all add: put_item_bytes)

text \<open>
  (C23) Serialised values are read back. For any sequence of integers, bit strings, variable length
  data and field identifiers that fits the serializer, writing it succeeds; reading the bytes with
  the kinds of the values, whatever follows them, returns the sequence and uses exactly its bytes; and
  reading any truncation of the bytes fails.
\<close>

theorem serializer_roundtrip:
  assumes "list_all item_ok xs" "length (concat (map item_bytes xs)) < 2 ^ 31"
  shows "\<exists>s. writeAll xs [] = Inr s
    \<and> (\<forall>rest. readAll get_item (map item_kind xs) (newSerialIter (s @ rest))
         = Inr (xs, \<lparr>it_data = s @ rest, it_used = length s\<rparr>))
    \<and> (\<forall>k < length s. \<exists>e. readAll get_item (map item_kind xs) (newSerialIter (take k s)) = Inl e)"
proof -
  let ?s = "concat (map item_bytes xs)"
  have rest: "it_rest (newSerialIter bs) = bs" for bs by (simp add: it_rest_def newSerialIter_def)
  have "readAll get_item (map item_kind xs) (newSerialIter (?s @ rest)) = Inr (xs, \<lparr>it_data = ?s @ rest, it_used = length ?s\<rparr>)"
    for rest
    using item.readAll_enc[OF assms(1), of "newSerialIter (?s @ rest)" rest] rest
    by (simp add: it_advance_def newSerialIter_def)
  moreover have "\<exists>e. readAll get_item (map item_kind xs) (newSerialIter (take k ?s)) = Inl e" if "k < length ?s" for k
  proof (rule item.readAll_short[OF assms(1)])
    show "strict_prefix (it_rest (newSerialIter (take k ?s))) ?s"
      unfolding rest using that by (metis append_take_drop_id length_take min.absorb4 order.strict_iff_order prefixI strict_prefixI)
  qed
  ultimately show ?thesis using writeAll_bytes[OF assms(1), of "[]"] assms(2) by auto
qed

theorem serializer_roundtrip_witness:
  "\<exists>s. writeAll [FieldID 1 2, U16 513, FieldID 17 40, VL [7, 8, 9]] [] = Inr s
     \<and> readAll get_item [KFieldID, K16, KFieldID, KVL] (newSerialIter (s @ [255]))
         = Inr ([FieldID 1 2, U16 513, FieldID 17 40, VL [7, 8, 9]], \<lparr>it_data = s @ [255], it_used = length s\<rparr>)"
proof -
  let ?xs = "[FieldID 1 2, U16 513, FieldID 17 40, VL [7, 8, 9]]"
  have "list_all item_ok ?xs" by (simp add: field_ok_def)
  moreover have "length (concat (map item_bytes ?xs)) = 10" by code_simp
  then have "length (concat (map item_bytes ?xs)) < 2 ^ 31" by simp
  ultimately show ?thesis using serializer_roundtrip[of ?xs] by force
qed

end
