(* ===== verification/Base58.thy ===== *)
theory Base58
  imports Serializer
begin

text \<open>
  Base58 tokens: \<^verbatim>\<open>src/ripple/protocol/impl/tokens.cpp\<close>. The SHA-256 digest is a parameter. A failed
  assertion is the value \<open>None\<close>, and so is the read outside of the table that a character above 127
  causes where \<open>char\<close> is signed. The empty string is the answer to an invalid input.
\<close>

definition alphabetForward :: string where
  "alphabetForward = ''rpshnaf39wBUDNEGHJKLM4PQRST7VWXYZ2bcdeCg65jkm8oFqi1tuvAxyz''"

definition alphabetReverse :: "int list" where
  "alphabetReverse = fold (\<lambda>(j, c) m. m[of_char c := int j]) (enumerate 0 alphabetForward) (replicate 256 (-1))"

definition reverseAt :: "char \<Rightarrow> int option" where
  "reverseAt c = (if of_char c < (128 :: nat) then Some (alphabetReverse ! of_char c) else None)"

text \<open>
  The inner loop of both directions, over the digits from the least significant one: multiply the
  number by \<open>m\<close> and add the carry, in base \<open>b\<close>.
\<close>

fun digitLoop :: "int \<Rightarrow> int \<Rightarrow> int \<Rightarrow> byte list \<Rightarrow> byte list \<times> int" where
  "digitLoop m b carry [] = ([], carry)"
| "digitLoop m b carry (d # ds) =
     (let c = carry + m * uint d; (ds', c') = digitLoop m b (c div b) ds in (word_of_int (c mod b) # ds', c'))"

definition applyDigit :: "int \<Rightarrow> int \<Rightarrow> int \<Rightarrow> byte list \<Rightarrow> byte list option" where
  "applyDigit m b carry buf =
     (let (ds, c) = digitLoop m b carry (rev buf) in do { assertThat (c = 0); Some (rev ds) })"

definition encodeBase58 :: "byte list \<Rightarrow> nat \<Rightarrow> string option" where
  "encodeBase58 message temp_size = do {
     let zeroes = length (takeWhile (\<lambda>b. b = 0) message);
     b58 \<leftarrow> foldM (\<lambda>b buf. applyDigit 256 58 (uint b) buf) (dropWhile (\<lambda>b. b = 0) message) (replicate temp_size 0);
     Some (replicate zeroes (alphabetForward ! 0)
       @ map (\<lambda>d. alphabetForward ! unat d) (dropWhile (\<lambda>d. d = 0) b58))
   }"

fun skipZeroes :: "string \<Rightarrow> (nat \<times> string) option" where
  "skipZeroes [] = Some (0, [])"
| "skipZeroes (c # cs) = do {
     v \<leftarrow> reverseAt c;
     if v = 0 then do { (z, rest) \<leftarrow> skipZeroes cs; Some (z + 1, rest) } else Some (0, c # cs)
   }"

text \<open>The loop over the characters; the inner \<open>None\<close> is the early return of an empty string.\<close>

fun decodeLoop :: "string \<Rightarrow> byte list \<Rightarrow> byte list option option" where
  "decodeLoop [] b256 = Some (Some b256)"
| "decodeLoop (c # cs) b256 = do {
     carry \<leftarrow> reverseAt c;
     if carry = -1 then Some None
     else do { b \<leftarrow> applyDigit 58 256 carry b256; decodeLoop cs b }
   }"

definition decodeBase58 :: "string \<Rightarrow> byte list option" where
  "decodeBase58 s = do {
     (zeroes, rest) \<leftarrow> skipZeroes s;
     if 64 < length rest then Some []
     else do {
       r \<leftarrow> decodeLoop rest (replicate (length rest * 733 div 1000 + 1) 0);
       Some (case r of None \<Rightarrow> [] | Some b256 \<Rightarrow> replicate zeroes 0 @ dropWhile (\<lambda>b. b = 0) b256)
     }
   }"

definition checksum :: "(byte list \<Rightarrow> byte list) \<Rightarrow> byte list \<Rightarrow> byte list" where
  "checksum sha256 message = take 4 (sha256 (sha256 message))"

datatype TokenType = TT_None | TT_NodePublic | TT_NodePrivate | TT_AccountID | TT_AccountPublic | TT_AccountSecret
  | TT_FamilyGenerator | TT_FamilySeed

fun tokenByte :: "TokenType \<Rightarrow> byte" where
  "tokenByte TT_None = 1"
| "tokenByte TT_NodePublic = 28"
| "tokenByte TT_NodePrivate = 32"
| "tokenByte TT_AccountID = 0"
| "tokenByte TT_AccountPublic = 35"
| "tokenByte TT_AccountSecret = 34"
| "tokenByte TT_FamilyGenerator = 41"
| "tokenByte TT_FamilySeed = 33"

definition encodeBase58Token :: "(byte list \<Rightarrow> byte list) \<Rightarrow> TokenType \<Rightarrow> byte list \<Rightarrow> string option" where
  "encodeBase58Token sha256 type token =
     (let expanded = 1 + length token + 4;
          bufsize = expanded * 3;
          buf = tokenByte type # token
      in encodeBase58 (buf @ checksum sha256 buf) (bufsize - expanded))"

definition decodeBase58Token :: "(byte list \<Rightarrow> byte list) \<Rightarrow> string \<Rightarrow> TokenType \<Rightarrow> byte list option" where
  "decodeBase58Token sha256 s type = do {
     ret \<leftarrow> decodeBase58 s;
     Some (if length ret < 6 then []
       else if tokenByte type \<noteq> ret ! 0 then []
       else if checksum sha256 (take (length ret - 4) ret) \<noteq> drop (length ret - 4) ret then []
       else take (length ret - 5) (drop 1 ret))
   }"

end
