(* ===== verification/Base58_Props.thy ===== *)
theory Base58_Props
  imports Base58
begin

text \<open>
  The round trip of base58 tokens, through the numbers that the digits denote: both loops multiply
  and add, their buffers are large enough, and a number has one representation without leading zeros.
\<close>

section \<open>Numbers in a base\<close>

text \<open>The value of digits, the most significant one first.\<close>

definition digitsValue :: "int \<Rightarrow> byte list \<Rightarrow> int" where
  "digitsValue b ds = foldl (\<lambda>v d. v * b + uint d) 0 ds"

lemma digitsValue_Nil [simp]: "digitsValue b [] = 0"
  by (simp add: digitsValue_def)

lemma digitsValue_snoc [simp]: "digitsValue b (ds @ [d]) = digitsValue b ds * b + uint d"
  by (simp add: digitsValue_def)

lemma digitsValue_Cons: "digitsValue b (d # ds) = uint d * b ^ length ds + digitsValue b ds"
  by (induction ds rule: rev_induct) (simp_all add: algebra_simps flip: append_Cons, simp add: digitsValue_def)

lemma digitsValue_zeros [simp]: "digitsValue b (replicate n 0 @ ds) = digitsValue b ds"
  by (induction n) (simp_all add: digitsValue_Cons)

lemma digitsValue_replicate [simp]: "digitsValue b (replicate n 0) = 0"
  using digitsValue_zeros[of b n "[]"] by simp

lemma dropWhile_zeros: "digitsValue b (dropWhile (\<lambda>d. d = 0) ds) = digitsValue b ds"
  by (induction ds) (simp_all add: digitsValue_Cons)

definition digits_ok :: "int \<Rightarrow> byte list \<Rightarrow> bool" where
  "digits_ok b ds \<longleftrightarrow> (\<forall>d \<in> set ds. uint d < b)"

lemma digitsValue_bounds:
  assumes "digits_ok b ds" "0 < b"
  shows "0 \<le> digitsValue b ds \<and> digitsValue b ds < b ^ length ds"
  using assms(1)
proof (induction ds)
  case (Cons d ds)
  then have IH: "0 \<le> digitsValue b ds" "digitsValue b ds < b ^ length ds" and d: "uint d + 1 \<le> b"
    by (auto simp: digits_ok_def)
  have "(uint d + 1) * b ^ length ds \<le> b * b ^ length ds"
    using d assms(2) by (intro mult_right_mono) auto
  then have "digitsValue b (d # ds) < b ^ length (d # ds)"
    using IH by (simp add: digitsValue_Cons algebra_simps)
  moreover have "0 \<le> uint d * b ^ length ds" using assms(2) by simp
  ultimately show ?case using IH by (simp add: digitsValue_Cons)
qed simp

definition no_lead :: "byte list \<Rightarrow> bool" where
  "no_lead ds \<longleftrightarrow> ds = [] \<or> hd ds \<noteq> 0"

lemma no_lead_dropWhile: "no_lead (dropWhile (\<lambda>d. d = 0) ds)"
  using hd_dropWhile[of "\<lambda>d. d = 0" ds] by (auto simp: no_lead_def)

lemma digitsValue_leading:
  assumes "digits_ok b ds" "0 < b" "ds \<noteq> []" "no_lead ds"
  shows "b ^ (length ds - 1) \<le> digitsValue b ds"
proof -
  obtain d ds' where ds: "ds = d # ds'" using assms(3) by (cases ds) auto
  have "uint d \<noteq> 0" using assms(4) ds by (simp add: no_lead_def uint_0_iff)
  then have "1 \<le> uint d" using uint_ge_0[of d] by linarith
  then have "b ^ length ds' \<le> uint d * b ^ length ds'" using assms(2) by simp
  moreover have "0 \<le> digitsValue b ds'" using digitsValue_bounds[of b ds'] assms(1,2) ds by (auto simp: digits_ok_def)
  ultimately show ?thesis using ds by (simp add: digitsValue_Cons)
qed

lemma digits_unique:
  assumes "digits_ok b xs" "digits_ok b ys" "0 < b" "length xs = length ys" "digitsValue b xs = digitsValue b ys"
  shows "xs = ys"
  using assms(4,1,2,5)
proof (induction xs ys rule: list_induct2)
  case (Cons x xs y ys)
  then have ok: "digits_ok b xs" "digits_ok b ys" by (auto simp: digits_ok_def)
  let ?p = "b ^ length xs"
  have v: "uint x * ?p + digitsValue b xs = uint y * ?p + digitsValue b ys"
    using Cons.prems(3) Cons.hyps by (simp add: digitsValue_Cons)
  have "(uint x * ?p + digitsValue b xs) div ?p = uint x" "(uint y * ?p + digitsValue b ys) div ?p = uint y"
    using digitsValue_bounds[OF ok(1) assms(3)] digitsValue_bounds[OF ok(2) assms(3)] Cons.hyps assms(3)
    by simp_all
  with v have "uint x = uint y" by simp
  with v Cons.IH ok show ?case by (simp add: word_uint_eq_iff)
qed simp

text \<open>A number has one representation without leading zeros.\<close>

lemma strip_unique:
  assumes "digits_ok b xs" "digits_ok b ys" "1 < b" "digitsValue b xs = digitsValue b ys" "no_lead ys"
  shows "dropWhile (\<lambda>d. d = 0) xs = ys"
proof -
  let ?zs = "dropWhile (\<lambda>d. d = 0) xs"
  have *: "length as \<le> length bs"
    if "digits_ok b as" "digits_ok b bs" "digitsValue b as = digitsValue b bs" "no_lead as" for as bs
  proof (cases "as = []")
    case False
    then have "b ^ (length as - 1) \<le> digitsValue b bs"
      using digitsValue_leading[OF that(1) _ False that(4)] that(3) assms(3) by simp
    also have "\<dots> < b ^ length bs" using digitsValue_bounds[OF that(2)] assms(3) by simp
    finally have "b ^ (length as - 1) < b ^ length bs" .
    then have "length as - 1 < length bs" using assms(3) power_strict_increasing_iff by blast
    then show ?thesis by simp
  qed simp
  have z: "digits_ok b ?zs" "digitsValue b ?zs = digitsValue b ys" "no_lead ?zs"
    using assms(1,4) no_lead_dropWhile by (auto simp: digits_ok_def dropWhile_zeros dest: set_dropWhileD)
  have "length ?zs = length ys" using *[OF z(1) assms(2) z(2,3)] *[OF assms(2) z(1) z(2)[symmetric] assms(5)] by simp
  with digits_unique[OF z(1) assms(2) _ _ z(2)] assms(3) show ?thesis by simp
qed

section \<open>The loops\<close>

lemma digitLoop_value:
  assumes "digitLoop m b carry ds = (ds', c)" "0 < b" "b \<le> 256" "0 \<le> carry" "0 \<le> m"
  shows "length ds' = length ds" "digits_ok b ds'" "0 \<le> c"
    "digitsValue b (rev ds') + b ^ length ds * c = carry + m * digitsValue b (rev ds)"
proof -
  have "length ds' = length ds \<and> digits_ok b ds' \<and> 0 \<le> c
    \<and> digitsValue b (rev ds') + b ^ length ds * c = carry + m * digitsValue b (rev ds)"
    using assms(1,4)
  proof (induction ds arbitrary: carry ds' c)
    case (Cons d ds)
    let ?c = "carry + m * uint d"
    obtain es e where e: "digitLoop m b (?c div b) ds = (es, e)" by fastforce
    have c: "0 \<le> ?c" "0 \<le> ?c div b" using Cons.prems(2) assms(2,5) by (simp_all add: pos_imp_zdiv_nonneg_iff)
    have r: "ds' = word_of_int (?c mod b) # es" "c = e" using Cons.prems(1) e by (simp_all add: Let_def)
    have "0 \<le> ?c mod b" "?c mod b < b" using assms(2) by simp_all
    then have d: "uint (word_of_int (?c mod b) :: byte) = ?c mod b" using assms(3) by (simp add: uint_word_of_int)
    note IH = Cons.IH[OF e c(2)]
    have "digitsValue b (rev es) * b + b ^ length ds * e * b = ?c div b * b + m * digitsValue b (rev ds) * b"
      using IH by (simp flip: distrib_right)
    moreover have "?c div b * b + ?c mod b = ?c" by simp
    ultimately have "digitsValue b (rev es) * b + ?c mod b + b ^ length ds * e * b = ?c + m * digitsValue b (rev ds) * b"
      by linarith
    with IH d r \<open>?c mod b < b\<close> show ?case by (simp add: digits_ok_def algebra_simps)
  qed (simp add: digits_ok_def)
  then show "length ds' = length ds" "digits_ok b ds'" "0 \<le> c"
    "digitsValue b (rev ds') + b ^ length ds * c = carry + m * digitsValue b (rev ds)" by auto
qed

lemma applyDigit_value:
  assumes "0 < b" "b \<le> 256" "0 \<le> carry" "0 \<le> m" "carry + m * digitsValue b buf < b ^ length buf"
  shows "\<exists>buf'. applyDigit m b carry buf = Some buf' \<and> length buf' = length buf \<and> digits_ok b buf'
    \<and> digitsValue b buf' = carry + m * digitsValue b buf"
proof -
  obtain ds c where l: "digitLoop m b carry (rev buf) = (ds, c)" by fastforce
  note v = digitLoop_value[OF l assms(1-4)]
  have "0 \<le> digitsValue b (rev ds)" using digitsValue_bounds[of b "rev ds"] v(2) assms(1) by (simp add: digits_ok_def)
  then have "b ^ length buf * c < b ^ length buf" using v(4) assms(5) by simp
  then have "c = 0" using v(3) assms(1) by (simp add: mult_less_cancel_left1)
  with l v show ?thesis by (auto simp: applyDigit_def digits_ok_def)
qed

text \<open>A whole loop reads digits of base \<open>m\<close> and leaves the same number in base \<open>b\<close>.\<close>

lemma convert_value:
  assumes "0 < b" "b \<le> 256" "0 < m" "digits_ok m ds" "m ^ length ds \<le> b ^ n"
  shows "\<exists>buf. foldM (\<lambda>d buf. applyDigit m b (uint d) buf) ds (replicate n 0) = Some buf \<and> length buf = n
    \<and> digits_ok b buf \<and> digitsValue b buf = digitsValue m ds"
proof (rule foldM_total_prefix[where I = "\<lambda>ys buf. length buf = n \<and> digits_ok b buf \<and> digitsValue b buf = digitsValue m ys"])
  fix ys x zs buf assume ds: "ds = ys @ x # zs" and I: "length buf = n \<and> digits_ok b buf \<and> digitsValue b buf = digitsValue m ys"
  have "digits_ok m (ys @ [x])" using assms(4) ds by (auto simp: digits_ok_def)
  then have "digitsValue m (ys @ [x]) < m ^ length (ys @ [x])" using digitsValue_bounds assms(3) by blast
  also have "\<dots> \<le> m ^ length ds" using ds assms(3) by (intro power_increasing) auto
  finally have "uint x + m * digitsValue b buf < b ^ length buf" using assms(5) I by (simp add: algebra_simps)
  then obtain buf' where "applyDigit m b (uint x) buf = Some buf'" "length buf' = length buf" "digits_ok b buf'"
    "digitsValue b buf' = uint x + m * digitsValue b buf"
    using applyDigit_value[OF assms(1,2) uint_ge_0, of m x buf] assms(3) by auto
  moreover have "uint x + m * digitsValue m ys = digitsValue m (ys @ [x])" by simp
  ultimately show "\<exists>buf'. applyDigit m b (uint x) buf = Some buf' \<and> length buf' = n \<and> digits_ok b buf'
      \<and> digitsValue b buf' = digitsValue m (ys @ [x])"
    using I by metis
qed (use assms(1) in \<open>simp add: digits_ok_def\<close>)

section \<open>The alphabet\<close>

lemma alphabet_codes:
  "map of_char alphabetForward = [114,112,115,104,110,97,102,51,57,119,66,85,68,78,69,71,72,74,75,76,77,52,80,81,82,83,84,55,
     86,87,88,89,90,50,98,99,100,101,67,103,54,53,106,107,109,56,111,70,113,105,49,116,117,118,65,120,121,122 :: nat]"
  by (simp add: alphabetForward_def)

lemma alphabet_props:
  "distinct (map of_char alphabetForward :: nat list)" "length alphabetForward = 58"
  "list_all (\<lambda>c. of_char c < (128 :: nat)) alphabetForward"
proof -
  show "length alphabetForward = 58" using arg_cong[OF alphabet_codes, of length] by simp
  have "list_all (\<lambda>n. n < (128 :: nat)) (map of_char alphabetForward)" unfolding alphabet_codes by simp
  then show "list_all (\<lambda>c. of_char c < (128 :: nat)) alphabetForward" by (simp add: list_all_iff)
qed (simp add: alphabet_codes)

text \<open>The table is filled without a clash.\<close>

lemma fill_other:
  "i \<notin> of_char ` set cs \<Longrightarrow> fold (\<lambda>(j, c) m. m[of_char c := int j]) (enumerate k cs) m ! i = m ! i"
  by (induction cs arbitrary: k m) auto

lemma fill_table:
  "distinct (map of_char cs :: nat list) \<Longrightarrow> list_all (\<lambda>c. of_char c < length m) cs \<Longrightarrow> d < length cs \<Longrightarrow>
     fold (\<lambda>(j, c) m. m[of_char c := int j]) (enumerate k cs) m ! of_char (cs ! d) = int (k + d)"
proof (induction cs arbitrary: k m d)
  case (Cons c cs)
  show ?case
  proof (cases d)
    case 0
    have "(of_char c :: nat) \<notin> of_char ` set cs" using Cons.prems(1) by simp
    with Cons.prems(2) 0 show ?thesis by (simp add: fill_other)
  next
    case (Suc d')
    then show ?thesis using Cons.IH[of "m[of_char c := int k]" d' "Suc k"] Cons.prems by simp
  qed
qed simp

lemma alphabet_inverse:
  assumes "d < 58" shows "reverseAt (alphabetForward ! d) = Some (int d)"
proof -
  have l: "list_all (\<lambda>c. of_char c < length (replicate 256 (-1 :: int))) alphabetForward"
    using alphabet_props(3) by (auto simp: list_all_iff)
  have "of_char (alphabetForward ! d) < (128 :: nat)" using alphabet_props(2,3) assms by (auto simp: list_all_length)
  moreover have "alphabetReverse ! of_char (alphabetForward ! d) = int d"
    using fill_table[OF alphabet_props(1) l, of d 0] assms alphabet_props(2) by (simp add: alphabetReverse_def)
  ultimately show ?thesis unfolding reverseAt_def by (simp only: if_True)
qed

lemma digit_char:
  assumes "uint (d :: byte) < 58"
  shows "reverseAt (alphabetForward ! unat d) = Some (uint d)"
proof -
  have "int (unat d) = uint d" by simp
  moreover from this assms have "unat d < 58" by linarith
  ultimately show ?thesis using alphabet_inverse[of "unat d"] by simp
qed

lemma skipZeroes_chars:
  assumes "digits_ok 58 ds" "no_lead ds"
  shows "skipZeroes (replicate z (alphabetForward ! 0) @ map (\<lambda>d. alphabetForward ! unat d) ds)
    = Some (z, map (\<lambda>d. alphabetForward ! unat d) ds)"
proof (induction z)
  case 0
  show ?case
  proof (cases ds)
    case (Cons d ds')
    then have "reverseAt (alphabetForward ! unat d) = Some (uint d)" "uint d \<noteq> 0"
      using assms digit_char by (auto simp: digits_ok_def uint_0_iff no_lead_def)
    with Cons show ?thesis by simp
  qed simp
next
  case (Suc z)
  then show ?case using alphabet_inverse[of 0] by simp
qed

lemma decodeLoop_chars:
  "digits_ok 58 ds \<Longrightarrow> decodeLoop (map (\<lambda>d. alphabetForward ! unat d) ds) buf
     = map_option Some (foldM (\<lambda>d buf. applyDigit 58 256 (uint d) buf) ds buf)"
proof (induction ds arbitrary: buf)
  case (Cons d ds)
  then have "reverseAt (alphabetForward ! unat d) = Some (uint d)" "digits_ok 58 ds"
    using digit_char by (auto simp: digits_ok_def)
  moreover have "uint d \<noteq> -1" using uint_ge_0[of d] by linarith
  ultimately show ?case using Cons.IH by (cases "applyDigit 58 256 (uint d) buf") simp_all
qed simp

section \<open>Round trip\<close>

lemma bytes_ok: "digits_ok 256 bs"
  using uint_lt2p[where 'a = 8] by (simp add: digits_ok_def)

lemma encodeBase58_digits:
  assumes "256 ^ length message \<le> (58 :: int) ^ n"
  obtains ds where "encodeBase58 message n = Some (replicate (length (takeWhile (\<lambda>b. b = 0) message)) (alphabetForward ! 0)
      @ map (\<lambda>d. alphabetForward ! unat d) ds)"
    "digits_ok 58 ds" "no_lead ds" "digitsValue 58 ds = digitsValue 256 message"
proof -
  let ?rest = "dropWhile (\<lambda>b. b = 0) message"
  have "(256 :: int) ^ length ?rest \<le> 256 ^ length message" by (intro power_increasing) (auto simp: length_dropWhile_le)
  then have "(256 :: int) ^ length ?rest \<le> 58 ^ n" using assms by (rule order.trans)
  then obtain buf where buf: "foldM (\<lambda>d buf. applyDigit 256 58 (uint d) buf) ?rest (replicate n 0) = Some buf" "digits_ok 58 buf"
    "digitsValue 58 buf = digitsValue 256 ?rest"
    using convert_value[of 58 256 ?rest n] bytes_ok by auto
  show thesis
  proof (rule that[of "dropWhile (\<lambda>d. d = 0) buf"])
    show "digits_ok 58 (dropWhile (\<lambda>d. d = 0) buf)" using buf(2) by (auto simp: digits_ok_def dest: set_dropWhileD)
    show "no_lead (dropWhile (\<lambda>d. d = 0) buf)" by (rule no_lead_dropWhile)
  qed (use buf in \<open>simp_all add: encodeBase58_def dropWhile_zeros\<close>)
qed

lemma power_ratio:
  fixes a b :: int
  assumes "a ^ k \<le> b ^ l" "0 < k" "1 \<le> a" "1 \<le> b" "l * r \<le> c * k"
  shows "a ^ r \<le> b ^ c"
proof -
  have "(a ^ r) ^ k = (a ^ k) ^ r" by (simp add: mult.commute flip: power_mult)
  also have "\<dots> \<le> (b ^ l) ^ r" using assms(1,3) by (intro power_mono) auto
  also have "\<dots> \<le> b ^ (c * k)" unfolding power_mult[symmetric] using assms(4,5) by (intro power_increasing) auto
  finally have "(a ^ r) ^ k \<le> (b ^ c) ^ k" by (simp add: power_mult)
  then show ?thesis using assms(2,3,4) by (simp add: power_mono_iff)
qed

lemma power_58_15: "(58 :: int) ^ 15 \<le> 256 ^ 11"
  by simp

lemma power_58_256:
  assumes "r \<le> 64"
  shows "(58 :: int) ^ r \<le> 256 ^ (r * 733 div 1000 + 1)"
proof (rule power_ratio[OF power_58_15])
  have "list_all (\<lambda>r. 11 * r \<le> (r * 733 div 1000 + 1) * 15) [0..<65]" by (simp add: upt_rec)
  with assms show "11 * r \<le> (r * 733 div 1000 + 1) * 15" by (simp add: list_all_iff)
qed simp_all

lemma decodeBase58_digits:
  assumes "digits_ok 58 ds" "no_lead ds" "length ds \<le> 64"
    "digitsValue 58 ds = digitsValue 256 rest" "no_lead rest"
  shows "decodeBase58 (replicate z (alphabetForward ! 0) @ map (\<lambda>d. alphabetForward ! unat d) ds) = Some (replicate z 0 @ rest)"
proof -
  let ?n = "length ds * 733 div 1000 + 1"
  obtain buf where buf: "foldM (\<lambda>d buf. applyDigit 58 256 (uint d) buf) ds (replicate ?n 0) = Some buf"
    "digitsValue 256 buf = digitsValue 58 ds"
    using convert_value[of 256 58 ds ?n] assms(1) power_58_256[OF assms(3)] by auto
  have "dropWhile (\<lambda>d. d = 0) buf = rest"
    by (rule strip_unique[OF bytes_ok bytes_ok _ _ assms(5)]) (simp_all add: buf(2) assms(4))
  then show ?thesis
    unfolding decodeBase58_def skipZeroes_chars[OF assms(1,2)] using assms(3) decodeLoop_chars[OF assms(1)] buf(1) by simp
qed

lemma base58_roundtrip:
  assumes "length message \<le> 46" "256 ^ length message \<le> (58 :: int) ^ n"
  shows "\<exists>s. encodeBase58 message n = Some s \<and> decodeBase58 s = Some message"
proof -
  let ?z = "length (takeWhile (\<lambda>b. b = 0) message)" and ?rest = "dropWhile (\<lambda>b. b = 0) message"
  obtain ds where ds: "encodeBase58 message n = Some (replicate ?z (alphabetForward ! 0) @ map (\<lambda>d. alphabetForward ! unat d) ds)"
    "digits_ok 58 ds" "no_lead ds" "digitsValue 58 ds = digitsValue 256 message"
    using encodeBase58_digits[OF assms(2)] .
  have "length ds \<le> 64"
  proof (cases "ds = []")
    case False
    have "(58 :: int) ^ (length ds - 1) \<le> digitsValue 58 ds" using digitsValue_leading[OF ds(2)] False ds(3) by simp
    also have "\<dots> < 256 ^ length message" unfolding ds(4) using digitsValue_bounds[OF bytes_ok] by simp
    also have "\<dots> \<le> 256 ^ 46" using assms(1) by (intro power_increasing) simp_all
    also have "(256 :: int) ^ 46 < 58 ^ 64" by simp
    finally have "(58 :: int) ^ (length ds - 1) < 58 ^ 64" .
    then have "length ds - 1 < 64" by (rule power_less_imp_less_exp[rotated]) simp
    then show ?thesis by simp
  qed simp
  moreover have "digitsValue 58 ds = digitsValue 256 ?rest" using ds(4) by (simp add: dropWhile_zeros)
  moreover have "no_lead ?rest" by (rule no_lead_dropWhile)
  ultimately have "decodeBase58 (replicate ?z (alphabetForward ! 0) @ map (\<lambda>d. alphabetForward ! unat d) ds)
      = Some (replicate ?z 0 @ ?rest)"
    using decodeBase58_digits[OF ds(2,3)] by blast
  moreover have "replicate ?z 0 = takeWhile (\<lambda>b. b = 0) message"
    by (rule replicate_eqI[symmetric]) (auto dest: set_takeWhileD)
  ultimately show ?thesis using ds(1) by simp
qed

lemma tokenByte_inj: "tokenByte t = tokenByte t' \<longleftrightarrow> t = t'"
  by (cases t; cases t') simp_all

text \<open>
  (C24) Tokens are read back. A token of one to 41 bytes is encoded without a failed assertion;
  decoding the result for the same type gives the token back, and decoding it for any other type is
  refused.
\<close>

theorem base58_token_roundtrip:
  assumes "\<And>m. length (sha256 m) = 32" "1 \<le> length token" "length token \<le> 41"
  shows "\<exists>s. encodeBase58Token sha256 type token = Some s \<and> decodeBase58Token sha256 s type = Some token
    \<and> (\<forall>type'. type' \<noteq> type \<longrightarrow> decodeBase58Token sha256 s type' = Some [])"
proof -
  let ?buf = "tokenByte type # token"
  let ?message = "?buf @ checksum sha256 ?buf"
  have check: "length (checksum sha256 ?buf) = 4" using assms(1) by (simp add: checksum_def)
  then have len: "length ?message = 5 + length token" by simp
  have "(256 :: int) ^ 1 \<le> 58 ^ 2" by simp
  then have "(256 :: int) ^ length ?message \<le> 58 ^ (2 * length ?message)"
    by (rule power_ratio) simp_all
  moreover have "length ?message \<le> 46" using len assms(3) by simp
  moreover have "(1 + length token + 4) * 3 - (1 + length token + 4) = 2 * length ?message" using len by simp
  ultimately obtain s where s: "encodeBase58Token sha256 type token = Some s" "decodeBase58 s = Some ?message"
    using base58_roundtrip[of ?message "2 * length ?message"] unfolding encodeBase58Token_def Let_def by metis
  have parts: "take (length ?message - 4) ?message = ?buf" "drop (length ?message - 4) ?message = checksum sha256 ?buf"
    "\<not> length ?message < 6" "take (length ?message - 5) (drop 1 ?message) = token" "?message ! 0 = tokenByte type"
    using len check assms(2) by auto
  have "decodeBase58Token sha256 s type' = Some (if type' = type then token else [])" for type'
    unfolding decodeBase58Token_def s(2) bind.bind_lunit parts tokenByte_inj using check assms(2) by auto
  with s(1) show ?thesis by simp
qed

text \<open>A digest for the sample: 32 bytes that depend on the length of the message.\<close>

definition sampleDigest :: "byte list \<Rightarrow> byte list" where
  "sampleDigest m = replicate 32 (word_of_nat (length m))"

theorem base58_token_roundtrip_witness:
  "\<exists>s. encodeBase58Token sampleDigest TT_AccountID [1, 2, 3] = Some s
     \<and> decodeBase58Token sampleDigest s TT_AccountID = Some [1, 2, 3] \<and> decodeBase58Token sampleDigest s TT_FamilySeed = Some []"
  using base58_token_roundtrip[of sampleDigest "[1, 2, 3]" TT_AccountID] by (force simp: sampleDigest_def)

text \<open>
  (C25) Characters above 127. Where \<open>char\<close> is signed, decoding a string that starts with zero digits
  followed by a character above 127 reads outside of the table of digits.
\<close>

theorem decode_high_character:
  assumes "128 \<le> (of_char c :: nat)"
  shows "decodeBase58Token sha256 (replicate z (CHR ''r'') @ c # cs) type = None"
proof -
  have r: "alphabetForward ! 0 = CHR ''r''" by (simp add: alphabetForward_def)
  have "skipZeroes (replicate z (CHR ''r'') @ c # cs) = None"
  proof (induction z)
    case 0
    then show ?case using assms by (simp add: reverseAt_def)
  next
    case (Suc z)
    then show ?case using alphabet_inverse[of 0] r by simp
  qed
  then show ?thesis by (simp add: decodeBase58Token_def decodeBase58_def)
qed

theorem decode_high_character_witness:
  "decodeBase58Token sampleDigest (CHR ''r'' # CHR 0xE9 # ''abc'') TT_AccountID = None"
  using decode_high_character[of "CHR 0xE9" sampleDigest 1 "''abc''" TT_AccountID] by simp

end
