(* ===== verification/IOU_Amount.thy ===== *)
theory IOU_Amount
  imports Exceptions
begin

text \<open>
  Amounts of issued currencies: \<^verbatim>\<open>src/ripple/basics/IOUAmount.h\<close> and
  \<^verbatim>\<open>src/ripple/basics/impl/IOUAmount.cpp\<close>. Mantissa and exponent are integers, and each operation on the
  64-bit mantissa that could leave its range is checked (\<open>int64\<close>): a value outside is undefined
  behaviour. The 128-bit numbers of \<open>mulRatio\<close> are words of that width.
\<close>

definition int64 :: "int \<Rightarrow> int cpp_result" where
  "int64 i = (if - 9223372036854775808 \<le> i \<and> i \<le> 9223372036854775807 then Inr i else Inl Undefined)"

definition minMantissa :: int where "minMantissa = 1000000000000000"
definition maxMantissa :: int where "maxMantissa = 9999999999999999"
definition minExponent :: int where "minExponent = -96"
definition maxExponent :: int where "maxExponent = 80"

lemmas iou_limits = minMantissa_def maxMantissa_def minExponent_def maxExponent_def

record IOUAmount =
  mantissa :: int
  exponent :: int

definition iou_zero :: IOUAmount where
  "iou_zero = \<lparr>mantissa = 0, exponent = -100\<rparr>"

section \<open>Normalisation\<close>

text \<open>The loop that scales a small mantissa up, and the one that scales a large mantissa down.\<close>

function growMantissa :: "int \<Rightarrow> int \<Rightarrow> (int \<times> int) cpp_result" where
  "growMantissa m e =
     (if m < minMantissa \<and> minExponent < e then andThen (int64 (m * 10)) (\<lambda>m'. growMantissa m' (e - 1))
      else Inr (m, e))"
  by pat_completeness auto
termination
  by (relation "measure (\<lambda>(m, e). nat (e - minExponent))") auto

lemma sdiv_decreases:
  fixes m :: int
  assumes "maxMantissa < m"
  shows "0 < m \<and> m sdiv 10 < m"
proof -
  have "0 < m" using assms by (simp add: maxMantissa_def)
  then have "m div 10 < m" by (simp add: int_div_less_self)
  with \<open>0 < m\<close> show ?thesis by (simp add: sdiv_nonneg)
qed

function shrinkMantissa :: "int \<Rightarrow> int \<Rightarrow> (int \<times> int) cpp_result" where
  "shrinkMantissa m e =
     (if maxMantissa < m then
        if maxExponent \<le> e then Inl (OverflowError ''IOUAmount::normalize'')
        else shrinkMantissa (m sdiv 10) (e + 1)
      else Inr (m, e))"
  by pat_completeness auto
termination
  by (relation "measure (\<lambda>(m, e). nat m)") (simp_all add: sdiv_decreases)

declare growMantissa.simps [simp del] shrinkMantissa.simps [simp del]

definition iou_normalize :: "IOUAmount \<Rightarrow> IOUAmount cpp_result" where
  "iou_normalize a =
     (if mantissa a = 0 then Inr iou_zero
      else let negative = mantissa a < 0
        in andThen (if negative then int64 (- mantissa a) else Inr (mantissa a)) (\<lambda>m.
           andThen (growMantissa m (exponent a)) (\<lambda>(m1, e1).
           andThen (shrinkMantissa m1 e1) (\<lambda>(m2, e2).
             if e2 < minExponent \<or> m2 < minMantissa then Inr iou_zero
             else if maxExponent < e2 then Inl (OverflowError ''value overflow'')
             else andThen (if negative then int64 (- m2) else Inr m2) (\<lambda>m3.
               Inr \<lparr>mantissa = m3, exponent = e2\<rparr>)))))"

definition newIOUAmount :: "int \<Rightarrow> int \<Rightarrow> IOUAmount cpp_result" where
  "newIOUAmount m e = iou_normalize \<lparr>mantissa = m, exponent = e\<rparr>"

section \<open>Arithmetic and comparison\<close>

definition iou_signum :: "IOUAmount \<Rightarrow> int" where
  "iou_signum a = (if mantissa a < 0 then -1 else if mantissa a \<noteq> 0 then 1 else 0)"

text \<open>The comparison with \<open>beast::zero\<close>.\<close>

definition is_zero :: "IOUAmount \<Rightarrow> bool" where
  "is_zero a \<longleftrightarrow> iou_signum a = 0"

function alignTo :: "int \<Rightarrow> int \<Rightarrow> int \<Rightarrow> int \<times> int" where
  "alignTo e' m e = (if e < e' then alignTo e' (m sdiv 10) (e + 1) else (m, e))"
  by pat_completeness auto
termination
  by (relation "measure (\<lambda>(e', m, e). nat (e' - e))") auto

declare alignTo.simps [simp del]

definition iou_add :: "IOUAmount \<Rightarrow> IOUAmount \<Rightarrow> IOUAmount cpp_result" where
  "iou_add a b =
     (if is_zero b then Inr a
      else if is_zero a then Inr b
      else let (m1, e1) = alignTo (exponent b) (mantissa a) (exponent a);
               (m2, e2) = alignTo e1 (mantissa b) (exponent b)
        in andThen (int64 (m1 + m2)) (\<lambda>m.
             if - 10 \<le> m \<and> m \<le> 10 then Inr iou_zero else iou_normalize \<lparr>mantissa = m, exponent = e1\<rparr>))"

definition iou_neg :: "IOUAmount \<Rightarrow> IOUAmount cpp_result" where
  "iou_neg a = andThen (int64 (- mantissa a)) (\<lambda>m. newIOUAmount m (exponent a))"

definition iou_sub :: "IOUAmount \<Rightarrow> IOUAmount \<Rightarrow> IOUAmount cpp_result" where
  "iou_sub a b = andThen (iou_neg b) (iou_add a)"

definition iou_eq :: "IOUAmount \<Rightarrow> IOUAmount \<Rightarrow> bool" where
  "iou_eq a b \<longleftrightarrow> exponent a = exponent b \<and> mantissa a = mantissa b"

definition iou_less :: "IOUAmount \<Rightarrow> IOUAmount \<Rightarrow> bool" where
  "iou_less a b =
     (let lneg = mantissa a < 0; rneg = mantissa b < 0
      in if lneg \<noteq> rneg then lneg
         else if mantissa a = 0 then 0 < mantissa b
         else if mantissa b = 0 then False
         else if exponent b < exponent a then lneg
         else if exponent a < exponent b then \<not> lneg
         else mantissa a < mantissa b)"

definition iou_bool :: "IOUAmount \<Rightarrow> bool" where
  "iou_bool a \<longleftrightarrow> mantissa a \<noteq> 0"

section \<open>Multiplication by a ratio\<close>

definition powerTable :: "128 word list" where
  "powerTable = map (\<lambda>i. 10 ^ i) [0..<30]"

definition powerIndex :: "128 word \<Rightarrow> nat" where
  "powerIndex v = length (takeWhile (\<lambda>p. p < v) powerTable)"

definition log10Floor :: "128 word \<Rightarrow> int cpp_result" where
  "log10Floor v =
     (let l = powerIndex v
      in if l = length powerTable then Inl Undefined
         else Inr (if powerTable ! l \<noteq> v then int l - 1 else int l))"

definition log10Ceil :: "128 word \<Rightarrow> int" where
  "log10Ceil v = int (powerIndex v)"

definition fl64 :: "int cpp_result" where
  "fl64 = log10Floor 9223372036854775807"

text \<open>The part of a remainder that still fits is added, with the product scaled up.\<close>

definition addRemainder :: "int \<Rightarrow> 128 word \<Rightarrow> 128 word \<Rightarrow> 128 word \<Rightarrow> int \<Rightarrow> 128 word \<times> 128 word \<times> int" where
  "addRemainder fl den128 low r e =
     (if r = 0 then (low, r, e)
      else let roomToGrow = fl - log10Ceil low;
               (low1, r1, e1) = (if 0 < roomToGrow
                 then (low * powerTable ! nat roomToGrow, r * powerTable ! nat roomToGrow, e - roomToGrow)
                 else (low, r, e));
               addRem = r1 div den128
        in (low1 + addRem, r1 - addRem * den128, e1))"

text \<open>The product is scaled down until it fits the mantissa; the flag says whether digits were lost.\<close>

definition shrinkProduct :: "int \<Rightarrow> 128 word \<Rightarrow> bool \<Rightarrow> int \<Rightarrow> 128 word \<times> bool \<times> int" where
  "shrinkProduct fl low hasRem e =
     (let mustShrink = log10Ceil low - fl
      in if 0 < mustShrink then
           let low1 = low div powerTable ! nat mustShrink
           in (low1, hasRem \<or> low - low1 * powerTable ! nat mustShrink \<noteq> 0, e + mustShrink)
         else (low, hasRem, e))"

definition roundResult :: "bool \<Rightarrow> bool \<Rightarrow> bool \<Rightarrow> IOUAmount \<Rightarrow> IOUAmount cpp_result" where
  "roundResult hasRem roundUp neg r =
     (if hasRem then
        if roundUp \<and> \<not> neg then
          if \<not> iou_bool r then newIOUAmount minMantissa minExponent
          else andThen (int64 (mantissa r + 1)) (\<lambda>m. newIOUAmount m (exponent r))
        else if \<not> roundUp \<and> neg then
          if \<not> iou_bool r then newIOUAmount (- minMantissa) minExponent
          else andThen (int64 (mantissa r - 1)) (\<lambda>m. newIOUAmount m (exponent r))
        else Inr r
      else Inr r)"

definition mulRatio :: "IOUAmount \<Rightarrow> 32 word \<Rightarrow> 32 word \<Rightarrow> bool \<Rightarrow> IOUAmount cpp_result" where
  "mulRatio amt num den roundUp =
     (if den = 0 then Inl (RuntimeError ''division by zero'')
      else let neg = mantissa amt < 0; den128 = ucast den
        in andThen fl64 (\<lambda>fl.
           andThen (if neg then int64 (- mantissa amt) else Inr (mantissa amt)) (\<lambda>m.
             let mul = word_of_int m * ucast num;
                 low = mul div den128;
                 (low1, r, e1) = addRemainder fl den128 low (mul - low * den128) (exponent amt);
                 (low2, hasRem, e2) = shrinkProduct fl low1 (r \<noteq> 0) e1
             in andThen (int64 (uint low2)) (\<lambda>m2.
                andThen (if neg then int64 (m2 * - 1) else Inr m2) (\<lambda>m3.
                andThen (newIOUAmount m3 e2) (roundResult hasRem roundUp neg))))))"

end
