(* ===== verification/IOU_Amount_Props.thy ===== *)
theory IOU_Amount_Props
  imports IOU_Amount
begin

text \<open>
  Amounts stay canonical: every operation gives zero or an amount with a mantissa of sixteen digits
  and an exponent in its range, or reports an overflow, and no operation on the 64-bit mantissa leaves
  its range. Canonical amounts are ordered by their value, addition is accurate to eleven units of the
  larger exponent, and \<open>mulRatio\<close> takes its rounding mode into account only when the division leaves a
  remainder.
\<close>

definition canonical :: "IOUAmount \<Rightarrow> bool" where
  "canonical a \<longleftrightarrow> a = iou_zero \<or>
     minMantissa \<le> \<bar>mantissa a\<bar> \<and> \<bar>mantissa a\<bar> \<le> maxMantissa \<and> minExponent \<le> exponent a \<and> exponent a \<le> maxExponent"

text \<open>The value of an amount, in units of \<open>10 ^ -100\<close>.\<close>

definition iou_value :: "IOUAmount \<Rightarrow> int" where
  "iou_value a = mantissa a * 10 ^ nat (exponent a + 100)"

fun isOverflow :: "cpp_error \<Rightarrow> bool" where
  "isOverflow (OverflowError msg) = True"
| "isOverflow _ = False"

section \<open>Truncating division\<close>

lemma int_div_le:
  fixes a b :: int
  assumes "0 \<le> a" "0 \<le> b"
  shows "a div b \<le> a"
  using assms zdiv_mono2[of a 1 b] by (cases "b = 0") auto

lemma sdiv_pos:
  fixes a b :: int
  assumes "0 < b"
  shows "a sdiv b = sgn a * (\<bar>a\<bar> div b)"
  using assms by (simp add: signed_divide_int_def)

lemma sdiv_1: "a sdiv 1 = (a :: int)"
  by (simp add: sdiv_pos sgn_mult_abs)

lemma sdiv_error:
  fixes a b :: int
  assumes "0 < b"
  shows "\<bar>a - b * (a sdiv b)\<bar> < b"
proof -
  have "a - b * (a sdiv b) = sgn a * \<bar>a\<bar> - sgn a * (b * (\<bar>a\<bar> div b))"
    using assms by (simp add: sdiv_pos sgn_mult_abs)
  also have "\<dots> = sgn a * (\<bar>a\<bar> mod b)"
    by (simp only: right_diff_distrib[symmetric] minus_mult_div_eq_mod)
  also have "\<bar>\<dots>\<bar> \<le> \<bar>a\<bar> mod b" using assms by (simp add: abs_mult sgn_if)
  also have "\<dots> < b" using assms by simp
  finally show ?thesis .
qed

lemma abs_sdiv:
  fixes a b :: int
  assumes "0 < b"
  shows "\<bar>a sdiv b\<bar> = \<bar>a\<bar> div b"
  using assms by (cases "a = 0") (simp_all add: sdiv_pos abs_mult pos_imp_zdiv_nonneg_iff)

lemma sdiv_sdiv:
  fixes a b c :: int
  assumes "0 < b" "0 < c"
  shows "(a sdiv b) sdiv c = a sdiv (b * c)"
proof -
  have "(a sdiv b) sdiv c = sgn (a sdiv b) * (\<bar>a\<bar> div b div c)"
    using sdiv_pos[OF assms(2), of "a sdiv b"] abs_sdiv[OF assms(1), of a] by simp
  also have "\<dots> = sgn (sgn a * (\<bar>a\<bar> div b)) * (\<bar>a\<bar> div b div c)" using sdiv_pos[OF assms(1)] by simp
  also have "\<dots> = sgn a * (\<bar>a\<bar> div b div c)"
    using assms pos_imp_zdiv_nonneg_iff[of b "\<bar>a\<bar>"] by (cases "\<bar>a\<bar> div b = 0") (simp_all add: sgn_mult)
  also have "\<dots> = a sdiv (b * c)" using assms by (simp add: sdiv_pos zdiv_zmult2_eq)
  finally show ?thesis .
qed

lemma alignTo_eq:
  "alignTo e' m e = (if e < e' then (m sdiv 10 ^ nat (e' - e), e') else (m, e))"
proof (induction e' m e rule: alignTo.induct)
  case (1 e' m e)
  show ?case
  proof (cases "e < e'")
    case True
    then have "nat (e' - e) = Suc (nat (e' - (e + 1)))" by simp
    with True 1 show ?thesis by (subst alignTo.simps) (auto simp: sdiv_sdiv)
  qed (simp add: alignTo.simps)
qed

section \<open>Normalisation\<close>

lemma int64_small: "\<bar>i\<bar> \<le> 9223372036854775807 \<Longrightarrow> int64 i = Inr i"
  unfolding int64_def by simp linarith

lemma growMantissa_result:
  assumes "0 < m"
  obtains k where "growMantissa m e = Inr (m * 10 ^ k, e - int k)"
    "k = 0 \<or> m * 10 ^ k \<le> maxMantissa \<and> minExponent \<le> e - int k"
    "minMantissa \<le> m * 10 ^ k \<or> e - int k \<le> minExponent"
proof -
  have "\<exists>k. growMantissa m e = Inr (m * 10 ^ k, e - int k)
     \<and> (k = 0 \<or> m * 10 ^ k \<le> maxMantissa \<and> minExponent \<le> e - int k)
     \<and> (minMantissa \<le> m * 10 ^ k \<or> e - int k \<le> minExponent)"
    using assms
  proof (induction m e rule: growMantissa.induct)
    case (1 m e)
    show ?case
    proof (cases "m < minMantissa \<and> minExponent < e")
      case True
      then have small: "m * 10 \<le> maxMantissa" "int64 (m * 10) = Inr (m * 10)"
        using 1(2) by (auto simp: iou_limits int64_def)
      from 1(1)[OF True, of "m * 10"] 1(2) obtain k where
        k: "growMantissa (m * 10) (e - 1) = Inr (m * 10 * 10 ^ k, e - 1 - int k)"
        "k = 0 \<or> m * 10 * 10 ^ k \<le> maxMantissa \<and> minExponent \<le> e - 1 - int k"
        "minMantissa \<le> m * 10 * 10 ^ k \<or> e - 1 - int k \<le> minExponent" by auto
      then show ?thesis using True small
        by (intro exI[of _ "Suc k"]) (auto simp: growMantissa.simps[of m e] algebra_simps)
    next
      case False
      then show ?thesis by (intro exI[of _ 0]) (auto simp: growMantissa.simps[of m e])
    qed
  qed
  then show ?thesis using that by blast
qed

definition shrunk :: "int \<Rightarrow> int \<Rightarrow> int \<Rightarrow> int \<Rightarrow> nat \<Rightarrow> bool" where
  "shrunk m e m' e' k \<longleftrightarrow> m' = m div 10 ^ k \<and> e' = e + int k \<and> m' \<le> maxMantissa
     \<and> (k = 0 \<or> minMantissa \<le> m' \<and> e' \<le> maxExponent)"

lemma shrinkMantissa_result:
  assumes "0 < m"
  shows "outcome (\<lambda>(m', e'). \<exists>k. shrunk m e m' e' k) isOverflow (shrinkMantissa m e)"
  using assms
proof (induction m e rule: shrinkMantissa.induct)
  case (1 m e)
  show ?case
  proof (cases "maxMantissa < m \<and> e < maxExponent")
    case True
    then have m: "m sdiv 10 = m div 10" "minMantissa \<le> m div 10" "0 < m div 10"
      by (auto simp: sdiv_nonneg iou_limits)
    have "shrunk m e m' e' (Suc k)" if "shrunk (m div 10) (e + 1) m' e' k" for m' e' k
      using that m True by (auto simp: shrunk_def zdiv_zmult2_eq)
    then have "outcome (\<lambda>(m', e'). \<exists>k. shrunk (m div 10) (e + 1) m' e' k) isOverflow r
      \<Longrightarrow> outcome (\<lambda>(m', e'). \<exists>k. shrunk m e m' e' k) isOverflow r" for r
      by (cases r) auto
    with 1 True m show ?thesis by (simp add: shrinkMantissa.simps[of m e])
  next
    case False
    then show ?thesis by (auto simp: shrinkMantissa.simps[of m e] shrunk_def intro: exI[of _ 0])
  qed
qed

lemma shrunk_small:
  assumes "shrunk m e m' e' k" "0 < m" "m \<le> maxMantissa"
  shows "k = 0"
proof (rule ccontr)
  assume "k \<noteq> 0"
  then have "(10 :: int) ^ 1 \<le> 10 ^ k" by (intro power_increasing) auto
  then have "m div 10 ^ k \<le> m div 10" using assms(2) by (intro zdiv_mono2) auto
  also have "\<dots> < minMantissa" using assms(3) by (simp add: iou_limits)
  finally show False using assms(1) \<open>k \<noteq> 0\<close> by (simp add: shrunk_def)
qed

text \<open>
  The outcomes of a normalisation: the value is too small and becomes zero, it is scaled up without
  loss, or it is scaled down and loses digits.
\<close>

definition normal_form :: "int \<Rightarrow> int \<Rightarrow> IOUAmount \<Rightarrow> bool" where
  "normal_form m e c \<longleftrightarrow> canonical c \<and>
     (c = iou_zero \<and> (minExponent \<le> e \<longrightarrow> \<bar>m\<bar> * 10 ^ nat (e - minExponent) < minMantissa)
      \<or> c \<noteq> iou_zero \<and> (\<exists>k. mantissa c = m * 10 ^ k \<and> exponent c = e - int k)
      \<or> c \<noteq> iou_zero \<and> (\<exists>k. 0 < k \<and> mantissa c = m sdiv 10 ^ k \<and> exponent c = e + int k))"

definition finishNormal :: "bool \<Rightarrow> int \<times> int \<Rightarrow> IOUAmount cpp_result" where
  "finishNormal negative = (\<lambda>(m2, e2). if e2 < minExponent \<or> m2 < minMantissa then Inr iou_zero
     else if maxExponent < e2 then Inl (OverflowError ''value overflow'')
     else andThen (if negative then int64 (- m2) else Inr m2) (\<lambda>m3. Inr \<lparr>mantissa = m3, exponent = e2\<rparr>))"

lemma finishNormal_result:
  assumes shrunk: "shrunk (\<bar>m\<bar> * 10 ^ k) (e - int k) m2 e2 j" and "m \<noteq> 0"
    and grown: "k = 0 \<or> \<bar>m\<bar> * 10 ^ k \<le> maxMantissa \<and> minExponent \<le> e - int k"
    "minMantissa \<le> \<bar>m\<bar> * 10 ^ k \<or> e - int k \<le> minExponent"
  shows "outcome (normal_form m e) isOverflow (finishNormal (m < 0) (m2, e2))"
proof -
  have once: "k = 0 \<or> j = 0" using shrunk_small[OF shrunk] grown(1) \<open>m \<noteq> 0\<close> by auto
  have m2: "m2 = \<bar>m\<bar> * 10 ^ k div 10 ^ j" "e2 = e - int k + int j" "m2 \<le> maxMantissa" "j = 0 \<or> minMantissa \<le> m2"
    using shrunk by (auto simp: shrunk_def)
  show ?thesis
  proof (cases "e2 < minExponent \<or> m2 < minMantissa")
    case True
    have "\<bar>m\<bar> * 10 ^ nat (e - minExponent) < minMantissa" if "minExponent \<le> e"
    proof -
      have "minExponent \<le> e2" using that grown(1) m2(2) by auto
      then have "j = 0" "\<bar>m\<bar> * 10 ^ k < minMantissa" using True m2 by auto
      moreover have "nat (e - minExponent) = k" using calculation grown that by auto
      ultimately show ?thesis by simp
    qed
    with True show ?thesis by (simp add: finishNormal_def normal_form_def canonical_def)
  next
    case False
    define c where "c = \<lparr>mantissa = sgn m * m2, exponent = e2\<rparr>"
    have "finishNormal (m < 0) (m2, e2) = (if maxExponent < e2 then Inl (OverflowError ''value overflow'') else Inr c)"
      using False m2(3) \<open>m \<noteq> 0\<close> by (auto simp: finishNormal_def c_def sgn_if int64_def iou_limits)
    moreover have "canonical c" if "\<not> maxExponent < e2"
      using that False m2(3) \<open>m \<noteq> 0\<close> by (simp add: canonical_def c_def abs_mult sgn_if minMantissa_def)
    moreover have "c \<noteq> iou_zero" using False \<open>m \<noteq> 0\<close> by (auto simp: c_def iou_zero_def iou_limits)
    moreover have "j = 0 \<Longrightarrow> mantissa c = m * 10 ^ k \<and> exponent c = e - int k"
      by (simp add: c_def m2 mult_sgn_abs)
    moreover have "j \<noteq> 0 \<Longrightarrow> mantissa c = m sdiv 10 ^ j \<and> exponent c = e + int j"
      using once by (simp add: c_def m2 sdiv_pos)
    ultimately show ?thesis by (auto simp: normal_form_def)
  qed
qed

lemma normalize_result:
  assumes "\<bar>m\<bar> \<le> 9223372036854775807"
  shows "outcome (normal_form m e) isOverflow (iou_normalize \<lparr>mantissa = m, exponent = e\<rparr>)"
proof (cases "m = 0")
  case True
  then show ?thesis by (simp add: iou_normalize_def normal_form_def canonical_def iou_limits)
next
  case False
  then have pos: "0 < \<bar>m\<bar>" by simp
  have first: "(if m < 0 then int64 (- m) else Inr m) = Inr \<bar>m\<bar>" using assms by (simp add: int64_small)
  from growMantissa_result[OF pos, of e] obtain k where
    grow: "growMantissa \<bar>m\<bar> e = Inr (\<bar>m\<bar> * 10 ^ k, e - int k)"
    "k = 0 \<or> \<bar>m\<bar> * 10 ^ k \<le> maxMantissa \<and> minExponent \<le> e - int k"
    "minMantissa \<le> \<bar>m\<bar> * 10 ^ k \<or> e - int k \<le> minExponent" .
  have "iou_normalize \<lparr>mantissa = m, exponent = e\<rparr> = andThen (shrinkMantissa (\<bar>m\<bar> * 10 ^ k) (e - int k)) (finishNormal (m < 0))"
    unfolding iou_normalize_def Let_def IOUAmount.select_convs first grow(1) andThen.simps prod.case finishNormal_def
    using False by simp
  moreover have "outcome (\<lambda>(m2, e2). \<exists>j. shrunk (\<bar>m\<bar> * 10 ^ k) (e - int k) m2 e2 j) isOverflow
      (shrinkMantissa (\<bar>m\<bar> * 10 ^ k) (e - int k))"
    using pos by (intro shrinkMantissa_result) simp
  ultimately show ?thesis using finishNormal_result[OF _ False grow(2,3)] by (auto intro: outcome_andThen)
qed

section \<open>The operations keep amounts canonical\<close>

lemma newIOUAmount_canonical:
  assumes "\<bar>m\<bar> \<le> 9223372036854775807"
  shows "outcome canonical isOverflow (newIOUAmount m e)"
  using normalize_result[OF assms, of e] unfolding newIOUAmount_def
  by (cases "iou_normalize \<lparr>mantissa = m, exponent = e\<rparr>") (auto simp: normal_form_def)

lemma canonical_mantissa: "canonical a \<Longrightarrow> \<bar>mantissa a\<bar> \<le> maxMantissa"
  by (auto simp: canonical_def iou_zero_def iou_limits)

lemma is_zero_canonical: "canonical a \<Longrightarrow> is_zero a \<longleftrightarrow> a = iou_zero"
  by (auto simp: canonical_def is_zero_def iou_signum_def iou_zero_def iou_limits)

lemma normalize_canonical_id:
  assumes "canonical a"
  shows "iou_normalize a = Inr a"
proof (cases "a = iou_zero")
  case True
  then show ?thesis by (simp add: iou_normalize_def iou_zero_def)
next
  case False
  with assms have c: "minMantissa \<le> \<bar>mantissa a\<bar>" "\<bar>mantissa a\<bar> \<le> maxMantissa" "minExponent \<le> exponent a" "exponent a \<le> maxExponent"
    by (auto simp: canonical_def)
  then have "growMantissa \<bar>mantissa a\<bar> (exponent a) = Inr (\<bar>mantissa a\<bar>, exponent a)"
    "shrinkMantissa \<bar>mantissa a\<bar> (exponent a) = Inr (\<bar>mantissa a\<bar>, exponent a)"
    by (simp_all add: growMantissa.simps shrinkMantissa.simps)
  moreover have "(if mantissa a < 0 then int64 (- mantissa a) else Inr (mantissa a)) = Inr \<bar>mantissa a\<bar>"
    "(if mantissa a < 0 then int64 (- \<bar>mantissa a\<bar>) else Inr \<bar>mantissa a\<bar>) = Inr (mantissa a)"
    using c(2) by (auto simp: int64_def maxMantissa_def)
  moreover have "mantissa a \<noteq> 0" using c(1) by (auto simp: minMantissa_def)
  ultimately show ?thesis using c by (simp add: iou_normalize_def Let_def)
qed

lemma iou_neg_canonical:
  assumes "canonical a"
  shows "iou_neg a = Inr (a\<lparr>mantissa := - mantissa a\<rparr>) \<and> canonical (a\<lparr>mantissa := - mantissa a\<rparr>)"
proof -
  have c: "canonical (a\<lparr>mantissa := - mantissa a\<rparr>)" using assms by (auto simp: canonical_def iou_zero_def)
  have "int64 (- mantissa a) = Inr (- mantissa a)"
    using canonical_mantissa[OF assms] by (simp add: int64_small maxMantissa_def)
  moreover have "\<lparr>mantissa = - mantissa a, exponent = exponent a\<rparr> = a\<lparr>mantissa := - mantissa a\<rparr>" by simp
  ultimately show ?thesis
    using normalize_canonical_id[OF c] c unfolding iou_neg_def newIOUAmount_def by (simp only: andThen.simps)
qed

lemma aligned_sum:
  assumes "canonical a" "canonical b"
  shows "\<bar>fst (alignTo e (mantissa a) e1) + fst (alignTo e' (mantissa b) e2)\<bar> \<le> 2 * maxMantissa"
proof -
  have le: "\<bar>fst (alignTo e m e1)\<bar> \<le> \<bar>m\<bar>" for e m e1
    by (simp add: alignTo_eq abs_sdiv int_div_le)
  show ?thesis using le[of e "mantissa a" e1] le[of e' "mantissa b" e2] canonical_mantissa[OF assms(1)]
      canonical_mantissa[OF assms(2)] by linarith
qed

lemma iou_add_cases:
  assumes "canonical a" "canonical b" "a \<noteq> iou_zero" "b \<noteq> iou_zero"
  defines "E \<equiv> max (exponent a) (exponent b)"
  defines "s \<equiv> mantissa a sdiv 10 ^ nat (E - exponent a) + mantissa b sdiv 10 ^ nat (E - exponent b)"
  shows "\<bar>s\<bar> \<le> 2 * maxMantissa"
    "iou_add a b = (if \<bar>s\<bar> \<le> 10 then Inr iou_zero else iou_normalize \<lparr>mantissa = s, exponent = E\<rparr>)"
proof -
  have align: "alignTo (exponent b) (mantissa a) (exponent a) = (mantissa a sdiv 10 ^ nat (E - exponent a), E)"
    "alignTo E (mantissa b) (exponent b) = (mantissa b sdiv 10 ^ nat (E - exponent b), E)"
    by (auto simp: alignTo_eq E_def max_def sdiv_1)
  then show le: "\<bar>s\<bar> \<le> 2 * maxMantissa"
    using aligned_sum[OF assms(1,2), of "exponent b" "exponent a" E "exponent b"] by (simp add: s_def)
  then have "int64 s = Inr s" by (intro int64_small) (simp add: maxMantissa_def)
  then show "iou_add a b = (if \<bar>s\<bar> \<le> 10 then Inr iou_zero else iou_normalize \<lparr>mantissa = s, exponent = E\<rparr>)"
    using assms(3,4) by (auto simp: iou_add_def is_zero_canonical[OF assms(1)] is_zero_canonical[OF assms(2)] align s_def[symmetric] abs_le_iff)
qed

lemma iou_add_canonical:
  assumes "canonical a" "canonical b"
  shows "outcome canonical isOverflow (iou_add a b)"
proof (cases "a = iou_zero \<or> b = iou_zero")
  case True
  then show ?thesis using assms by (auto simp: iou_add_def is_zero_canonical)
next
  case False
  then show ?thesis using iou_add_cases[OF assms] newIOUAmount_canonical
    by (auto simp: maxMantissa_def newIOUAmount_def canonical_def)
qed

section \<open>Order\<close>

text \<open>A larger exponent outweighs every mantissa.\<close>

lemma exponent_dominates:
  assumes "m1 \<le> maxMantissa" "minMantissa \<le> m2" "minExponent \<le> e1" "e1 < e2"
  shows "m1 * 10 ^ nat (e1 + 100) < m2 * 10 ^ nat (e2 + 100)"
proof -
  have "m1 < m2 * 10" using assms(1,2) by (simp add: iou_limits)
  then have "m1 * 10 ^ nat (e1 + 100) < m2 * 10 * 10 ^ nat (e1 + 100)" by simp
  also have "\<dots> = m2 * 10 ^ Suc (nat (e1 + 100))" by simp
  also have "\<dots> \<le> m2 * 10 ^ nat (e2 + 100)"
    using assms by (intro mult_left_mono power_increasing) (auto simp: iou_limits)
  finally show ?thesis .
qed

lemma pos_less:
  assumes "minMantissa \<le> m1" "m1 \<le> maxMantissa" "minMantissa \<le> m2" "m2 \<le> maxMantissa"
    "minExponent \<le> e1" "minExponent \<le> e2"
  shows "m1 * 10 ^ nat (e1 + 100) < m2 * 10 ^ nat (e2 + 100) \<longleftrightarrow> e1 < e2 \<or> e1 = e2 \<and> m1 < m2"
  using exponent_dominates[of m1 m2 e1 e2] exponent_dominates[of m2 m1 e2 e1] assms
  by (cases e1 e2 rule: linorder_cases) auto

lemma iou_value_zero [simp]: "iou_value iou_zero = 0"
  by (simp add: iou_value_def iou_zero_def)

lemma iou_value_sign: "iou_value a < 0 \<longleftrightarrow> mantissa a < 0" "0 < iou_value a \<longleftrightarrow> 0 < mantissa a"
  by (simp_all add: iou_value_def mult_less_0_iff zero_less_mult_iff)

lemma iou_less_value:
  assumes "canonical a" "canonical b"
  shows "iou_less a b \<longleftrightarrow> iou_value a < iou_value b"
proof (cases "mantissa a = 0 \<or> mantissa b = 0 \<or> (mantissa a < 0) \<noteq> (mantissa b < 0)")
  case True
  then show ?thesis using iou_value_sign[of a] iou_value_sign[of b]
    by (auto simp: iou_less_def Let_def)
next
  case False
  then have ab: "a \<noteq> iou_zero" "b \<noteq> iou_zero" by (auto simp: iou_zero_def)
  with assms have limits: "minMantissa \<le> \<bar>mantissa a\<bar>" "\<bar>mantissa a\<bar> \<le> maxMantissa" "minExponent \<le> exponent a"
    "minMantissa \<le> \<bar>mantissa b\<bar>" "\<bar>mantissa b\<bar> \<le> maxMantissa" "minExponent \<le> exponent b"
    by (auto simp: canonical_def)
  show ?thesis
  proof (cases "mantissa a < 0")
    case True
    then have "iou_value a < iou_value b \<longleftrightarrow> (- mantissa b) * 10 ^ nat (exponent b + 100) < (- mantissa a) * 10 ^ nat (exponent a + 100)"
      by (simp add: iou_value_def)
    also have "\<dots> \<longleftrightarrow> exponent b < exponent a \<or> exponent b = exponent a \<and> - mantissa b < - mantissa a"
      using limits True False by (intro pos_less) auto
    finally show ?thesis using True False by (auto simp: iou_less_def Let_def)
  next
    case pos: False
    then show ?thesis using limits False pos_less[of "mantissa a" "mantissa b" "exponent a" "exponent b"]
      by (auto simp: iou_less_def Let_def iou_value_def)
  qed
qed

lemma iou_less_linear: "iou_less a b \<or> iou_less b a \<or> mantissa a = mantissa b \<and> (mantissa a = 0 \<or> exponent a = exponent b)"
  by (auto simp: iou_less_def Let_def)

section \<open>Accuracy of the addition\<close>

lemma scaled_sdiv_error:
  fixes m :: int
  assumes "minExponent \<le> e" "e \<le> E"
  shows "\<bar>(m sdiv 10 ^ nat (E - e)) * 10 ^ nat (E + 100) - m * 10 ^ nat (e + 100)\<bar> < 10 ^ nat (E + 100)"
proof -
  define k n where "k = nat (E - e)" and "n = nat (e + 100)"
  have "nat (E + 100) = k + n" using assms by (simp add: k_def n_def minExponent_def)
  then have E: "(10 :: int) ^ nat (E + 100) = 10 ^ k * 10 ^ n" by (simp add: power_add)
  have "(m sdiv 10 ^ k) * (10 ^ k * 10 ^ n) - m * 10 ^ n = - (m - 10 ^ k * (m sdiv 10 ^ k)) * 10 ^ n"
    by (simp add: algebra_simps)
  then have "\<bar>(m sdiv 10 ^ k) * (10 ^ k * 10 ^ n) - m * 10 ^ n\<bar> = \<bar>m - 10 ^ k * (m sdiv 10 ^ k)\<bar> * 10 ^ n"
    by (simp add: abs_mult)
  then show ?thesis using sdiv_error[of "10 ^ k" m] unfolding E k_def[symmetric] n_def[symmetric] by simp
qed

lemma normal_form_error:
  assumes "normal_form s E c" "\<bar>s\<bar> \<le> 2 * maxMantissa" "minExponent \<le> E"
  shows "\<bar>iou_value c - s * 10 ^ nat (E + 100)\<bar> < 10 * 10 ^ nat (E + 100) \<or> c = iou_zero \<and> \<bar>s\<bar> * 10 ^ nat (E + 100) < 10 ^ 19"
proof -
  from assms(1) consider (zero) "c = iou_zero" "\<bar>s\<bar> * 10 ^ nat (E - minExponent) < minMantissa"
    | (up) k where "c \<noteq> iou_zero" "mantissa c = s * 10 ^ k" "exponent c = E - int k"
    | (down) k where "c \<noteq> iou_zero" "mantissa c = s sdiv 10 ^ k" "exponent c = E + int k"
    using assms(3) by (auto simp: normal_form_def)
  then show ?thesis
  proof cases
    case zero
    have "nat (E + 100) = nat (E - minExponent) + 4" using assms(3) by (simp add: minExponent_def)
    then show ?thesis using zero by (simp add: power_add minMantissa_def)
  next
    case (up k)
    then have "minExponent \<le> E - int k" using assms(1) by (auto simp: normal_form_def canonical_def)
    then have "nat (E + 100) = k + nat (E - int k + 100)" by (simp add: minExponent_def)
    then have "iou_value c = s * 10 ^ nat (E + 100)" using up by (simp add: iou_value_def power_add)
    then show ?thesis by simp
  next
    case (down k)
    then have "minMantissa \<le> \<bar>s\<bar> div 10 ^ k" using assms(1) by (auto simp: normal_form_def canonical_def abs_sdiv)
    then have "10 ^ 15 * 10 ^ k \<le> \<bar>s\<bar>" by (simp add: int_le_div_iff minMantissa_def)
    then have "(10 :: int) ^ k < 10 ^ 2" using assms(2) by (simp add: maxMantissa_def)
    then have "k < 2" by (rule power_less_imp_less_exp[rotated]) simp
    then have "(10 :: int) ^ nat (E + int k + 100) \<le> 10 ^ Suc (nat (E + 100))"
      using assms(3) by (intro power_increasing) (auto simp: minExponent_def)
    then show ?thesis using scaled_sdiv_error[OF assms(3), of "E + int k" s] down by (simp add: iou_value_def)
  qed
qed

lemma aligned_value:
  assumes "canonical a" "canonical b" "a \<noteq> iou_zero" "b \<noteq> iou_zero"
  defines "E \<equiv> max (exponent a) (exponent b)"
  shows "\<bar>(mantissa a sdiv 10 ^ nat (E - exponent a) + mantissa b sdiv 10 ^ nat (E - exponent b)) * 10 ^ nat (E + 100)
     - (iou_value a + iou_value b)\<bar> < 10 ^ nat (E + 100)"
proof -
  have "minExponent \<le> exponent a" "minExponent \<le> exponent b" using assms by (auto simp: canonical_def)
  then show ?thesis
    using scaled_sdiv_error[of "exponent a" E "mantissa a"] scaled_sdiv_error[of "exponent b" E "mantissa b"]
    by (cases "exponent a \<le> exponent b") (auto simp: E_def max_def iou_value_def sdiv_1 distrib_right)
qed

lemma iou_add_error:
  assumes "canonical a" "canonical b" "iou_add a b = Inr c"
  defines "N \<equiv> 10 ^ nat (max (exponent a) (exponent b) + 100)"
  shows "\<bar>iou_value c - (iou_value a + iou_value b)\<bar> < 11 * N
    \<or> c = iou_zero \<and> \<bar>iou_value a + iou_value b\<bar> < 10 ^ 19 + N"
proof (cases "a = iou_zero \<or> b = iou_zero")
  case True
  then show ?thesis using assms(1-3) by (auto simp: iou_add_def is_zero_canonical N_def split: if_splits)
next
  case False
  define E where "E = max (exponent a) (exponent b)"
  define s where "s = mantissa a sdiv 10 ^ nat (E - exponent a) + mantissa b sdiv 10 ^ nat (E - exponent b)"
  have "minExponent \<le> E" using False assms(1,2) by (auto simp: canonical_def E_def)
  have add: "\<bar>s\<bar> \<le> 2 * maxMantissa" "iou_add a b = (if \<bar>s\<bar> \<le> 10 then Inr iou_zero else iou_normalize \<lparr>mantissa = s, exponent = E\<rparr>)"
    using iou_add_cases[OF assms(1,2)] False by (simp_all add: E_def s_def)
  have near: "\<bar>s * N - (iou_value a + iou_value b)\<bar> < N"
    using aligned_value[OF assms(1,2)] False by (simp add: E_def s_def N_def)
  show ?thesis
  proof (cases "\<bar>s\<bar> \<le> 10")
    case True
    then have "\<bar>s * N\<bar> \<le> 10 * N" by (simp add: abs_mult N_def mult_right_mono)
    then show ?thesis using near True add(2) assms(3) by auto
  next
    case False
    then have "normal_form s E c"
      using outcome_Inr[OF normalize_result] add assms(3) by (simp add: maxMantissa_def)
    from normal_form_error[OF this add(1) \<open>minExponent \<le> E\<close>]
    have "\<bar>iou_value c - s * N\<bar> < 10 * N \<or> c = iou_zero \<and> \<bar>s * N\<bar> < 10 ^ 19"
      unfolding E_def N_def[symmetric] by (simp add: abs_mult N_def)
    then show ?thesis
    proof
      assume "\<bar>iou_value c - s * N\<bar> < 10 * N"
      then have "\<bar>iou_value c - (iou_value a + iou_value b)\<bar> < 11 * N" using near by linarith
      then show ?thesis ..
    next
      assume "c = iou_zero \<and> \<bar>s * N\<bar> < 10 ^ 19"
      then have "c = iou_zero \<and> \<bar>iou_value a + iou_value b\<bar> < 10 ^ 19 + N" using near by linarith
      then show ?thesis ..
    qed
  qed
qed

section \<open>Multiplication by a ratio\<close>

lemma uint_power10:
  assumes "i < 30"
  shows "uint (10 ^ i :: 128 word) = 10 ^ i"
proof -
  have "(10 :: int) ^ i \<le> 10 ^ 29" using assms by (intro power_increasing) auto
  then have "(10 :: int) ^ i < 2 ^ 128" by simp
  then have "uint (word_of_int (10 ^ i) :: 128 word) = 10 ^ i"
    by (subst uint_word_of_int) (simp add: take_bit_int_eq_self)
  then show ?thesis by simp
qed

lemma powerTable_nth: "i < 30 \<Longrightarrow> powerTable ! i = 10 ^ i" and length_powerTable: "length powerTable = 30"
  by (simp_all add: powerTable_def)

lemma log10Ceil_le:
  assumes "uint v \<le> 10 ^ i" "i < 30"
  shows "log10Ceil v \<le> int i"
proof (rule ccontr)
  assume "\<not> log10Ceil v \<le> int i"
  then have "i < length (takeWhile (\<lambda>p. p < v) powerTable)" by (simp add: log10Ceil_def powerIndex_def)
  then have "powerTable ! i < v" by (metis nth_mem set_takeWhileD takeWhile_nth)
  then show False using assms uint_power10[of i] by (simp add: powerTable_nth word_less_def)
qed

lemma log10Ceil_range:
  assumes "uint v \<le> 10 ^ 29"
  obtains i where "log10Ceil v = int i" "i < 30" "uint v \<le> 10 ^ i"
proof -
  let ?i = "powerIndex v"
  have i: "?i < 30" using log10Ceil_le[OF assms] by (simp add: log10Ceil_def)
  then have "\<not> powerTable ! ?i < v" unfolding powerIndex_def
    using nth_length_takeWhile[of "\<lambda>p. p < v" powerTable] length_powerTable by simp
  then have "uint v \<le> 10 ^ ?i" using i by (simp add: powerTable_nth uint_power10 word_less_def)
  with i show ?thesis using that[of ?i] by (simp add: log10Ceil_def)
qed

lemma fl64_eq: "fl64 = Inr 18"
  by code_simp

text \<open>Neither the product nor the scaled remainder wraps, and the result fits the mantissa.\<close>

lemma product_parts:
  fixes num den :: "32 word"
  assumes "0 \<le> m" "m \<le> maxMantissa"
  defines "mul \<equiv> word_of_int m * ucast num :: 128 word"
  shows "uint (mul div ucast den) = m * uint num div uint den"
    "uint (mul - mul div ucast den * ucast den) = m * uint num mod uint den"
    "m * uint num < 10 ^ 26"
proof -
  have num: "0 \<le> uint num" "uint num \<le> 2 ^ 32" using uint_lt2p[of num] by simp_all
  then have "m * uint num \<le> maxMantissa * 2 ^ 32" using assms by (intro mult_mono) (auto simp: maxMantissa_def)
  then show small: "m * uint num < 10 ^ 26" by (simp add: maxMantissa_def)
  have "mul = word_of_int (m * uint num)" by (simp add: mul_def)
  moreover have "0 \<le> m * uint num" using assms(1) num by simp
  ultimately have "uint mul = m * uint num" using small
    by (simp only: uint_word_of_int take_bit_int_eq_self len_num0 len_num1) simp
  moreover have "uint (ucast den :: 128 word) = uint den" by (simp add: uint_up_ucast is_up)
  moreover have "mul - mul div ucast den * ucast den = mul mod ucast den" by (rule minus_div_mult_eq_mod)
  ultimately show "uint (mul div ucast den) = m * uint num div uint den"
    "uint (mul - mul div ucast den * ucast den) = m * uint num mod uint den"
    by (simp_all add: uint_div uint_mod)
qed

lemma uint_mult_le:
  fixes x y :: "'a::len word"
  shows "uint (x * y) \<le> uint x * uint y"
  by (simp add: uint_word_ariths zmod_le_nonneg_dividend)

lemma addRemainder_bound:
  assumes "uint low < 10 ^ 26" "uint r < 2 ^ 32"
  shows "uint (fst (addRemainder 18 d low r e)) \<le> 10 ^ 29"
proof -
  have quotient: "uint (x div d) \<le> uint x" for x :: "128 word" by (simp add: uint_div int_div_le)
  obtain i where i: "log10Ceil low = int i" "i < 30" "uint low \<le> 10 ^ i"
    using log10Ceil_range[of low] assms(1) by auto
  show ?thesis
  proof (cases "r \<noteq> 0 \<and> i < 18")
    case True
    define p :: "128 word" where "p = 10 ^ (18 - i)"
    have "(10 :: int) ^ (18 - i) \<le> 10 ^ 18" by (rule power_increasing) auto
    then have p: "uint p = 10 ^ (18 - i)" "uint p \<le> 10 ^ 18" by (simp_all add: p_def uint_power10)
    have "uint (low * p) \<le> uint low * uint p" by (rule uint_mult_le)
    also have "\<dots> \<le> 10 ^ i * 10 ^ (18 - i)" using i(3) p by (simp add: mult_right_mono)
    also have "\<dots> = 10 ^ 18" using True by (simp add: power_add[symmetric])
    finally have "uint (low * p) \<le> 10 ^ 18" .
    moreover have "uint (r * p) \<le> 2 ^ 32 * 10 ^ 18"
      using uint_mult_le[of r p] mult_mono[of "uint r" "2 ^ 32" "uint p" "10 ^ 18"] assms(2) p(2) by simp
    moreover have "fst (addRemainder 18 d low r e) = low * p + r * p div d"
      using True i(1) by (simp add: addRemainder_def Let_def p_def powerTable_nth nat_diff_distrib)
    ultimately show ?thesis using uint_add_le[of "low * p" "r * p div d"] quotient[of "r * p"] by simp
  next
    case False
    then have "fst (addRemainder 18 d low r e) = low \<or> fst (addRemainder 18 d low r e) = low + r div d"
      using i(1) by (auto simp: addRemainder_def Let_def)
    then show ?thesis using uint_add_le[of low "r div d"] quotient[of r] assms by auto
  qed
qed

lemma shrinkProduct_bound:
  assumes "uint low \<le> 10 ^ 29"
  shows "uint (fst (shrinkProduct 18 low h e)) \<le> 10 ^ 18"
proof -
  obtain i where i: "log10Ceil low = int i" "i < 30" "uint low \<le> 10 ^ i" using log10Ceil_range[OF assms] .
  show ?thesis
  proof (cases "18 < i")
    case True
    then have "(10 :: int) ^ i = 10 ^ 18 * 10 ^ (i - 18)" by (simp only: power_add[symmetric] le_add_diff_inverse less_imp_le)
    then have "uint low \<le> 10 ^ 18 * 10 ^ (i - 18)" using i(3) by simp
    then have "uint low div 10 ^ (i - 18) \<le> 10 ^ 18 * 10 ^ (i - 18) div 10 ^ (i - 18)" by (rule zdiv_mono1) simp
    then have "uint low div 10 ^ (i - 18) \<le> 10 ^ 18" by simp
    then show ?thesis using True i
      by (simp add: shrinkProduct_def Let_def powerTable_nth uint_div uint_power10 nat_diff_distrib)
  next
    case False
    then have "(10 :: int) ^ i \<le> 10 ^ 18" by (intro power_increasing) auto
    then show ?thesis using False i by (simp add: shrinkProduct_def Let_def)
  qed
qed

lemma roundResult_canonical:
  assumes "canonical r"
  shows "outcome canonical isOverflow (roundResult hasRem roundUp neg r)"
proof -
  have "\<bar>mantissa r\<bar> \<le> maxMantissa" using canonical_mantissa[OF assms] .
  then have "outcome canonical isOverflow (andThen (int64 (mantissa r + d)) (\<lambda>m. newIOUAmount m (exponent r)))" if "\<bar>d\<bar> = 1" for d
    using that newIOUAmount_canonical[of "mantissa r + d"] by (simp add: int64_small maxMantissa_def)
  from this[of 1] this[of "- 1"] show ?thesis
    using assms newIOUAmount_canonical[of minMantissa minExponent] newIOUAmount_canonical[of "- minMantissa" minExponent]
    by (simp add: roundResult_def minMantissa_def)
qed

lemma mulRatio_steps:
  fixes num den :: "32 word"
  assumes "canonical a" "den \<noteq> 0"
  defines "neg \<equiv> mantissa a < 0" and "mul \<equiv> word_of_int \<bar>mantissa a\<bar> * ucast num :: 128 word"
  shows "mulRatio a num den roundUp =
    (let (low1, r, e1) = addRemainder 18 (ucast den) (mul div ucast den) (mul - mul div ucast den * ucast den) (exponent a);
         (low2, hasRem, e2) = shrinkProduct 18 low1 (r \<noteq> 0) e1
     in andThen (int64 (uint low2)) (\<lambda>m2. andThen (if neg then int64 (m2 * - 1) else Inr m2) (\<lambda>m3.
        andThen (newIOUAmount m3 e2) (roundResult hasRem roundUp neg))))"
proof -
  have "(if mantissa a < 0 then int64 (- mantissa a) else Inr (mantissa a)) = Inr \<bar>mantissa a\<bar>"
    using canonical_mantissa[OF assms(1)] by (simp add: int64_small maxMantissa_def)
  then show ?thesis using assms(2) unfolding mulRatio_def Let_def fl64_eq andThen.simps by (simp add: neg_def mul_def)
qed

lemma mulRatio_canonical:
  assumes "canonical a" "den \<noteq> 0"
  shows "outcome canonical isOverflow (mulRatio a num den roundUp)"
proof -
  define mul :: "128 word" where "mul = word_of_int \<bar>mantissa a\<bar> * ucast num"
  define low r where "low = mul div ucast den" and "r = mul - low * ucast den"
  obtain low1 r1 e1 where add: "addRemainder 18 (ucast den) low r (exponent a) = (low1, r1, e1)"
    by (metis prod_cases3)
  obtain low2 hasRem e2 where shrink: "shrinkProduct 18 low1 (r1 \<noteq> 0) e1 = (low2, hasRem, e2)" by (metis prod_cases3)
  have parts: "uint low = \<bar>mantissa a\<bar> * uint num div uint den" "uint r = \<bar>mantissa a\<bar> * uint num mod uint den"
    "\<bar>mantissa a\<bar> * uint num < 10 ^ 26"
    using product_parts(1,2)[of "\<bar>mantissa a\<bar>" num den] product_parts(3)[of "\<bar>mantissa a\<bar>" num]
      canonical_mantissa[OF assms(1)] by (auto simp: low_def r_def mul_def)
  have den: "0 < uint den" "uint den < 2 ^ 32" using assms(2) uint_lt2p[of den] by (simp_all add: order_less_le uint_0_iff)
  have "uint r < uint den" using pos_mod_bound[OF den(1)] parts(2) by simp
  then have small: "uint r < 2 ^ 32" using den(2) by (rule order.strict_trans)
  have "uint low < 10 ^ 26" using parts int_div_le[of "\<bar>mantissa a\<bar> * uint num" "uint den"] by simp
  then have "uint low2 \<le> 10 ^ 18"
    using shrinkProduct_bound[OF addRemainder_bound] small add shrink by (metis fst_conv)
  then have low2: "\<bar>uint low2\<bar> \<le> 9223372036854775807" by simp
  define m3 where "m3 = (if mantissa a < 0 then - uint low2 else uint low2)"
  have "mulRatio a num den roundUp = andThen (newIOUAmount m3 e2) (roundResult hasRem roundUp (mantissa a < 0))"
    using mulRatio_steps[OF assms, where num = num and roundUp = roundUp] low2
    unfolding mul_def[symmetric] low_def[symmetric] r_def[symmetric] by (simp add: add shrink int64_small m3_def)
  moreover have "outcome canonical isOverflow (newIOUAmount m3 e2)"
    using low2 by (intro newIOUAmount_canonical) (simp add: m3_def)
  ultimately show ?thesis by (simp add: outcome_andThen roundResult_canonical)
qed

lemma roundResult_exact: "roundResult False roundUp neg = Inr"
  by (auto simp: roundResult_def)

lemma andThen_return: "andThen r Inr = r"
  by (cases r) auto

section \<open>Properties\<close>

text \<open>
  (C26) Amounts are canonical. Every operation on canonical amounts, and the construction from any mantissa
  but the least 64-bit integer, gives a canonical amount or reports an overflow: no arithmetic on the
  mantissa leaves its range. Negation never overflows.
\<close>

theorem iou_operations_canonical:
  assumes "canonical a" "canonical b"
  shows "(\<bar>m\<bar> \<le> 9223372036854775807 \<longrightarrow> outcome canonical isOverflow (newIOUAmount m e))
    \<and> outcome canonical isOverflow (iou_add a b)
    \<and> outcome canonical isOverflow (iou_sub a b)
    \<and> outcome canonical (\<lambda>_. False) (iou_neg a)
    \<and> (den \<noteq> 0 \<longrightarrow> outcome canonical isOverflow (mulRatio a num den roundUp))"
  using assms iou_neg_canonical
  by (simp add: newIOUAmount_canonical iou_add_canonical mulRatio_canonical iou_sub_def)

theorem iou_operations_canonical_witness:
  "outcome canonical isOverflow (newIOUAmount 5 3)
    \<and> outcome canonical isOverflow (mulRatio \<lparr>mantissa = 9999999999999999, exponent = 80\<rparr> 3 2 True)"
  using iou_operations_canonical[of "\<lparr>mantissa = 9999999999999999, exponent = 80\<rparr>" iou_zero 5 3 2 3 True]
  by (simp add: canonical_def iou_limits)

text \<open>
  (C27) The order of amounts. On canonical amounts the comparison of signs, exponents and mantissas is the
  comparison of the values, and equal representations are equal values.
\<close>

theorem iou_order:
  assumes "canonical a" "canonical b"
  shows "(iou_less a b \<longleftrightarrow> iou_value a < iou_value b) \<and> (iou_eq a b \<longleftrightarrow> iou_value a = iou_value b)
    \<and> iou_signum a = sgn (iou_value a)"
proof -
  have zero: "mantissa c = 0 \<Longrightarrow> exponent c = - 100" if "canonical c" for c
    using that by (auto simp: canonical_def iou_zero_def iou_limits)
  have "iou_value a = iou_value b \<Longrightarrow> mantissa a = mantissa b \<and> exponent a = exponent b"
    using iou_less_linear[of a b] iou_less_value[OF assms] iou_less_value[OF assms(2,1)] zero[OF assms(1)] zero[OF assms(2)]
    by auto
  then show ?thesis using iou_less_value[OF assms] iou_value_sign[of a]
    by (auto simp: iou_eq_def iou_value_def iou_signum_def sgn_if)
qed

theorem iou_order_witness:
  "iou_less \<lparr>mantissa = 9999999999999999, exponent = 0\<rparr> \<lparr>mantissa = 1000000000000000, exponent = 1\<rparr>
     \<longleftrightarrow> iou_value \<lparr>mantissa = 9999999999999999, exponent = 0\<rparr> < iou_value \<lparr>mantissa = 1000000000000000, exponent = 1\<rparr>"
  using iou_order[of "\<lparr>mantissa = 9999999999999999, exponent = 0\<rparr>" "\<lparr>mantissa = 1000000000000000, exponent = 1\<rparr>"]
  by (simp add: canonical_def iou_limits)

text \<open>
  (C28) Accuracy of the addition. The sum differs from the exact sum by less than eleven units of the
  larger exponent, or it is zero because the exact sum is below the smallest amount, up to one such
  unit.
\<close>

theorem iou_add_accurate:
  assumes "canonical a" "canonical b" "iou_add a b = Inr c"
  shows "\<bar>iou_value c - (iou_value a + iou_value b)\<bar> < 11 * 10 ^ nat (max (exponent a) (exponent b) + 100)
    \<or> c = iou_zero \<and> \<bar>iou_value a + iou_value b\<bar>
        < iou_value \<lparr>mantissa = minMantissa, exponent = minExponent\<rparr> + 10 ^ nat (max (exponent a) (exponent b) + 100)"
  using iou_add_error[OF assms] by (simp add: iou_value_def iou_limits)

theorem iou_add_accurate_witness:
  "iou_add \<lparr>mantissa = 1000000000000000, exponent = -1\<rparr> \<lparr>mantissa = 1000000000000000, exponent = -17\<rparr>
     = Inr \<lparr>mantissa = 1000000000000000, exponent = -1\<rparr>
   \<and> \<bar>iou_value \<lparr>mantissa = 1000000000000000, exponent = -1\<rparr>
     - (iou_value \<lparr>mantissa = 1000000000000000, exponent = -1\<rparr> + iou_value \<lparr>mantissa = 1000000000000000, exponent = -17\<rparr>)\<bar>
     < 11 * 10 ^ 99"
proof -
  have "iou_add \<lparr>mantissa = 1000000000000000, exponent = -1\<rparr> \<lparr>mantissa = 1000000000000000, exponent = -17\<rparr>
     = Inr \<lparr>mantissa = 1000000000000000, exponent = -1\<rparr>" by code_simp
  then show ?thesis
    using iou_add_accurate[of "\<lparr>mantissa = 1000000000000000, exponent = -1\<rparr>" "\<lparr>mantissa = 1000000000000000, exponent = -17\<rparr>"
      "\<lparr>mantissa = 1000000000000000, exponent = -1\<rparr>"]
    by (simp add: canonical_def iou_limits iou_zero_def)
qed

text \<open>
  (C29) Rounding of exact ratios. When the division leaves no remainder and the quotient fits eighteen
  digits, the rounding mode has no effect: the quotient is normalised, which cuts off the digits beyond
  the sixteenth even when the result is to be rounded up.
\<close>

theorem mulRatio_exact_truncates:
  assumes "canonical a" "den \<noteq> 0" "uint den dvd mantissa a * uint num"
    and "\<bar>mantissa a * uint num div uint den\<bar> \<le> 10 ^ 18"
  shows "mulRatio a num den roundUp = newIOUAmount (mantissa a * uint num div uint den) (exponent a)"
proof -
  define mul :: "128 word" where "mul = word_of_int \<bar>mantissa a\<bar> * ucast num"
  define low r where "low = mul div ucast den" and "r = mul - low * ucast den"
  have abs: "\<bar>mantissa a\<bar> * uint num = \<bar>mantissa a * uint num\<bar>" by (simp add: abs_mult)
  then have exact: "uint den dvd \<bar>mantissa a\<bar> * uint num" using assms(3) by simp
  have "uint low = \<bar>mantissa a\<bar> * uint num div uint den" "uint r = \<bar>mantissa a\<bar> * uint num mod uint den"
    using product_parts(1,2)[of "\<bar>mantissa a\<bar>" num den] canonical_mantissa[OF assms(1)] by (auto simp: low_def r_def mul_def)
  then have r: "r = 0" and low: "mantissa a * uint num div uint den = (if mantissa a < 0 then - uint low else uint low)"
    using exact dvd_neg_div[OF exact] by (auto simp: uint_0_iff)
  then have "uint low \<le> 10 ^ 18" using assms(4) by (auto split: if_splits)
  moreover from this have "log10Ceil low - 18 \<le> 0" using log10Ceil_le[of low 18] by simp
  moreover have "addRemainder 18 (ucast den) low r (exponent a) = (low, 0, exponent a)" by (simp add: addRemainder_def r)
  ultimately show ?thesis
    using mulRatio_steps[OF assms(1,2), where num = num and roundUp = roundUp]
    unfolding mul_def[symmetric] low_def[symmetric] r_def[symmetric] low
    by (simp add: shrinkProduct_def int64_small roundResult_exact andThen_return)
qed

theorem mulRatio_exact_truncates_witness:
  "mulRatio \<lparr>mantissa = 9999999999999999, exponent = 0\<rparr> 2000000000 1000000000 True = Inr \<lparr>mantissa = 1999999999999999, exponent = 1\<rparr>
    \<and> iou_value \<lparr>mantissa = 1999999999999999, exponent = 1\<rparr> < 2 * iou_value \<lparr>mantissa = 9999999999999999, exponent = 0\<rparr>"
proof -
  have "newIOUAmount 19999999999999998 0 = Inr \<lparr>mantissa = 1999999999999999, exponent = 1\<rparr>" by code_simp
  then show ?thesis
    using mulRatio_exact_truncates[of "\<lparr>mantissa = 9999999999999999, exponent = 0\<rparr>" 1000000000 2000000000 True]
    by (simp add: canonical_def iou_limits iou_value_def)
qed

end
