(* ===== verification/Relay_Slot.thy ===== *)
theory Relay_Slot
  imports Aged_Map
begin

text \<open>
  Reduced relaying: \<^verbatim>\<open>src/ripple/overlay/Slot.h\<close>. A slot counts the messages that each peer relays from
  one validator, selects five peers as the source of its messages and squelches the others. Times are
  readings of \<open>UptimeClock\<close> in seconds, one for each call of an operation. The operations return the
  calls of the squelch handler, and \<open>None\<close> when an assertion fails. The random numbers of an operation
  are a parameter: the index for a pool of a given size, and the duration for a peer.
\<close>

type_synonym peer_id = "32 word"
type_synonym PublicKey = "8 word list"

definition MIN_UNSQUELCH_EXPIRE :: int where "MIN_UNSQUELCH_EXPIRE = 300"
definition MAX_UNSQUELCH_EXPIRE_DEFAULT :: int where "MAX_UNSQUELCH_EXPIRE_DEFAULT = 600"
definition SQUELCH_PER_PEER :: int where "SQUELCH_PER_PEER = 10"
definition MAX_UNSQUELCH_EXPIRE_PEERS :: int where "MAX_UNSQUELCH_EXPIRE_PEERS = 3600"
definition IDLED :: int where "IDLED = 8"
definition MIN_MESSAGE_THRESHOLD :: nat where "MIN_MESSAGE_THRESHOLD = 9"
definition MAX_MESSAGE_THRESHOLD :: nat where "MAX_MESSAGE_THRESHOLD = 10"
definition MAX_SELECTED_PEERS :: nat where "MAX_SELECTED_PEERS = 5"

lemmas relay_constants = MIN_UNSQUELCH_EXPIRE_def MAX_UNSQUELCH_EXPIRE_DEFAULT_def SQUELCH_PER_PEER_def
  MAX_UNSQUELCH_EXPIRE_PEERS_def IDLED_def MIN_MESSAGE_THRESHOLD_def MAX_MESSAGE_THRESHOLD_def MAX_SELECTED_PEERS_def

datatype PeerState = PeerCounting | PeerSelected | PeerSquelched

datatype SlotState = SlotCounting | SlotSelected

datatype squelch_call = CallSquelch PublicKey peer_id "32 word" | CallUnsquelch PublicKey peer_id

record PeerInfo =
  pi_state :: PeerState
  pi_count :: nat
  pi_expire :: int
  pi_lastMessage :: int

record Slot =
  sl_peers :: "(peer_id \<times> PeerInfo) list"
  sl_considered :: "peer_id list"
  sl_reachedThreshold :: "16 word"
  sl_lastSelected :: int
  sl_state :: SlotState

record relay_random =
  rand_index :: "nat \<Rightarrow> nat"
  rand_seconds :: "peer_id \<Rightarrow> int \<Rightarrow> int \<Rightarrow> int"

definition newSlot :: "int \<Rightarrow> Slot" where
  "newSlot now = \<lparr>sl_peers = [], sl_considered = [], sl_reachedThreshold = 0, sl_lastSelected = now, sl_state = SlotCounting\<rparr>"

section \<open>Slot\<close>

definition resetCounts :: "Slot \<Rightarrow> Slot" where
  "resetCounts s = s\<lparr>sl_peers := map (\<lambda>(k, p). (k, p\<lparr>pi_count := 0\<rparr>)) (sl_peers s)\<rparr>"

definition initCounting :: "Slot \<Rightarrow> Slot" where
  "initCounting s = resetCounts (s\<lparr>sl_state := SlotCounting, sl_considered := [], sl_reachedThreshold := 0\<rparr>)"

definition getSquelchDuration :: "relay_random \<Rightarrow> peer_id \<Rightarrow> nat \<Rightarrow> int option" where
  "getSquelchDuration R k npeers = do {
     let m = max MAX_UNSQUELCH_EXPIRE_DEFAULT (SQUELCH_PER_PEER * int npeers);
     let m = (if MAX_UNSQUELCH_EXPIRE_PEERS < m then MAX_UNSQUELCH_EXPIRE_PEERS else m);
     assertThat (MIN_UNSQUELCH_EXPIRE < m);
     Some (rand_seconds R k MIN_UNSQUELCH_EXPIRE m)
   }"

text \<open>The selection loop: picks peers from the pool until enough are selected or the pool is empty.\<close>

function pickPeers ::
  "relay_random \<Rightarrow> int \<Rightarrow> (peer_id \<times> PeerInfo) list \<Rightarrow> peer_id list \<Rightarrow> peer_id list \<Rightarrow> peer_id list option" where
  "pickPeers R now peers selected pool =
     (if length selected = MAX_SELECTED_PEERS \<or> pool = [] then Some selected
      else let i = (if length pool = 1 then 0 else rand_index R (length pool - 1))
        in if length pool \<le> i then None
           else pickPeers R now peers
             (case map_of peers (pool ! i) of
                None \<Rightarrow> selected
              | Some p \<Rightarrow> if now - pi_lastMessage p < IDLED then List.insert (pool ! i) selected else selected)
             (take i pool @ drop (Suc i) pool))"
  by pat_completeness auto
termination
  by (relation "measure (\<lambda>(R, now, peers, selected, pool). length pool)") auto

declare pickPeers.simps [simp del]

text \<open>The loop that squelches the peers that are not selected.\<close>

fun squelchPeers ::
  "relay_random \<Rightarrow> int \<Rightarrow> PublicKey \<Rightarrow> peer_id list \<Rightarrow> nat \<Rightarrow> (peer_id \<times> PeerInfo) list \<Rightarrow>
     ((peer_id \<times> PeerInfo) list \<times> squelch_call list) option" where
  "squelchPeers R now validator selected npeers [] = Some ([], [])"
| "squelchPeers R now validator selected npeers ((k, v) # rest) = do {
     (v', calls) \<leftarrow>
       (if k \<in> set selected then Some (v\<lparr>pi_count := 0, pi_state := PeerSelected\<rparr>, [])
        else if pi_state v \<noteq> PeerSquelched then do {
          duration \<leftarrow> getSquelchDuration R k (npeers - MAX_SELECTED_PEERS);
          Some (v\<lparr>pi_count := 0, pi_state := PeerSquelched, pi_expire := now + duration\<rparr>,
            [CallSquelch validator k (word_of_int duration)])
        }
        else Some (v\<lparr>pi_count := 0\<rparr>, []));
     (rest', calls') \<leftarrow> squelchPeers R now validator selected npeers rest;
     Some ((k, v') # rest', calls @ calls')
   }"

definition selectPeers :: "relay_random \<Rightarrow> int \<Rightarrow> PublicKey \<Rightarrow> Slot \<Rightarrow> (Slot \<times> squelch_call list) option" where
  "selectPeers R now validator s = do {
     selected \<leftarrow> pickPeers R now (sl_peers s) [] (sl_considered s);
     if length selected \<noteq> MAX_SELECTED_PEERS then Some (initCounting s, [])
     else do {
       assertThat (MAX_SELECTED_PEERS \<le> length (sl_peers s));
       (peers, calls) \<leftarrow> squelchPeers R now validator selected (length (sl_peers s)) (sl_peers s);
       Some (s\<lparr>sl_lastSelected := now, sl_peers := peers, sl_considered := [], sl_reachedThreshold := 0,
               sl_state := SlotSelected\<rparr>, calls)
     }
   }"

definition putPeer :: "peer_id \<Rightarrow> PeerInfo \<Rightarrow> Slot \<Rightarrow> Slot" where
  "putPeer k p s = s\<lparr>sl_peers := AList.update k p (sl_peers s)\<rparr>"

definition slot_update ::
  "relay_random \<Rightarrow> int \<Rightarrow> PublicKey \<Rightarrow> peer_id \<Rightarrow> Slot \<Rightarrow> (Slot \<times> squelch_call list) option" where
  "slot_update R now validator k s =
     (case map_of (sl_peers s) k of
        None \<Rightarrow> Some (initCounting (s\<lparr>sl_peers := sl_peers s
          @ [(k, \<lparr>pi_state = PeerCounting, pi_count = 0, pi_expire = now, pi_lastMessage = now\<rparr>)]\<rparr>), [])
      | Some p \<Rightarrow>
          if pi_state p = PeerSquelched \<and> pi_expire p < now then
            Some (initCounting (putPeer k (p\<lparr>pi_state := PeerCounting, pi_lastMessage := now\<rparr>) s), [])
          else if sl_state s \<noteq> SlotCounting \<or> pi_state p = PeerSquelched then
            Some (putPeer k (p\<lparr>pi_lastMessage := now\<rparr>) s, [])
          else let p1 = p\<lparr>pi_lastMessage := now, pi_count := pi_count p + 1\<rparr>;
                   s1 = putPeer k p1 s;
                   s2 = (if MIN_MESSAGE_THRESHOLD < pi_count p1
                         then s1\<lparr>sl_considered := List.insert k (sl_considered s1)\<rparr> else s1);
                   s3 = (if pi_count p1 = MAX_MESSAGE_THRESHOLD + 1
                         then s2\<lparr>sl_reachedThreshold := sl_reachedThreshold s2 + 1\<rparr> else s2)
            in if 2 * MAX_UNSQUELCH_EXPIRE_DEFAULT < now - sl_lastSelected s3 then Some (initCounting s3, [])
               else if unat (sl_reachedThreshold s3) = MAX_SELECTED_PEERS then selectPeers R now validator s3
               else Some (s3, []))"

definition slot_deletePeer :: "int \<Rightarrow> PublicKey \<Rightarrow> peer_id \<Rightarrow> bool \<Rightarrow> Slot \<Rightarrow> Slot \<times> squelch_call list" where
  "slot_deletePeer now validator k erase s =
     (case map_of (sl_peers s) k of
        None \<Rightarrow> (s, [])
      | Some p \<Rightarrow>
          let (s1, calls) =
            (if pi_state p = PeerSelected then
               (s\<lparr>sl_peers := map (\<lambda>(k, v). (k, v\<lparr>pi_state := PeerCounting, pi_count := 0, pi_expire := now\<rparr>)) (sl_peers s),
                  sl_considered := [], sl_reachedThreshold := 0, sl_state := SlotCounting\<rparr>,
                map (\<lambda>(k, v). CallUnsquelch validator k) (filter (\<lambda>(k, v). pi_state v = PeerSquelched) (sl_peers s)))
             else if k \<in> set (sl_considered s) then
               (s\<lparr>sl_reachedThreshold := (if MAX_MESSAGE_THRESHOLD < pi_count p then sl_reachedThreshold s - 1
                    else sl_reachedThreshold s),
                  sl_considered := removeAll k (sl_considered s)\<rparr>, [])
             else (s, []));
            s2 = s1\<lparr>sl_peers := map (\<lambda>(k', v). (k', if k' = k then v\<lparr>pi_lastMessage := now, pi_count := 0\<rparr> else v)) (sl_peers s1)\<rparr>
          in (if erase then s2\<lparr>sl_peers := AList.delete k (sl_peers s2)\<rparr> else s2, calls))"

definition deleteIdlePeer :: "int \<Rightarrow> PublicKey \<Rightarrow> Slot \<Rightarrow> Slot \<times> squelch_call list" where
  "deleteIdlePeer now validator s = fold (\<lambda>k (s, calls).
     case map_of (sl_peers s) k of
       None \<Rightarrow> (s, calls)
     | Some p \<Rightarrow>
         if IDLED < now - pi_lastMessage p then
           let (s', calls') = slot_deletePeer now validator k False s in (s', calls @ calls')
         else (s, calls)) (map fst (sl_peers s)) (s, [])"

definition slot_inState :: "PeerState \<Rightarrow> Slot \<Rightarrow> 16 word" where
  "slot_inState st s = word_of_nat (length (filter (\<lambda>(_, p). pi_state p = st) (sl_peers s)))"

definition slot_notInState :: "PeerState \<Rightarrow> Slot \<Rightarrow> 16 word" where
  "slot_notInState st s = word_of_nat (length (filter (\<lambda>(_, p). pi_state p \<noteq> st) (sl_peers s)))"

definition slot_getSelected :: "Slot \<Rightarrow> peer_id list" where
  "slot_getSelected s = map fst (filter (\<lambda>(_, p). pi_state p = PeerSelected) (sl_peers s))"

section \<open>Slots\<close>

record Slots =
  ss_slots :: "(PublicKey \<times> Slot) list"
  ss_peersWithMessage :: "(uint256, peer_id list) aged_map"

definition newSlots :: Slots where
  "newSlots = \<lparr>ss_slots = [], ss_peersWithMessage = []\<rparr>"

definition addPeerMessage :: "int \<Rightarrow> uint256 \<Rightarrow> peer_id \<Rightarrow> Slots \<Rightarrow> bool \<times> Slots" where
  "addPeerMessage now key k S =
     (let m = aged_expire now IDLED (ss_peersWithMessage S)
      in if key \<noteq> 0 then
           case aged_find key m of
             None \<Rightarrow> (True, S\<lparr>ss_peersWithMessage := m @ [(key, now, [k])]\<rparr>)
           | Some ids \<Rightarrow>
               if k \<in> set ids then (False, S\<lparr>ss_peersWithMessage := m\<rparr>)
               else (True, S\<lparr>ss_peersWithMessage := aged_at now key [] (\<lambda>ids. ids @ [k]) m\<rparr>)
         else (True, S\<lparr>ss_peersWithMessage := m\<rparr>))"

definition updateSlotAndSquelch ::
  "relay_random \<Rightarrow> int \<Rightarrow> uint256 \<Rightarrow> PublicKey \<Rightarrow> peer_id \<Rightarrow> Slots \<Rightarrow> (Slots \<times> squelch_call list) option" where
  "updateSlotAndSquelch R now key validator k S =
     (let (added, S1) = addPeerMessage now key k S
      in if \<not> added then Some (S1, [])
         else let s = (case map_of (ss_slots S1) validator of None \<Rightarrow> newSlot now | Some s \<Rightarrow> s)
           in do {
             (s', calls) \<leftarrow> slot_update R now validator k s;
             Some (S1\<lparr>ss_slots := AList.update validator s' (ss_slots S1)\<rparr>, calls)
           })"

definition slots_deletePeer :: "int \<Rightarrow> peer_id \<Rightarrow> bool \<Rightarrow> Slots \<Rightarrow> Slots \<times> squelch_call list" where
  "slots_deletePeer now k erase S =
     (S\<lparr>ss_slots := map (\<lambda>(v, s). (v, fst (slot_deletePeer now v k erase s))) (ss_slots S)\<rparr>,
      concat (map (\<lambda>(v, s). snd (slot_deletePeer now v k erase s)) (ss_slots S)))"

definition deleteIdlePeers :: "int \<Rightarrow> Slots \<Rightarrow> Slots \<times> squelch_call list" where
  "deleteIdlePeers now S =
     (S\<lparr>ss_slots := filter (\<lambda>(v, s). \<not> MAX_UNSQUELCH_EXPIRE_DEFAULT < now - sl_lastSelected s)
          (map (\<lambda>(v, s). (v, fst (deleteIdlePeer now v s))) (ss_slots S))\<rparr>,
      concat (map (\<lambda>(v, s). snd (deleteIdlePeer now v s)) (ss_slots S)))"

end
