(* ===== verification/Relay_Squelch.thy ===== *)
theory Relay_Squelch
  imports Relay_Slot
begin

text \<open>
  The other side of reduced relaying: the validators a connection is squelched for
  (\<^verbatim>\<open>src/ripple/overlay/Squelch.h\<close>), the squelch handler of the overlay (\<open>OverlayImpl::squelch\<close> and
  \<open>unsquelch\<close> of \<^verbatim>\<open>src/ripple/overlay/impl/OverlayImpl.cpp\<close>) and the handler of the message at the peer
  (\<open>PeerImp::onMessage\<close> of \<^verbatim>\<open>src/ripple/overlay/impl/PeerImp.cpp\<close>).
\<close>

type_synonym Squelch = "(PublicKey \<times> int) list"

definition removeSquelch :: "PublicKey \<Rightarrow> Squelch \<Rightarrow> Squelch" where
  "removeSquelch validator q = AList.delete validator q"

definition addSquelch :: "int \<Rightarrow> PublicKey \<Rightarrow> int \<Rightarrow> Squelch \<Rightarrow> bool \<times> Squelch" where
  "addSquelch now validator squelchDuration q =
     (if MIN_UNSQUELCH_EXPIRE \<le> squelchDuration \<and> squelchDuration \<le> MAX_UNSQUELCH_EXPIRE_PEERS
      then (True, AList.update validator (now + squelchDuration) q)
      else (False, removeSquelch validator q))"

definition expireSquelch :: "int \<Rightarrow> PublicKey \<Rightarrow> Squelch \<Rightarrow> bool \<times> Squelch" where
  "expireSquelch now validator q =
     (case map_of q validator of
        None \<Rightarrow> (True, q)
      | Some t \<Rightarrow> if now < t then (False, q) else (True, AList.delete validator q))"

datatype KeyType = secp256k1 | ed25519

definition publicKeyType :: "8 word list \<Rightarrow> KeyType option" where
  "publicKeyType key =
     (if length key = 33 then
        if key ! 0 = 0xED then Some ed25519
        else if key ! 0 = 2 \<or> key ! 0 = 3 then Some secp256k1
        else None
      else None)"

record TMSquelch =
  tm_squelch :: bool
  tm_validatorpubkey :: "8 word list"
  tm_squelchduration :: "32 word option"

definition makeSquelchMessage :: "8 word list \<Rightarrow> bool \<Rightarrow> 32 word \<Rightarrow> TMSquelch" where
  "makeSquelchMessage validator squelch squelchDuration =
     \<lparr>tm_squelch = squelch, tm_validatorpubkey = validator,
      tm_squelchduration = (if squelch then Some squelchDuration else None)\<rparr>"

text \<open>
  A key that is constructed by default has size 0; \<open>squelch\<close> fills its buffer and leaves the size as it
  is. The bytes of a key are as many bytes of its buffer as its size says, so that none of the bytes is
  read; the last of them comes from a shift by the width of an \<open>int\<close>, which C++ leaves undefined.
\<close>

definition keyBytes :: "nat \<Rightarrow> 8 word list \<Rightarrow> 8 word list" where
  "keyBytes sz buf = take sz buf"

definition overlay_squelch :: "(peer_id \<Rightarrow> bool) \<Rightarrow> bool \<Rightarrow> PublicKey \<Rightarrow> peer_id \<Rightarrow> 32 word \<Rightarrow> TMSquelch list" where
  "overlay_squelch connected enabled validator k squelchDuration =
     (if connected k \<and> enabled then
        map (\<lambda>i. let buf = map (\<lambda>j. drop_bit j 0xFF) [0..<33]
                 in makeSquelchMessage (keyBytes 0 buf) True squelchDuration) [0..<100]
      else [])"

definition overlay_unsquelch :: "(peer_id \<Rightarrow> bool) \<Rightarrow> bool \<Rightarrow> PublicKey \<Rightarrow> peer_id \<Rightarrow> TMSquelch list" where
  "overlay_unsquelch connected enabled validator k =
     (if connected k \<and> enabled then [makeSquelchMessage validator False 0] else [])"

text \<open>The result is whether the sender is charged for bad data, and the squelches of the connection.\<close>

definition onSquelchMessage :: "PublicKey \<Rightarrow> int \<Rightarrow> TMSquelch \<Rightarrow> Squelch \<Rightarrow> bool \<times> Squelch" where
  "onSquelchMessage own now m q =
     (let key = tm_validatorpubkey m
      in if publicKeyType key = None then (True, q)
         else if key = own then (False, q)
         else let duration = (case tm_squelchduration m of Some d \<Rightarrow> uint d | None \<Rightarrow> 0)
           in if \<not> tm_squelch m then (False, removeSquelch key q)
              else let (ok, q') = addSquelch now key duration q in (\<not> ok, q'))"

end
