(* ===== verification/Relay_Inv.thy ===== *)
theory Relay_Inv
  imports Relay_Squelch
begin

text \<open>
  The invariant of a slot. The pool holds the peers that passed the lower threshold and the counter the
  number of those that passed the upper one; either five peers are selected, or no peer is selected or
  squelched; a slot in the selected state has no peer that is counting. The invariant is stated over the
  peers as a map, and every operation returns and keeps it.
\<close>

definition keys_with :: "('k \<rightharpoonup> 'v) \<Rightarrow> ('v \<Rightarrow> bool) \<Rightarrow> 'k set" where
  "keys_with M P = {k. \<exists>p. M k = Some p \<and> P p}"

lemma keys_with_upd: "keys_with (M(k \<mapsto> p)) P = (if P p then insert k (keys_with M P) else keys_with M P - {k})"
  by (auto simp: keys_with_def)

lemma keys_with_del: "keys_with (M(k := None)) P = keys_with M P - {k}"
  by (auto simp: keys_with_def)

lemma keys_with_map: "keys_with (\<lambda>k. map_option (f k) (M k)) P = {k. \<exists>p. M k = Some p \<and> P (f k p)}"
  by (auto simp: keys_with_def)

lemma keys_with_iff: "k \<in> keys_with M P \<longleftrightarrow> (\<exists>p. M k = Some p \<and> P p)"
  by (simp add: keys_with_def)

lemma finite_keys_with: "finite (dom M) \<Longrightarrow> finite (keys_with M P)"
  by (rule finite_subset[of _ "dom M"]) (auto simp: keys_with_def)

type_synonym peer_map = "peer_id \<rightharpoonup> PeerInfo"

abbreviation is_selected :: "PeerInfo \<Rightarrow> bool" where
  "is_selected p \<equiv> pi_state p = PeerSelected"

abbreviation is_squelched :: "PeerInfo \<Rightarrow> bool" where
  "is_squelched p \<equiv> pi_state p = PeerSquelched"

definition balanced :: "peer_map \<Rightarrow> bool" where
  "balanced M \<longleftrightarrow> card (keys_with M is_selected) = MAX_SELECTED_PEERS \<or> keys_with M (\<lambda>p. pi_state p \<noteq> PeerCounting) = {}"

definition peers_inv :: "peer_map \<Rightarrow> peer_id set \<Rightarrow> nat \<Rightarrow> SlotState \<Rightarrow> bool" where
  "peers_inv M pool reached st \<longleftrightarrow>
     finite (dom M) \<and> pool = keys_with M (\<lambda>p. MIN_MESSAGE_THRESHOLD < pi_count p)
     \<and> reached = card (keys_with M (\<lambda>p. MAX_MESSAGE_THRESHOLD < pi_count p)) \<and> reached < MAX_SELECTED_PEERS
     \<and> keys_with M (\<lambda>p. is_squelched p \<and> pi_count p \<noteq> 0) = {}
     \<and> balanced M
     \<and> (st = SlotSelected \<longrightarrow> keys_with M (\<lambda>p. pi_state p = PeerCounting) = {}
          \<and> card (keys_with M is_selected) = MAX_SELECTED_PEERS)"

definition slot_inv :: "Slot \<Rightarrow> bool" where
  "slot_inv s \<longleftrightarrow> al_distinct (sl_peers s) \<and> distinct (sl_considered s)
     \<and> peers_inv (map_of (sl_peers s)) (set (sl_considered s)) (unat (sl_reachedThreshold s)) (sl_state s)"

section \<open>Changes of the peers\<close>

lemma balanced_counting:
  assumes "balanced M" "\<And>p. M k = Some p \<Longrightarrow> \<not> is_selected p" "pi_state p' = PeerCounting"
  shows "balanced (M(k \<mapsto> p'))"
proof -
  have "k \<notin> keys_with M is_selected" using assms(2) by (auto simp: keys_with_iff)
  then show ?thesis using assms(1,3) by (auto simp: balanced_def keys_with_upd)
qed

lemma balanced_delete:
  assumes "balanced M" "\<And>p. M k = Some p \<Longrightarrow> \<not> is_selected p"
  shows "balanced (M(k := None))"
proof -
  have "k \<notin> keys_with M is_selected" using assms(2) by (auto simp: keys_with_iff)
  then show ?thesis using assms(1) by (auto simp: balanced_def keys_with_del)
qed

lemma peers_inv_reset:
  assumes "finite (dom M)" "balanced M"
  shows "peers_inv (\<lambda>k. map_option (\<lambda>p. p\<lparr>pi_count := 0\<rparr>) (M k)) {} 0 SlotCounting"
proof -
  have "dom (\<lambda>k. map_option (\<lambda>p. p\<lparr>pi_count := 0\<rparr>) (M k)) = dom M" by (auto simp: dom_def)
  then show ?thesis using assms
    by (simp add: peers_inv_def balanced_def keys_with_map relay_constants) (simp add: keys_with_def)
qed

text \<open>A change of a peer that keeps its state and count.\<close>

lemma keys_with_same:
  assumes "M k = Some p" "P p' = P p"
  shows "keys_with (M(k \<mapsto> p')) P = keys_with M P"
  using assms by (auto simp: keys_with_upd keys_with_iff insert_absorb)

lemma peers_inv_same:
  assumes "peers_inv M pool reached st" "M k = Some p" "pi_state p' = pi_state p" "pi_count p' = pi_count p"
  shows "peers_inv (M(k \<mapsto> p')) pool reached st"
  using assms(1,3,4) keys_with_same[of M k p _ p', OF assms(2)] by (simp add: peers_inv_def balanced_def)

text \<open>A message that is counted: the pool and the counter follow.\<close>

lemma peers_inv_counted:
  assumes "peers_inv M pool reached SlotCounting" "M k = Some p" "\<not> is_squelched p"
    and p': "pi_state p' = pi_state p" "pi_count p' = pi_count p + 1"
  defines "pool' \<equiv> if MIN_MESSAGE_THRESHOLD < pi_count p' then insert k pool else pool"
    and "reached' \<equiv> if pi_count p' = MAX_MESSAGE_THRESHOLD + 1 then reached + 1 else reached"
  shows "pool' = keys_with (M(k \<mapsto> p')) (\<lambda>p. MIN_MESSAGE_THRESHOLD < pi_count p)"
    "reached' = card (keys_with (M(k \<mapsto> p')) (\<lambda>p. MAX_MESSAGE_THRESHOLD < pi_count p))"
    "reached' \<noteq> MAX_SELECTED_PEERS \<Longrightarrow> peers_inv (M(k \<mapsto> p')) pool' reached' SlotCounting"
    "balanced (M(k \<mapsto> p'))" "finite (dom (M(k \<mapsto> p')))" "reached' \<le> MAX_SELECTED_PEERS"
proof -
  have inv: "finite (dom M)" "pool = keys_with M (\<lambda>p. MIN_MESSAGE_THRESHOLD < pi_count p)"
    "reached = card (keys_with M (\<lambda>p. MAX_MESSAGE_THRESHOLD < pi_count p))" "reached < MAX_SELECTED_PEERS"
    "keys_with M (\<lambda>p. is_squelched p \<and> pi_count p \<noteq> 0) = {}" "balanced M"
    using assms(1) by (simp_all add: peers_inv_def)
  show pool: "pool' = keys_with (M(k \<mapsto> p')) (\<lambda>p. MIN_MESSAGE_THRESHOLD < pi_count p)"
    using inv(2) assms(2) p'(2) by (auto simp: pool'_def keys_with_upd keys_with_iff)
  have "finite (keys_with M (\<lambda>p. MAX_MESSAGE_THRESHOLD < pi_count p))" using inv(1) by (rule finite_keys_with)
  then show reached: "reached' = card (keys_with (M(k \<mapsto> p')) (\<lambda>p. MAX_MESSAGE_THRESHOLD < pi_count p))"
    using inv(3) assms(2) p'(2)
    by (auto simp: reached'_def keys_with_upd keys_with_iff card_insert_if insert_absorb less_Suc_eq)
  have sel: "keys_with (M(k \<mapsto> p')) P = keys_with M P" if "P p' = P p" for P using keys_with_same[of M k p P p'] assms(2) that by simp
  show balanced: "balanced (M(k \<mapsto> p'))" using inv(6) p'(1) sel by (simp add: balanced_def)
  show "finite (dom (M(k \<mapsto> p')))" using inv(1) by simp
  show "reached' \<le> MAX_SELECTED_PEERS" using inv(4) by (simp add: reached'_def)
  moreover have "keys_with (M(k \<mapsto> p')) (\<lambda>p. is_squelched p \<and> pi_count p \<noteq> 0) = {}"
    using inv(5) assms(3) p'(1) by (simp add: keys_with_upd)
  ultimately show "peers_inv (M(k \<mapsto> p')) pool' reached' SlotCounting" if "reached' \<noteq> MAX_SELECTED_PEERS"
    using that pool reached balanced inv(1) by (simp add: peers_inv_def)
qed

section \<open>Selection\<close>

definition rand_ok :: "relay_random \<Rightarrow> bool" where
  "rand_ok R \<longleftrightarrow> (\<forall>n. rand_index R n \<le> n) \<and> (\<forall>k lo hi. lo \<le> hi \<longrightarrow> lo \<le> rand_seconds R k lo hi \<and> rand_seconds R k lo hi \<le> hi)"

lemma pickPeers_spec:
  assumes "\<And>n. rand_index R n \<le> n" "distinct selected" "length selected \<le> MAX_SELECTED_PEERS"
  shows "\<exists>sel. pickPeers R now peers selected pool = Some sel \<and> distinct sel \<and> length sel \<le> MAX_SELECTED_PEERS
    \<and> set sel \<subseteq> set selected \<union> (set pool \<inter> dom (map_of peers))"
  using assms
proof (induction R now peers selected pool rule: pickPeers.induct)
  case (1 R now peers selected pool)
  show ?case
  proof (cases "length selected = MAX_SELECTED_PEERS \<or> pool = []")
    case True
    then show ?thesis using 1(3,4) by (subst pickPeers.simps) auto
  next
    case False
    define i where "i = (if length pool = 1 then 0 else rand_index R (length pool - 1))"
    define rest where "rest = take i pool @ drop (Suc i) pool"
    define sel where "sel = (case map_of peers (pool ! i) of None \<Rightarrow> selected
      | Some p \<Rightarrow> if now - pi_lastMessage p < IDLED then List.insert (pool ! i) selected else selected)"
    have "rand_index R (length pool - 1) \<le> length pool - 1" "0 < length pool" using 1(2) False by simp_all
    then have "rand_index R (length pool - 1) < length pool" by linarith
    then have i: "i < length pool" using False by (simp add: i_def)
    have sel: "distinct sel" "length sel \<le> MAX_SELECTED_PEERS" "set sel \<subseteq> set selected \<union> ({pool ! i} \<inter> dom (map_of peers))"
      using 1(3,4) False by (auto simp: sel_def List.insert_def split: option.splits)
    have "set rest \<subseteq> set pool" unfolding rest_def using set_take_subset set_drop_subset by fastforce
    moreover have "pickPeers R now peers selected pool = pickPeers R now peers sel rest"
      unfolding pickPeers.simps[of R now peers selected pool] Let_def i_def[symmetric] sel_def[symmetric] rest_def[symmetric]
      using False i by simp
    moreover have "\<exists>sel'. pickPeers R now peers sel rest = Some sel' \<and> distinct sel' \<and> length sel' \<le> MAX_SELECTED_PEERS
        \<and> set sel' \<subseteq> set sel \<union> (set rest \<inter> dom (map_of peers))"
      using 1(1)[OF False i_def] i 1(2) sel(1,2) by (simp add: sel_def rest_def)
    ultimately show ?thesis using sel(3) nth_mem[OF i] by fastforce
  qed
qed

text \<open>The longest squelch for a number of peers.\<close>

definition squelchMax :: "nat \<Rightarrow> int" where
  "squelchMax npeers = min MAX_UNSQUELCH_EXPIRE_PEERS (max MAX_UNSQUELCH_EXPIRE_DEFAULT (SQUELCH_PER_PEER * int npeers))"

lemma getSquelchDuration_eq: "getSquelchDuration R k n = Some (rand_seconds R k MIN_UNSQUELCH_EXPIRE (squelchMax n))"
  by (simp add: getSquelchDuration_def squelchMax_def Let_def relay_constants less_max_iff_disj)

definition squelchedInfo :: "relay_random \<Rightarrow> int \<Rightarrow> peer_id list \<Rightarrow> nat \<Rightarrow> peer_id \<Rightarrow> PeerInfo \<Rightarrow> PeerInfo" where
  "squelchedInfo R now selected npeers k v =
     (if k \<in> set selected then v\<lparr>pi_count := 0, pi_state := PeerSelected\<rparr>
      else if pi_state v \<noteq> PeerSquelched
      then v\<lparr>pi_count := 0, pi_state := PeerSquelched,
             pi_expire := now + rand_seconds R k MIN_UNSQUELCH_EXPIRE (squelchMax (npeers - MAX_SELECTED_PEERS))\<rparr>
      else v\<lparr>pi_count := 0\<rparr>)"

definition squelchCalls :: "relay_random \<Rightarrow> PublicKey \<Rightarrow> peer_id list \<Rightarrow> nat \<Rightarrow> (peer_id \<times> PeerInfo) list \<Rightarrow> squelch_call list" where
  "squelchCalls R validator selected npeers peers =
     map (\<lambda>(k, v). CallSquelch validator k (word_of_int (rand_seconds R k MIN_UNSQUELCH_EXPIRE (squelchMax (npeers - MAX_SELECTED_PEERS)))))
       (filter (\<lambda>(k, v). k \<notin> set selected \<and> \<not> is_squelched v) peers)"

lemma squelchPeers_eq:
  "squelchPeers R now validator selected n peers =
     Some (map (\<lambda>(k, v). (k, squelchedInfo R now selected n k v)) peers, squelchCalls R validator selected n peers)"
  by (induction R now validator selected n peers rule: squelchPeers.induct)
    (auto simp: squelchedInfo_def squelchCalls_def getSquelchDuration_eq)

lemma map_of_map_keyed: "map_of (map (\<lambda>(k, v). (k, f k v)) xs) k = map_option (f k) (map_of xs k)"
  by (induction xs) auto

lemma map_fst_keyed [simp]: "map (fst \<circ> (\<lambda>(k, v). (k, f k v))) xs = map fst xs"
  by (induction xs) auto

section \<open>What an operation does to the squelched peers\<close>

text \<open>The squelches of a slot: the peers that are squelched, and until when.\<close>

definition squelches :: "Slot \<Rightarrow> peer_id \<rightharpoonup> int" where
  "squelches s k = (case map_of (sl_peers s) k of None \<Rightarrow> None
     | Some p \<Rightarrow> if is_squelched p then Some (pi_expire p) else None)"

text \<open>
  An operation of the slot of \<open>v\<close>: its calls are about \<open>v\<close>; a peer that is told to be silent is squelched
  for that long; a squelch that runs goes on, or the peer is told that it has ended, unless the peer is
  in \<open>X\<close>; and a squelch is an old one or was issued now, with a duration that depends on the number of
  peers.
\<close>

definition call_ok :: "PublicKey \<Rightarrow> int \<Rightarrow> Slot \<Rightarrow> squelch_call \<Rightarrow> bool" where
  "call_ok v now s' c \<longleftrightarrow> (case c of
     CallSquelch v' k d \<Rightarrow> v' = v \<and> squelches s' k = Some (now + uint d) | CallUnsquelch v' k \<Rightarrow> v' = v)"

definition slot_follows :: "peer_id set \<Rightarrow> PublicKey \<Rightarrow> int \<Rightarrow> Slot \<Rightarrow> squelch_call list \<Rightarrow> Slot \<Rightarrow> bool" where
  "slot_follows X v now s calls s' \<longleftrightarrow> slot_inv s' \<and> list_all (call_ok v now s') calls
     \<and> (\<forall>k t. k \<notin> X \<and> squelches s k = Some t \<and> now < t \<longrightarrow> CallUnsquelch v k \<in> set calls \<or> squelches s' k = Some t)
     \<and> (sl_lastSelected s' = sl_lastSelected s \<or> sl_lastSelected s' = now)
     \<and> (\<forall>k t. squelches s' k = Some t \<longrightarrow> squelches s k = Some t
          \<or> sl_lastSelected s' = now \<and> t \<le> now + squelchMax (length (sl_peers s) - MAX_SELECTED_PEERS))"

lemma slot_follows_quiet:
  assumes "slot_inv s'" "sl_lastSelected s' = sl_lastSelected s"
    and "\<And>k. squelches s' k = squelches s k \<or> squelches s' k = None \<and> (k \<in> X \<or> (\<forall>t. squelches s k = Some t \<longrightarrow> t \<le> now))"
  shows "slot_follows X v now s [] s'"
  using assms unfolding slot_follows_def by (auto simp: not_less) (metis not_less option.distinct(1))+

lemma initCounting_simps:
  "map_of (sl_peers (initCounting s)) = (\<lambda>k. map_option (\<lambda>p. p\<lparr>pi_count := 0\<rparr>) (map_of (sl_peers s) k))"
  "map fst (sl_peers (initCounting s)) = map fst (sl_peers s)"
  "sl_considered (initCounting s) = []" "sl_reachedThreshold (initCounting s) = 0" "sl_state (initCounting s) = SlotCounting"
  "sl_lastSelected (initCounting s) = sl_lastSelected s"
  by (auto simp: initCounting_def resetCounts_def map_of_map_keyed[of "\<lambda>k v. v\<lparr>pi_count := 0\<rparr>"])

lemma initCounting_inv:
  assumes "al_distinct (sl_peers s)" "balanced (map_of (sl_peers s))"
  shows "slot_inv (initCounting s)"
  using assms peers_inv_reset[of "map_of (sl_peers s)"] by (simp add: slot_inv_def initCounting_simps finite_dom_map_of)

lemma squelches_initCounting [simp]: "squelches (initCounting s) = squelches s"
  by (auto simp: squelches_def initCounting_simps fun_eq_iff split: option.splits)

lemma putPeer_simps [simp]:
  "map_of (sl_peers (putPeer k p s)) = (map_of (sl_peers s))(k \<mapsto> p)" "sl_considered (putPeer k p s) = sl_considered s"
  "sl_reachedThreshold (putPeer k p s) = sl_reachedThreshold s" "sl_state (putPeer k p s) = sl_state s"
  "sl_lastSelected (putPeer k p s) = sl_lastSelected s"
  "al_distinct (sl_peers s) \<Longrightarrow> al_distinct (sl_peers (putPeer k p s))"
  by (simp_all add: putPeer_def update_conv' del: map_of_eq_Some_iff)

lemma squelches_upd:
  assumes "map_of (sl_peers s') = (map_of (sl_peers s))(k \<mapsto> p)"
  shows "squelches s' = (squelches s)(k := if is_squelched p then Some (pi_expire p) else None)"
  using assms by (auto simp: squelches_def fun_eq_iff)

section \<open>The operations of a slot\<close>

lemma squelchedInfo_simps:
  "pi_count (squelchedInfo R now sel n k p) = 0" "is_selected (squelchedInfo R now sel n k p) \<longleftrightarrow> k \<in> set sel"
  "pi_state (squelchedInfo R now sel n k p) \<noteq> PeerCounting"
  by (auto simp: squelchedInfo_def)

lemma squelchDuration_range:
  fixes k :: peer_id and n :: nat
  assumes "rand_ok R"
  defines "d \<equiv> rand_seconds R k MIN_UNSQUELCH_EXPIRE (squelchMax n)"
  shows "MIN_UNSQUELCH_EXPIRE \<le> d" "d \<le> squelchMax n" "uint (word_of_int d :: 32 word) = d"
proof -
  have max: "MIN_UNSQUELCH_EXPIRE \<le> squelchMax n" "squelchMax n \<le> 3600" by (auto simp: squelchMax_def relay_constants)
  then show d: "MIN_UNSQUELCH_EXPIRE \<le> d" "d \<le> squelchMax n" using assms(1) by (auto simp: d_def rand_ok_def)
  show "uint (word_of_int d :: 32 word) = d"
    using d max by (subst uint_word_of_int) (simp add: take_bit_int_eq_self relay_constants)
qed

text \<open>A selection that succeeds.\<close>

lemma selected_follows:
  fixes now :: int
  assumes rand: "rand_ok R" and dist: "al_distinct (sl_peers s)" and card: "card (set sel) = MAX_SELECTED_PEERS"
    and sel: "set sel \<subseteq> dom (map_of (sl_peers s))" "\<And>k p. k \<in> set sel \<Longrightarrow> map_of (sl_peers s) k = Some p \<Longrightarrow> \<not> is_squelched p"
  defines "n \<equiv> length (sl_peers s)"
  defines "s' \<equiv> s\<lparr>sl_lastSelected := now, sl_peers := map (\<lambda>(k, v). (k, squelchedInfo R now sel n k v)) (sl_peers s),
     sl_considered := [], sl_reachedThreshold := 0, sl_state := SlotSelected\<rparr>"
  shows "slot_follows {} v now s (squelchCalls R v sel n (sl_peers s)) s'"
proof -
  define M where "M = map_of (sl_peers s)"
  have M': "map_of (sl_peers s') = (\<lambda>k. map_option (squelchedInfo R now sel n k) (M k))"
    by (rule ext) (simp add: s'_def map_of_map_keyed M_def)
  have sq: "squelches s' k = (case M k of None \<Rightarrow> None | Some p \<Rightarrow> if k \<in> set sel then None
      else if is_squelched p then Some (pi_expire p)
      else Some (now + rand_seconds R k MIN_UNSQUELCH_EXPIRE (squelchMax (n - MAX_SELECTED_PEERS))))" for k
    unfolding squelches_def M' by (auto simp: squelchedInfo_def split: option.splits)
  have old: "squelches s k = (case M k of None \<Rightarrow> None | Some p \<Rightarrow> if is_squelched p then Some (pi_expire p) else None)" for k
    by (simp add: squelches_def M_def)
  have "keys_with (map_of (sl_peers s')) is_selected = set sel" unfolding M' keys_with_map
    using sel(1) by (auto simp: squelchedInfo_simps M_def)
  moreover have "finite (dom (map_of (sl_peers s')))" by (rule finite_dom_map_of)
  ultimately have "peers_inv (map_of (sl_peers s')) {} 0 SlotSelected"
    using card unfolding peers_inv_def balanced_def M' keys_with_map
    by (simp add: squelchedInfo_simps MAX_SELECTED_PEERS_def)
  then have inv: "slot_inv s'" using dist by (simp add: slot_inv_def s'_def)
  have "call_ok v now s' c" if "c \<in> set (squelchCalls R v sel n (sl_peers s))" for c
  proof -
    from that obtain k p where c: "(k, p) \<in> set (sl_peers s)" "k \<notin> set sel" "\<not> is_squelched p"
      "c = CallSquelch v k (word_of_int (rand_seconds R k MIN_UNSQUELCH_EXPIRE (squelchMax (n - MAX_SELECTED_PEERS))))"
      by (auto simp: squelchCalls_def)
    then have "M k = Some p" using dist by (simp add: M_def)
    then show ?thesis using c squelchDuration_range(3)[OF rand] by (simp add: call_ok_def sq)
  qed
  moreover have "squelches s' k = Some t" if "squelches s k = Some t" for k t
    using that sel(2)[of k] unfolding sq old M_def[symmetric] by (auto split: option.splits if_splits)
  moreover have "squelches s k = Some t \<or> t \<le> now + squelchMax (n - MAX_SELECTED_PEERS)" if "squelches s' k = Some t" for k t
    using that squelchDuration_range(2)[OF rand] unfolding sq old by (auto split: option.splits if_splits)
  ultimately show ?thesis using inv unfolding slot_follows_def n_def[symmetric]
    by (auto simp: list_all_iff s'_def)
qed

lemma selectPeers_follows:
  assumes rand: "rand_ok R" and dist: "al_distinct (sl_peers s)"
    and pool: "set (sl_considered s) = keys_with (map_of (sl_peers s)) (\<lambda>p. MIN_MESSAGE_THRESHOLD < pi_count p)"
    and quiet: "keys_with (map_of (sl_peers s)) (\<lambda>p. is_squelched p \<and> pi_count p \<noteq> 0) = {}"
    and bal: "balanced (map_of (sl_peers s))"
  shows "\<exists>s' calls. selectPeers R now v s = Some (s', calls) \<and> slot_follows {} v now s calls s'"
proof -
  obtain sel where sel: "pickPeers R now (sl_peers s) [] (sl_considered s) = Some sel" "distinct sel"
    "set sel \<subseteq> set (sl_considered s) \<inter> dom (map_of (sl_peers s))"
    using pickPeers_spec[of R "[]" now "sl_peers s" "sl_considered s"] rand by (auto simp: rand_ok_def)
  show ?thesis
  proof (cases "length sel = MAX_SELECTED_PEERS")
    case False
    then have "selectPeers R now v s = Some (initCounting s, [])" by (simp add: selectPeers_def sel(1))
    then show ?thesis using initCounting_inv[OF dist bal] by (auto intro!: slot_follows_quiet simp: initCounting_simps)
  next
    case True
    have card: "card (set sel) = MAX_SELECTED_PEERS" using True sel(2) distinct_card by metis
    have "card (set sel) \<le> card (set (map fst (sl_peers s)))"
      using sel(3) by (intro card_mono) (auto simp: dom_map_of_conv_image_fst)
    then have "MAX_SELECTED_PEERS \<le> length (sl_peers s)" using card dist distinct_card by (metis length_map)
    moreover have "\<not> is_squelched p" if "k \<in> set sel" "map_of (sl_peers s) k = Some p" for k p
      using that sel(3) pool quiet by (force simp: keys_with_def simp del: map_of_eq_Some_iff)
    ultimately show ?thesis
      using selected_follows[OF rand dist card] sel(3) True by (auto simp: selectPeers_def sel(1) squelchPeers_eq)
  qed
qed

text \<open>A message that is counted, before the slot decides what follows from it.\<close>

definition countMessage :: "int \<Rightarrow> peer_id \<Rightarrow> PeerInfo \<Rightarrow> Slot \<Rightarrow> Slot" where
  "countMessage now k p s =
     (let p1 = p\<lparr>pi_lastMessage := now, pi_count := pi_count p + 1\<rparr>;
          s1 = putPeer k p1 s;
          s2 = (if MIN_MESSAGE_THRESHOLD < pi_count p1 then s1\<lparr>sl_considered := List.insert k (sl_considered s1)\<rparr> else s1)
      in if pi_count p1 = MAX_MESSAGE_THRESHOLD + 1 then s2\<lparr>sl_reachedThreshold := sl_reachedThreshold s2 + 1\<rparr> else s2)"

lemma slot_update_counted:
  assumes "map_of (sl_peers s) k = Some p" "\<not> is_squelched p" "sl_state s = SlotCounting"
  shows "slot_update R now v k s = (let s3 = countMessage now k p s
     in if 2 * MAX_UNSQUELCH_EXPIRE_DEFAULT < now - sl_lastSelected s3 then Some (initCounting s3, [])
        else if unat (sl_reachedThreshold s3) = MAX_SELECTED_PEERS then selectPeers R now v s3 else Some (s3, []))"
  using assms unfolding slot_update_def countMessage_def Let_def by (simp del: map_of_eq_Some_iff)

lemma countMessage_simps:
  assumes "map_of (sl_peers s) k = Some p" "\<not> is_squelched p"
  shows "map_of (sl_peers (countMessage now k p s)) = (map_of (sl_peers s))(k \<mapsto> p\<lparr>pi_lastMessage := now, pi_count := pi_count p + 1\<rparr>)"
    "map fst (sl_peers (countMessage now k p s)) = map fst (sl_peers s)"
    "sl_state (countMessage now k p s) = sl_state s" "sl_lastSelected (countMessage now k p s) = sl_lastSelected s"
    "set (sl_considered (countMessage now k p s)) =
       (if MIN_MESSAGE_THRESHOLD < pi_count p + 1 then insert k (set (sl_considered s)) else set (sl_considered s))"
    "sl_reachedThreshold (countMessage now k p s) =
       (if pi_count p + 1 = MAX_MESSAGE_THRESHOLD + 1 then sl_reachedThreshold s + 1 else sl_reachedThreshold s)"
    "distinct (sl_considered s) \<Longrightarrow> distinct (sl_considered (countMessage now k p s))"
    "squelches (countMessage now k p s) = squelches s"
proof -
  show upd: "map_of (sl_peers (countMessage now k p s)) = (map_of (sl_peers s))(k \<mapsto> p\<lparr>pi_lastMessage := now, pi_count := pi_count p + 1\<rparr>)"
    by (simp add: countMessage_def Let_def)
  have "k \<in> set (map fst (sl_peers s))" using map_of_SomeD[OF assms(1)] by force
  then show "map fst (sl_peers (countMessage now k p s)) = map fst (sl_peers s)"
    by (simp add: countMessage_def Let_def putPeer_def update_keys)
  show "squelches (countMessage now k p s) = squelches s"
    using squelches_upd[OF upd] assms by (auto simp: squelches_def fun_eq_iff simp del: map_of_eq_Some_iff)
qed (simp_all add: countMessage_def Let_def)

lemma slot_follows_from:
  assumes "slot_follows X v now s1 calls s'" "squelches s1 = squelches s" "sl_lastSelected s1 = sl_lastSelected s"
    "length (sl_peers s1) = length (sl_peers s)"
  shows "slot_follows X v now s calls s'"
  using assms by (simp add: slot_follows_def)

lemma slot_counted_follows:
  assumes "slot_inv s" "rand_ok R" "map_of (sl_peers s) k = Some p" "\<not> is_squelched p" "sl_state s = SlotCounting"
  shows "\<exists>s' calls. slot_update R now v k s = Some (s', calls) \<and> slot_follows {} v now s calls s'"
proof -
  define p1 where "p1 = p\<lparr>pi_lastMessage := now, pi_count := pi_count p + 1\<rparr>"
  define s3 where "s3 = countMessage now k p s"
  have inv: "al_distinct (sl_peers s)" "distinct (sl_considered s)"
    "peers_inv (map_of (sl_peers s)) (set (sl_considered s)) (unat (sl_reachedThreshold s)) SlotCounting"
    using assms(1,5) by (simp_all add: slot_inv_def)
  note s3 = countMessage_simps[OF assms(3,4), of now, folded s3_def p1_def]
  have p1: "pi_state p1 = pi_state p" "pi_count p1 = pi_count p + 1" by (simp_all add: p1_def)
  have "unat (sl_reachedThreshold s) < 5" using inv(3) by (simp add: peers_inv_def MAX_SELECTED_PEERS_def)
  then have inc: "unat (sl_reachedThreshold s + 1) = unat (sl_reachedThreshold s) + 1" by (simp add: unat_word_ariths)
  have pool: "set (sl_considered s3) = (if MIN_MESSAGE_THRESHOLD < pi_count p1 then insert k (set (sl_considered s)) else set (sl_considered s))"
    and reached: "unat (sl_reachedThreshold s3) =
      (if pi_count p1 = MAX_MESSAGE_THRESHOLD + 1 then unat (sl_reachedThreshold s) + 1 else unat (sl_reachedThreshold s))"
    by (simp_all only: s3(5,6) p1(2) if_distrib[of unat] inc)
  note counted = peers_inv_counted[OF inv(3) assms(3,4) p1, folded pool reached s3(1)]
  have dist: "al_distinct (sl_peers s3)" using inv(1) unfolding s3(2) .
  have len: "length (sl_peers s3) = length (sl_peers s)" using arg_cong[OF s3(2), of length] by simp
  have quiet: "keys_with (map_of (sl_peers s3)) (\<lambda>p. is_squelched p \<and> pi_count p \<noteq> 0) = {}"
    using inv(3) assms(4) p1(1) unfolding s3(1) by (simp add: peers_inv_def keys_with_upd)
  have "slot_follows {} v now s [] (initCounting s3)"
    using initCounting_inv[OF dist counted(4)] by (intro slot_follows_quiet) (simp_all add: initCounting_simps s3)
  moreover have "slot_follows {} v now s [] s3" if "unat (sl_reachedThreshold s3) \<noteq> MAX_SELECTED_PEERS"
    using counted(3)[OF that] dist s3 inv(2) assms(5) by (intro slot_follows_quiet) (simp_all add: slot_inv_def)
  moreover have "\<exists>s' calls. selectPeers R now v s3 = Some (s', calls) \<and> slot_follows {} v now s calls s'"
    using selectPeers_follows[OF assms(2) dist counted(1) quiet counted(4), of now v] slot_follows_from[of "{}" v now s3 _ _ s]
      s3(4,8) len by blast
  ultimately show ?thesis unfolding slot_update_counted[OF assms(3-5)] s3_def[symmetric] Let_def by simp
qed

lemma slot_update_follows:
  assumes "slot_inv s" "rand_ok R"
  shows "\<exists>s' calls. slot_update R now v k s = Some (s', calls) \<and> slot_follows {} v now s calls s'"
proof (cases "map_of (sl_peers s) k")
  case None
  let ?s = "s\<lparr>sl_peers := sl_peers s @ [(k, \<lparr>pi_state = PeerCounting, pi_count = 0, pi_expire = now, pi_lastMessage = now\<rparr>)]\<rparr>"
  have upd: "map_of (sl_peers ?s) = (map_of (sl_peers s))(k \<mapsto> \<lparr>pi_state = PeerCounting, pi_count = 0, pi_expire = now, pi_lastMessage = now\<rparr>)"
    using None by (auto simp: map_add_def fun_eq_iff split: option.splits)
  have "balanced (map_of (sl_peers s))" "al_distinct (sl_peers s)" using assms(1) by (simp_all add: slot_inv_def peers_inv_def)
  then have "slot_inv (initCounting ?s)"
    using None by (intro initCounting_inv, simp add: map_of_eq_None_iff, unfold upd, intro balanced_counting) simp_all
  then have "slot_follows {} v now s [] (initCounting ?s)"
    using squelches_upd[OF upd] None by (intro slot_follows_quiet) (auto simp: initCounting_simps squelches_def)
  then show ?thesis using None by (simp add: slot_update_def)
next
  case (Some p)
  have inv: "al_distinct (sl_peers s)" "distinct (sl_considered s)" "balanced (map_of (sl_peers s))"
    "peers_inv (map_of (sl_peers s)) (set (sl_considered s)) (unat (sl_reachedThreshold s)) (sl_state s)"
    using assms(1) by (simp_all add: slot_inv_def peers_inv_def)
  define p1 where "p1 = p\<lparr>pi_lastMessage := now\<rparr>"
  consider (expired) "is_squelched p" "pi_expire p < now" | (ignored) "\<not> (is_squelched p \<and> pi_expire p < now)" "sl_state s \<noteq> SlotCounting \<or> is_squelched p"
    | (counted) "\<not> is_squelched p" "sl_state s = SlotCounting" by blast
  then show ?thesis
  proof cases
    case expired
    define s1 where "s1 = putPeer k (p\<lparr>pi_state := PeerCounting, pi_lastMessage := now\<rparr>) s"
    have upd: "map_of (sl_peers s1) = (map_of (sl_peers s))(k \<mapsto> p\<lparr>pi_state := PeerCounting, pi_lastMessage := now\<rparr>)"
      by (simp add: s1_def)
    have "balanced (map_of (sl_peers s1))" unfolding upd
      using inv(3) expired Some by (intro balanced_counting) (simp_all del: map_of_eq_Some_iff)
    then have "slot_inv (initCounting s1)" using inv(1) by (intro initCounting_inv) (simp_all add: s1_def)
    then have "slot_follows {} v now s [] (initCounting s1)"
      using squelches_upd[OF upd] expired Some
      by (intro slot_follows_quiet) (auto simp: initCounting_simps squelches_def s1_def simp del: map_of_eq_Some_iff)
    then show ?thesis using Some expired by (simp add: slot_update_def s1_def del: map_of_eq_Some_iff)
  next
    case ignored
    have "slot_inv (putPeer k p1 s)"
      using inv peers_inv_same[OF inv(4) Some, of p1] by (simp add: slot_inv_def p1_def)
    then have "slot_follows {} v now s [] (putPeer k p1 s)"
      using squelches_upd[of "putPeer k p1 s" s k p1] Some
      by (intro slot_follows_quiet) (auto simp: squelches_def p1_def simp del: map_of_eq_Some_iff)
    then show ?thesis using Some ignored by (auto simp: slot_update_def p1_def simp del: map_of_eq_Some_iff)
  next
    case counted
    then show ?thesis by (rule slot_counted_follows[OF assms Some])
  qed
qed

section \<open>Deletion of peers\<close>

lemma peers_inv_all_counting:
  assumes "finite (dom M)" "\<And>k p. M k = Some p \<Longrightarrow> pi_state p = PeerCounting \<and> pi_count p = 0"
  shows "peers_inv M {} 0 SlotCounting"
proof -
  have "keys_with M P = {}" if "\<And>p. pi_state p = PeerCounting \<and> pi_count p = 0 \<Longrightarrow> \<not> P p" for P
    using that assms(2) by (force simp: keys_with_def)
  then show ?thesis using assms(1) by (simp add: peers_inv_def balanced_def relay_constants)
qed

lemma peers_inv_drop:
  assumes "peers_inv M pool reached st" "M k = Some p" "\<not> is_selected p"
  defines "reached' \<equiv> if MAX_MESSAGE_THRESHOLD < pi_count p then reached - 1 else reached"
  shows "pi_state p' = pi_state p \<Longrightarrow> pi_count p' = 0 \<Longrightarrow> peers_inv (M(k \<mapsto> p')) (pool - {k}) reached' st"
    "peers_inv (M(k := None)) (pool - {k}) reached' st"
proof -
  have inv: "finite (dom M)" "pool = keys_with M (\<lambda>p. MIN_MESSAGE_THRESHOLD < pi_count p)"
    "reached = card (keys_with M (\<lambda>p. MAX_MESSAGE_THRESHOLD < pi_count p))" "reached < MAX_SELECTED_PEERS"
    "keys_with M (\<lambda>p. is_squelched p \<and> pi_count p \<noteq> 0) = {}" "balanced M"
    "st = SlotSelected \<longrightarrow> keys_with M (\<lambda>p. pi_state p = PeerCounting) = {} \<and> card (keys_with M is_selected) = MAX_SELECTED_PEERS"
    using assms(1) by (simp_all add: peers_inv_def)
  have sel: "k \<notin> keys_with M is_selected" using assms(2,3) by (simp add: keys_with_iff)
  have reached: "reached' = card (keys_with M (\<lambda>p. MAX_MESSAGE_THRESHOLD < pi_count p) - {k})"
    using inv(3) assms(2) finite_keys_with[OF inv(1)] by (auto simp: reached'_def keys_with_iff)
  have less: "reached' < MAX_SELECTED_PEERS" using inv(4) by (auto simp: reached'_def)
  show "peers_inv (M(k := None)) (pool - {k}) reached' st"
    unfolding peers_inv_def keys_with_del
    using inv reached less sel balanced_delete[OF inv(6), of k] assms(2,3) by simp
  assume p': "pi_state p' = pi_state p" "pi_count p' = 0"
  have same: "keys_with (M(k \<mapsto> p')) P = keys_with M P" if "P p' = P p" for P
    using keys_with_same[of M k p P p'] assms(2) that by simp
  have "keys_with (M(k \<mapsto> p')) P = keys_with M P - {k}" if "\<not> P p'" for P using that by (simp add: keys_with_upd)
  from this[of "\<lambda>p. MIN_MESSAGE_THRESHOLD < pi_count p"] this[of "\<lambda>p. MAX_MESSAGE_THRESHOLD < pi_count p"]
    this[of "\<lambda>p. is_squelched p \<and> pi_count p \<noteq> 0"]
  show "peers_inv (M(k \<mapsto> p')) (pool - {k}) reached' st"
    using inv reached less same[of is_selected] same[of "\<lambda>p. pi_state p \<noteq> PeerCounting"] same[of "\<lambda>p. pi_state p = PeerCounting"] p'
    unfolding peers_inv_def balanced_def by simp
qed

text \<open>The last steps of a deletion, on the peers.\<close>

definition dropPeer :: "int \<Rightarrow> peer_id \<Rightarrow> bool \<Rightarrow> Slot \<Rightarrow> Slot" where
  "dropPeer now k erase s =
     (let s2 = s\<lparr>sl_peers := map (\<lambda>(k', v). (k', if k' = k then v\<lparr>pi_lastMessage := now, pi_count := 0\<rparr> else v)) (sl_peers s)\<rparr>
      in if erase then s2\<lparr>sl_peers := AList.delete k (sl_peers s2)\<rparr> else s2)"

lemma dropPeer_simps:
  "map_of (sl_peers (dropPeer now k erase s)) =
     (map_of (sl_peers s))(k := if erase then None else map_option (\<lambda>v. v\<lparr>pi_lastMessage := now, pi_count := 0\<rparr>) (map_of (sl_peers s) k))"
  "al_distinct (sl_peers s) \<Longrightarrow> al_distinct (sl_peers (dropPeer now k erase s))"
  "sl_considered (dropPeer now k erase s) = sl_considered s" "sl_reachedThreshold (dropPeer now k erase s) = sl_reachedThreshold s"
  "sl_state (dropPeer now k erase s) = sl_state s" "sl_lastSelected (dropPeer now k erase s) = sl_lastSelected s"
  by (auto simp: dropPeer_def Let_def fun_eq_iff delete_conv' option.map_ident
      map_of_map_keyed[of "\<lambda>k' v. if k' = k then v\<lparr>pi_lastMessage := now, pi_count := 0\<rparr> else v"])

lemma slot_deletePeer_eq:
  assumes "map_of (sl_peers s) k = Some p"
  shows "slot_deletePeer now v k erase s =
    (if is_selected p then
       (dropPeer now k erase (s\<lparr>sl_peers := map (\<lambda>(k, v). (k, v\<lparr>pi_state := PeerCounting, pi_count := 0, pi_expire := now\<rparr>)) (sl_peers s),
          sl_considered := [], sl_reachedThreshold := 0, sl_state := SlotCounting\<rparr>),
        map (\<lambda>(k, p). CallUnsquelch v k) (filter (\<lambda>(k, p). is_squelched p) (sl_peers s)))
     else if k \<in> set (sl_considered s) then
       (dropPeer now k erase (s\<lparr>sl_reachedThreshold := (if MAX_MESSAGE_THRESHOLD < pi_count p then sl_reachedThreshold s - 1
            else sl_reachedThreshold s), sl_considered := removeAll k (sl_considered s)\<rparr>), [])
     else (dropPeer now k erase s, []))"
  using assms by (simp add: slot_deletePeer_def dropPeer_def Let_def)

lemma squelches_dropPeer:
  "squelches (dropPeer now k erase s) = (if erase then (squelches s)(k := None) else squelches s)"
  by (auto simp: squelches_def dropPeer_simps fun_eq_iff split: option.splits)

lemma al_keys_dropPeer: "al_keys (sl_peers (dropPeer now k erase s)) = al_keys (sl_peers s) - (if erase then {k} else {})"
proof -
  have "al_keys (map (\<lambda>(k', v). (k', f k' v)) xs) = al_keys xs" for f :: "peer_id \<Rightarrow> PeerInfo \<Rightarrow> PeerInfo" and xs
    by (induction xs) auto
  from this[of "\<lambda>k' v. if k' = k then v\<lparr>pi_lastMessage := now, pi_count := 0\<rparr> else v"] show ?thesis
    by (simp add: dropPeer_def Let_def)
qed

text \<open>
  The effect of a deletion: no squelch begins, and one that ends is announced, apart from the peers in
  \<open>X\<close>, which are gone.
\<close>

definition slot_ends :: "peer_id set \<Rightarrow> PublicKey \<Rightarrow> Slot \<Rightarrow> squelch_call list \<Rightarrow> Slot \<Rightarrow> bool" where
  "slot_ends X v s calls s' \<longleftrightarrow> slot_inv s' \<and> list_all (\<lambda>c. \<exists>k. c = CallUnsquelch v k) calls
     \<and> (\<forall>k t. k \<notin> X \<and> squelches s k = Some t \<longrightarrow> CallUnsquelch v k \<in> set calls \<or> squelches s' k = Some t)
     \<and> sl_lastSelected s' = sl_lastSelected s \<and> (\<forall>k t. squelches s' k = Some t \<longrightarrow> squelches s k = Some t)
     \<and> al_keys (sl_peers s') = al_keys (sl_peers s) - X"

lemma slot_ends_follows: "slot_ends X v s calls s' \<Longrightarrow> slot_follows X v now s calls s'"
  by (auto simp: slot_ends_def slot_follows_def list_all_iff call_ok_def split: squelch_call.splits)

lemma slot_ends_refl: "slot_inv s \<Longrightarrow> slot_ends {} v s [] s"
  by (simp add: slot_ends_def)

lemma slot_ends_trans: "slot_ends {} v s c1 s1 \<Longrightarrow> slot_ends {} v s1 c2 s2 \<Longrightarrow> slot_ends {} v s (c1 @ c2) s2"
  by (auto simp: slot_ends_def)

lemma selected_deleted_ends:
  fixes now :: int
  assumes "al_distinct (sl_peers s)"
  defines "s1 \<equiv> s\<lparr>sl_peers := map (\<lambda>(k, v). (k, v\<lparr>pi_state := PeerCounting, pi_count := 0, pi_expire := now\<rparr>)) (sl_peers s),
     sl_considered := [], sl_reachedThreshold := 0, sl_state := SlotCounting\<rparr>"
  shows "slot_ends (if erase then {k} else {}) v s
    (map (\<lambda>(k, p). CallUnsquelch v k) (filter (\<lambda>(k, p). is_squelched p) (sl_peers s))) (dropPeer now k erase s1)"
proof -
  have M: "map_of (sl_peers s1) k' = map_option (\<lambda>p. p\<lparr>pi_state := PeerCounting, pi_count := 0, pi_expire := now\<rparr>) (map_of (sl_peers s) k')" for k'
    by (simp add: s1_def map_of_map_keyed[of "\<lambda>_ p. p\<lparr>pi_state := PeerCounting, pi_count := 0, pi_expire := now\<rparr>"])
  have "peers_inv (map_of (sl_peers (dropPeer now k erase s1))) {} 0 SlotCounting"
    by (rule peers_inv_all_counting) (auto simp: dropPeer_simps M finite_dom_map_of split: if_splits)
  then have inv: "slot_inv (dropPeer now k erase s1)"
    using assms(1) by (simp add: slot_inv_def dropPeer_simps s1_def)
  have "squelches (dropPeer now k erase s1) k' = None" for k'
    by (auto simp: squelches_dropPeer squelches_def M split: option.splits)
  moreover have "CallUnsquelch v k' \<in> set (map (\<lambda>(k, p). CallUnsquelch v k) (filter (\<lambda>(k, p). is_squelched p) (sl_peers s)))"
    if "squelches s k' = Some t" for k' t
    using that by (force simp: squelches_def dest: map_of_SomeD split: option.splits if_splits)
  moreover have "al_keys (sl_peers s1) = al_keys (sl_peers s)" by (force simp: s1_def)
  ultimately show ?thesis using inv unfolding slot_ends_def al_keys_dropPeer
    by (auto simp: list_all_iff dropPeer_simps s1_def)
qed

lemma unselected_deleted_ends:
  assumes "slot_inv s" "map_of (sl_peers s) k = Some p" "\<not> is_selected p"
  shows "slot_ends (if erase then {k} else {}) v s [] (fst (slot_deletePeer now v k erase s))"
proof -
  define r where "r = (if MAX_MESSAGE_THRESHOLD < pi_count p then sl_reachedThreshold s - 1 else sl_reachedThreshold s)"
  define s1 where "s1 = s\<lparr>sl_reachedThreshold := r, sl_considered := removeAll k (sl_considered s)\<rparr>"
  have inv: "al_distinct (sl_peers s)" "distinct (sl_considered s)"
    "peers_inv (map_of (sl_peers s)) (set (sl_considered s)) (unat (sl_reachedThreshold s)) (sl_state s)"
    using assms(1) by (simp_all add: slot_inv_def)
  have reached: "unat (sl_reachedThreshold s) = card (keys_with (map_of (sl_peers s)) (\<lambda>p. MAX_MESSAGE_THRESHOLD < pi_count p))"
    using inv(3) by (simp add: peers_inv_def)
  have "sl_reachedThreshold s \<noteq> 0" if "MAX_MESSAGE_THRESHOLD < pi_count p"
  proof -
    have "k \<in> keys_with (map_of (sl_peers s)) (\<lambda>p. MAX_MESSAGE_THRESHOLD < pi_count p)" 
      using that assms(2) by (simp add: keys_with_iff del: map_of_eq_Some_iff)
    then have "unat (sl_reachedThreshold s) \<noteq> 0" unfolding reached using finite_keys_with[OF finite_dom_map_of] by (auto simp: card_eq_0_iff)
    then show ?thesis by auto
  qed
  then have r: "unat r = (if MAX_MESSAGE_THRESHOLD < pi_count p then unat (sl_reachedThreshold s) - 1 else unat (sl_reachedThreshold s))"
    by (simp add: r_def unat_minus_one)
  have "set (sl_considered s) = keys_with (map_of (sl_peers s)) (\<lambda>p. MIN_MESSAGE_THRESHOLD < pi_count p)"
    using inv(3) by (simp add: peers_inv_def)
  then have "k \<in> set (sl_considered s)" if "MAX_MESSAGE_THRESHOLD < pi_count p"
    using that assms(2) by (simp add: keys_with_iff relay_constants del: map_of_eq_Some_iff)
  then have eq: "fst (slot_deletePeer now v k erase s) = dropPeer now k erase s1"
    using assms(3) unfolding slot_deletePeer_eq[OF assms(2)] by (auto simp: s1_def r_def)
  have "peers_inv (map_of (sl_peers (dropPeer now k erase s1))) (set (sl_considered s) - {k}) (unat r) (sl_state s)"
    using peers_inv_drop(1)[OF inv(3) assms(2,3), of "p\<lparr>pi_lastMessage := now, pi_count := 0\<rparr>"]
      peers_inv_drop(2)[OF inv(3) assms(2,3)] assms(2) unfolding r[symmetric]
    by (cases erase) (simp_all add: dropPeer_simps s1_def del: map_of_eq_Some_iff)
  then have "slot_inv (dropPeer now k erase s1)"
    using inv(1,2) by (simp add: slot_inv_def dropPeer_simps s1_def distinct_removeAll)
  moreover have "squelches s1 = squelches s" by (simp add: squelches_def s1_def fun_eq_iff)
  moreover have "sl_lastSelected s1 = sl_lastSelected s" "al_keys (sl_peers s1) = al_keys (sl_peers s)" by (simp_all add: s1_def)
  ultimately show ?thesis unfolding eq slot_ends_def al_keys_dropPeer dropPeer_simps(6) squelches_dropPeer by auto
qed

lemma slot_deletePeer_ends:
  assumes "slot_inv s"
  shows "slot_ends (if erase then {k} else {}) v s (snd (slot_deletePeer now v k erase s)) (fst (slot_deletePeer now v k erase s))"
proof (cases "map_of (sl_peers s) k")
  case None
  then have "k \<notin> al_keys (sl_peers s)" "squelches s k = None" 
    by (simp_all add: squelches_def flip: map_of_eq_None_iff)
  then show ?thesis using None assms by (auto simp: slot_deletePeer_def slot_ends_def)
next
  case (Some p)
  show ?thesis
  proof (cases "is_selected p")
    case True
    then show ?thesis using assms selected_deleted_ends[of s] unfolding slot_deletePeer_eq[OF Some] by (simp add: slot_inv_def)
  next
    case False
    then have "snd (slot_deletePeer now v k erase s) = []" unfolding slot_deletePeer_eq[OF Some] by simp
    then show ?thesis using unselected_deleted_ends[OF assms Some False] by simp
  qed
qed

lemma deleteIdlePeer_ends:
  assumes "slot_inv s"
  shows "slot_ends {} v s (snd (deleteIdlePeer now v s)) (fst (deleteIdlePeer now v s))"
proof -
  define f where "f = (\<lambda>k (s, calls). case map_of (sl_peers s) k of None \<Rightarrow> (s, calls)
     | Some p \<Rightarrow> if IDLED < now - pi_lastMessage p then
         let (s', calls') = slot_deletePeer now v k False s in (s', calls @ calls') else (s, calls))"
  have step: "slot_ends {} v s (snd (f k r)) (fst (f k r))" if "slot_ends {} v s (snd r) (fst r)" for k r
  proof -
    have "slot_inv (fst r)" using that by (simp add: slot_ends_def)
    from slot_deletePeer_ends[OF this, of False k v now] show ?thesis
      using that slot_ends_trans by (auto simp: f_def split: prod.splits option.splits)
  qed
  have "slot_ends {} v s (snd (fold f ks r)) (fst (fold f ks r))" if "slot_ends {} v s (snd r) (fst r)" for ks r
    using that by (induction ks arbitrary: r) (simp_all add: step)
  from this[of "(s, [])"] show ?thesis using slot_ends_refl[OF assms] by (simp add: deleteIdlePeer_def f_def)
qed

section \<open>The peers of a slot\<close>

definition slot_ids :: "Slot \<Rightarrow> peer_id set" where
  "slot_ids s = al_keys (sl_peers s)"

lemma slot_ids_initCounting [simp]: "slot_ids (initCounting s) = slot_ids s"
  unfolding slot_ids_def using initCounting_simps(2)[of s] by (metis list.set_map)

lemma slot_ids_putPeer [simp]: "slot_ids (putPeer k p s) = insert k (slot_ids s)"
  by (simp add: slot_ids_def putPeer_def)

lemma slot_ids_append [simp]: "slot_ids (s\<lparr>sl_peers := sl_peers s @ [(k, p)]\<rparr>) = insert k (slot_ids s)"
  by (simp add: slot_ids_def)

lemma selectPeers_ids:
  assumes "selectPeers R now v s = Some (s', calls)"
  shows "slot_ids s' = slot_ids s"
proof -
  have "fst ` (\<lambda>(k, p). (k, squelchedInfo R now sel n k p)) ` set xs = al_keys xs" for sel n xs by force
  then have "slot_ids (s\<lparr>sl_lastSelected := now, sl_peers := map (\<lambda>(k, v). (k, squelchedInfo R now sel n k v)) (sl_peers s),
     sl_considered := [], sl_reachedThreshold := 0, sl_state := SlotSelected\<rparr>) = slot_ids s" for sel n
    by (simp add: slot_ids_def)
  then show ?thesis using assms
    by (auto simp: selectPeers_def squelchPeers_eq assertThat_def split: Option.bind_splits if_splits)
qed

lemma slot_update_ids:
  assumes "slot_update R now v k s = Some (s', calls)"
  shows "slot_ids s' = insert k (slot_ids s)"
proof (cases "map_of (sl_peers s) k")
  case None
  then show ?thesis using assms by (auto simp: slot_update_def)
next
  case (Some p)
  then have k: "insert k (slot_ids s) = slot_ids s" using map_of_SomeD[OF Some] unfolding slot_ids_def by force
  show ?thesis
  proof (cases "is_squelched p \<or> sl_state s \<noteq> SlotCounting")
    case True
    then show ?thesis using assms Some by (auto simp: slot_update_def split: if_splits)
  next
    case False
    then have np: "\<not> is_squelched p" "sl_state s = SlotCounting" by simp_all
    define c where "c = countMessage now k p s"
    have ids: "slot_ids c = slot_ids s"
      using arg_cong[OF countMessage_simps(2)[OF Some np(1), of now], of set] by (simp add: slot_ids_def c_def)
    have "s' = initCounting c \<or> s' = c \<or> selectPeers R now v c = Some (s', calls)"
      using assms unfolding slot_update_counted[OF Some np] Let_def c_def[symmetric] by (metis option.inject prod.inject)
    then have "slot_ids s' = slot_ids c" using selectPeers_ids[of R now v c s' calls] slot_ids_initCounting[of c] by metis
    then show ?thesis unfolding ids k .
  qed
qed

end
