(* ===== verification/Relay_System.thy ===== *)
theory Relay_System
  imports Relay_Inv
begin

text \<open>
  Reduced relaying between a node and its peers: the slots of the node, the squelches that its peers keep
  for their connection to it, and the calls of the squelch handler delivered to them at once. The
  handler is a parameter; \<open>overlayHandler\<close> is the one of the overlay, \<open>documentedHandler\<close> does what
  \<open>SquelchHandler\<close> asks for. A peer that disconnects loses its squelches, as they belong to the
  connection.
\<close>

record relay =
  rl_time :: int
  rl_slots :: Slots
  rl_remote :: "peer_id \<Rightarrow> Squelch"

datatype relay_event =
    RelayMessage int relay_random uint256 PublicKey peer_id
  | PeerGone int peer_id
  | IdleTimer int
  | RelayCheck int peer_id PublicKey

type_synonym squelch_handler = "squelch_call \<Rightarrow> TMSquelch list"

definition newRelay :: relay where
  "newRelay = \<lparr>rl_time = 0, rl_slots = newSlots, rl_remote = \<lambda>_. []\<rparr>"

fun call_target :: "squelch_call \<Rightarrow> peer_id" where
  "call_target (CallSquelch v k d) = k"
| "call_target (CallUnsquelch v k) = k"

fun overlayHandler :: "(peer_id \<Rightarrow> bool) \<Rightarrow> bool \<Rightarrow> squelch_handler" where
  "overlayHandler connected enabled (CallSquelch v k d) = overlay_squelch connected enabled v k d"
| "overlayHandler connected enabled (CallUnsquelch v k) = overlay_unsquelch connected enabled v k"

fun documentedHandler :: squelch_handler where
  "documentedHandler (CallSquelch v k d) = [makeSquelchMessage v True d]"
| "documentedHandler (CallUnsquelch v k) = [makeSquelchMessage v False 0]"

definition receiveAll :: "PublicKey \<Rightarrow> int \<Rightarrow> TMSquelch list \<Rightarrow> Squelch \<Rightarrow> Squelch" where
  "receiveAll own now ms q = fold (\<lambda>m q. snd (onSquelchMessage own now m q)) ms q"

definition deliver ::
  "squelch_handler \<Rightarrow> (peer_id \<Rightarrow> PublicKey) \<Rightarrow> int \<Rightarrow> squelch_call list \<Rightarrow> (peer_id \<Rightarrow> Squelch) \<Rightarrow> peer_id \<Rightarrow> Squelch" where
  "deliver h own now calls Q =
     fold (\<lambda>c Q. let k = call_target c in Q(k := receiveAll (own k) now (h c) (Q k))) calls Q"

fun relay_step :: "squelch_handler \<Rightarrow> (peer_id \<Rightarrow> PublicKey) \<Rightarrow> relay_event \<Rightarrow> relay \<Rightarrow> relay option" where
  "relay_step h own (RelayMessage now R key v k) st = do {
     (S, calls) \<leftarrow> updateSlotAndSquelch R now key v k (rl_slots st);
     Some \<lparr>rl_time = now, rl_slots = S, rl_remote = deliver h own now calls (rl_remote st)\<rparr>
   }"
| "relay_step h own (PeerGone now k) st =
     (let (S, calls) = slots_deletePeer now k True (rl_slots st)
      in Some \<lparr>rl_time = now, rl_slots = S, rl_remote = (deliver h own now calls (rl_remote st))(k := [])\<rparr>)"
| "relay_step h own (IdleTimer now) st =
     (let (S, calls) = deleteIdlePeers now (rl_slots st)
      in Some \<lparr>rl_time = now, rl_slots = S, rl_remote = deliver h own now calls (rl_remote st)\<rparr>)"
| "relay_step h own (RelayCheck now k v) st =
     Some (st\<lparr>rl_time := now, rl_remote := (rl_remote st)(k := snd (expireSquelch now v (rl_remote st k)))\<rparr>)"

text \<open>
  A peer is silent for a validator when its side of the connection holds back the messages that carry the
  key of the validator, as \<open>PeerImp::send\<close> decides with \<open>expireSquelch\<close>. Validations are not among them:
  \<open>send\<close> hands them to the bridge to libp2p before it looks at the squelches.
\<close>

definition silent :: "relay \<Rightarrow> int \<Rightarrow> PublicKey \<Rightarrow> peer_id \<Rightarrow> bool" where
  "silent st now v k \<longleftrightarrow> \<not> fst (expireSquelch now v (rl_remote st k))"

lemma silent_iff: "silent st now v k \<longleftrightarrow> (\<exists>t. map_of (rl_remote st k) v = Some t \<and> now < t)"
  by (auto simp: silent_def expireSquelch_def split: option.splits)

section \<open>What the events rely on\<close>

text \<open>
  The clock does not go back, random numbers are in their range, and the keys of validators are valid.
  The second contract adds that all peers are among a set \<open>D\<close>.
\<close>

fun relay_allowed :: "peer_id set \<Rightarrow> relay_event \<Rightarrow> relay \<Rightarrow> bool" where
  "relay_allowed D (RelayMessage now R key v k) st \<longleftrightarrow> rl_time st \<le> now \<and> rand_ok R \<and> publicKeyType v \<noteq> None \<and> k \<in> D"
| "relay_allowed D (PeerGone now k) st \<longleftrightarrow> rl_time st \<le> now"
| "relay_allowed D (IdleTimer now) st \<longleftrightarrow> rl_time st \<le> now"
| "relay_allowed D (RelayCheck now k v) st \<longleftrightarrow> rl_time st \<le> now"

section \<open>Invariants\<close>

definition slot_time :: "int \<Rightarrow> Slot \<Rightarrow> bool" where
  "slot_time now s \<longleftrightarrow> sl_lastSelected s \<le> now
     \<and> (\<forall>k t. squelches s k = Some t \<longrightarrow> t \<le> sl_lastSelected s + MAX_UNSQUELCH_EXPIRE_DEFAULT)"

definition slots_inv :: "peer_id set \<Rightarrow> Slots \<Rightarrow> bool" where
  "slots_inv D S \<longleftrightarrow> al_distinct (ss_slots S)
     \<and> (\<forall>(v, s) \<in> set (ss_slots S). slot_inv s \<and> slot_ids s \<subseteq> D \<and> publicKeyType v \<noteq> None)"

definition slots_time :: "int \<Rightarrow> Slots \<Rightarrow> bool" where
  "slots_time now S \<longleftrightarrow> (\<forall>(v, s) \<in> set (ss_slots S). slot_time now s)"

text \<open>The squelches of all slots, by validator and peer.\<close>

definition all_squelches :: "Slots \<Rightarrow> PublicKey \<Rightarrow> peer_id \<rightharpoonup> int" where
  "all_squelches S v k = (case map_of (ss_slots S) v of None \<Rightarrow> None | Some s \<Rightarrow> squelches s k)"

fun call_valid :: "squelch_call \<Rightarrow> bool" where
  "call_valid (CallSquelch v k d) \<longleftrightarrow> publicKeyType v \<noteq> None"
| "call_valid (CallUnsquelch v k) \<longleftrightarrow> publicKeyType v \<noteq> None"

text \<open>What an operation on the slots does to the squelches, as for one slot.\<close>

definition slots_follow :: "peer_id set \<Rightarrow> int \<Rightarrow> Slots \<Rightarrow> squelch_call list \<Rightarrow> Slots \<Rightarrow> bool" where
  "slots_follow X now S calls S' \<longleftrightarrow>
     (\<forall>c \<in> set calls. call_valid c)
     \<and> (\<forall>v k d. CallSquelch v k d \<in> set calls \<longrightarrow> all_squelches S' v k = Some (now + uint d))
     \<and> (\<forall>v k t. k \<notin> X \<and> all_squelches S v k = Some t \<and> now < t \<longrightarrow>
          CallUnsquelch v k \<in> set calls \<or> all_squelches S' v k = Some t)"

section \<open>Messages\<close>

lemma newSlot_inv: "slot_inv (newSlot now)" "slot_ids (newSlot now) = {}" "squelches (newSlot now) = (\<lambda>_. None)"
  "sl_lastSelected (newSlot now) = now"
  by (auto simp: newSlot_def slot_inv_def peers_inv_def balanced_def keys_with_def MAX_SELECTED_PEERS_def slot_ids_def squelches_def)

lemma squelchMax_small: "n \<le> 60 \<Longrightarrow> squelchMax n = MAX_UNSQUELCH_EXPIRE_DEFAULT"
  by (simp add: squelchMax_def relay_constants)

lemma newSlot_time: "slot_time now (newSlot now)"
  by (simp add: slot_time_def newSlot_inv)

lemma slots_timeD: "slots_time now S \<Longrightarrow> map_of (ss_slots S) v = Some s \<Longrightarrow> slot_time now s"
  by (auto simp: slots_time_def dest: map_of_SomeD)

lemma slot_time_later: "slot_time t0 s \<Longrightarrow> t0 \<le> now \<Longrightarrow> slot_time now s"
  by (auto simp: slot_time_def)

lemma slot_time_follows:
  assumes "slot_follows X v now s calls s'" "slot_time t0 s" "t0 \<le> now" "length (sl_peers s) \<le> 65"
  shows "slot_time now s'"
proof -
  have "squelchMax (length (sl_peers s) - MAX_SELECTED_PEERS) = MAX_UNSQUELCH_EXPIRE_DEFAULT"
    using assms(4) by (intro squelchMax_small) (simp add: MAX_SELECTED_PEERS_def)
  then show ?thesis using assms(1-3) unfolding slot_follows_def slot_time_def by fastforce
qed

lemma slot_peers_bound:
  assumes "slot_inv s" "slot_ids s \<subseteq> D" "finite D" "card D \<le> 65"
  shows "length (sl_peers s) \<le> 65"
proof -
  have "length (sl_peers s) = card (slot_ids s)"
    using assms(1) distinct_card[of "map fst (sl_peers s)"] by (simp add: slot_inv_def slot_ids_def)
  also have "\<dots> \<le> 65" using card_mono[OF assms(3,2)] assms(4) by simp
  finally show ?thesis .
qed

lemma addPeerMessage_slots: "ss_slots (snd (addPeerMessage now key k S)) = ss_slots S"
  by (auto simp: addPeerMessage_def Let_def split: option.splits)

lemma map_of_slotD:
  assumes "slots_inv D S" "map_of (ss_slots S) v = Some s"
  shows "slot_inv s" "slot_ids s \<subseteq> D" "publicKeyType v \<noteq> None"
  using assms map_of_SomeD[OF assms(2)] by (auto simp: slots_inv_def)

lemma slots_inv_update:
  assumes "slots_inv D S" "slot_inv s'" "slot_ids s' \<subseteq> D" "publicKeyType v \<noteq> None"
  shows "slots_inv D (S\<lparr>ss_slots := AList.update v s' (ss_slots S)\<rparr>)"
  using assms by (auto simp: slots_inv_def dest!: set_update_cases)

lemma slots_follow_same: "ss_slots S' = ss_slots S \<Longrightarrow> slots_follow X now S [] S'"
  by (simp add: slots_follow_def all_squelches_def)

lemma slots_follow_update:
  assumes "slot_follows {} v now (case map_of (ss_slots S) v of None \<Rightarrow> newSlot now | Some s \<Rightarrow> s) calls s'" "publicKeyType v \<noteq> None"
    and "ss_slots S' = AList.update v s' (ss_slots S)"
  shows "slots_follow {} now S calls S'"
proof -
  have S': "all_squelches S' u k = (if u = v then squelches s' k else all_squelches S u k)" for u k
    using assms(3) by (simp add: all_squelches_def update_conv')
  have S: "all_squelches S v k = squelches (case map_of (ss_slots S) v of None \<Rightarrow> newSlot now | Some s \<Rightarrow> s) k" for k
    by (simp add: all_squelches_def newSlot_inv split: option.splits)
  have ok: "call_ok v now s' c" if "c \<in> set calls" for c
    using that assms(1) unfolding slot_follows_def list_all_iff by blast
  have "call_valid c" if "c \<in> set calls" for c using ok[OF that] assms(2) by (cases c) (auto simp: call_ok_def)
  moreover have "all_squelches S' u k = Some (now + uint d)" if "CallSquelch u k d \<in> set calls" for u k d
    using ok[OF that] by (simp add: call_ok_def S')
  moreover have "CallUnsquelch u k \<in> set calls \<or> all_squelches S' u k = Some t"
    if "all_squelches S u k = Some t" "now < t" for u k t
    using that assms(1) unfolding slot_follows_def S' by (cases "u = v") (simp_all add: S)
  ultimately show ?thesis unfolding slots_follow_def by blast
qed

text \<open>What is shown of an operation on the slots that turns \<open>S\<close> into \<open>S'\<close>.\<close>

definition slots_ok :: "peer_id set \<Rightarrow> peer_id set \<Rightarrow> int \<Rightarrow> int \<Rightarrow> Slots \<Rightarrow> squelch_call list \<Rightarrow> Slots \<Rightarrow> bool" where
  "slots_ok D X t0 now S calls S' \<longleftrightarrow> slots_inv D S'
     \<and> (slots_time t0 S \<and> finite D \<and> card D \<le> 65 \<longrightarrow> slots_time now S' \<and> slots_follow X now S calls S')"

lemma updateSlotAndSquelch_ok:
  assumes "slots_inv D S" "rand_ok R" "publicKeyType v \<noteq> None" "k \<in> D" "t0 \<le> now"
  shows "\<exists>S' calls. updateSlotAndSquelch R now key v k S = Some (S', calls) \<and> slots_ok D {} t0 now S calls S'"
proof -
  obtain added S1 where S1: "addPeerMessage now key k S = (added, S1)" by (cases "addPeerMessage now key k S")
  then have slots: "ss_slots S1 = ss_slots S" using addPeerMessage_slots[of now key k S] by simp
  then have inv: "slots_inv D S1" using assms(1) by (simp add: slots_inv_def)
  define s where "s = (case map_of (ss_slots S1) v of None \<Rightarrow> newSlot now | Some s \<Rightarrow> s)"
  have s: "slot_inv s" "slot_ids s \<subseteq> D" using map_of_slotD[OF inv, of v] newSlot_inv[of now] by (auto simp: s_def split: option.splits)
  obtain s' calls where s': "slot_update R now v k s = Some (s', calls)" "slot_follows {} v now s calls s'"
    using slot_update_follows[OF s(1) assms(2), of now v k] by blast
  let ?S' = "S1\<lparr>ss_slots := AList.update v s' (ss_slots S1)\<rparr>"
  have later: "slots_time now S1" if "slots_time t0 S" using that slots assms(5) slot_time_later by (force simp: slots_time_def)
  have "slots_inv D ?S'"
    using inv s' slot_update_ids[OF s'(1)] s(2) assms(3,4) by (intro slots_inv_update) (auto simp: slot_follows_def)
  moreover have "slots_time now ?S'" if "slots_time t0 S" "finite D" "card D \<le> 65"
  proof -
    have "slot_time now s" using slots_timeD[OF later[OF that(1)]] newSlot_time by (simp add: s_def split: option.splits)
    then have "slot_time now s'" using slot_time_follows[OF s'(2)] slot_peers_bound[OF s that(2,3)] by blast
    then show ?thesis using later[OF that(1)] by (auto simp: slots_time_def dest!: set_update_cases)
  qed
  moreover have "slots_follow {} now S calls ?S'"
    using s'(2) assms(3) slots by (intro slots_follow_update[of v now S calls s']) (simp_all add: s_def)
  moreover have "slots_ok D {} t0 now S [] S1"
    using inv later slots_follow_same[OF slots] by (simp add: slots_ok_def)
  ultimately show ?thesis unfolding updateSlotAndSquelch_def S1 Let_def
    by (cases added) (simp_all add: s_def[symmetric] s'(1) slots_ok_def)
qed

section \<open>Deletions\<close>

text \<open>A deletion treats each slot on its own, and keeps a slot unless none of its squelches runs.\<close>

lemma slot_ends_time:
  assumes "slot_ends X v s calls s'" "slot_time t0 s" "t0 \<le> now"
  shows "slot_time now s'"
  using assms unfolding slot_ends_def slot_time_def by (metis order_trans)

lemma slots_map_follow:
  assumes old: "\<And>v s. (v, s) \<in> set (ss_slots S) \<Longrightarrow> publicKeyType v \<noteq> None \<and> slot_ends X v s (g v s) (f v s) \<and> slot_time now (f v s)"
    and S': "ss_slots S' = filter (\<lambda>(v, s). keep s) (map (\<lambda>(v, s). (v, f v s)) (ss_slots S))" "al_distinct (ss_slots S')"
    and calls: "calls = concat (map (\<lambda>(v, s). g v s) (ss_slots S))"
    and keep: "\<And>s k t. slot_time now s \<Longrightarrow> \<not> keep s \<Longrightarrow> squelches s k = Some t \<Longrightarrow> t \<le> now"
  shows "slots_follow X now S calls S'"
proof -
  have call: "\<exists>v k. c = CallUnsquelch v k \<and> publicKeyType v \<noteq> None" if c: "c \<in> set calls" for c
  proof -
    obtain v s where vs: "(v, s) \<in> set (ss_slots S)" "c \<in> set (g v s)" using c unfolding calls by auto
    then show ?thesis using old[OF vs(1)] by (auto simp: slot_ends_def list_all_iff)
  qed
  have "CallUnsquelch v k \<in> set calls \<or> all_squelches S' v k = Some t"
    if run: "k \<notin> X" "all_squelches S v k = Some t" "now < t" for v k t
  proof -
    obtain s where s: "map_of (ss_slots S) v = Some s" "squelches s k = Some t"
      using run(2) by (auto simp: all_squelches_def split: option.splits)
    note vs = map_of_SomeD[OF s(1)]
    have "CallUnsquelch v k \<in> set (g v s) \<or> squelches (f v s) k = Some t"
      using old[OF vs] s(2) run(1) unfolding slot_ends_def by blast
    moreover have "set (g v s) \<subseteq> set calls" using vs unfolding calls by auto
    moreover have "all_squelches S' v k = Some t" if "squelches (f v s) k = Some t"
    proof -
      have "keep (f v s)" using keep[of "f v s" k t] old[OF vs] that run(3) by force
      then have "(v, f v s) \<in> set (ss_slots S')" using vs unfolding S'(1) by force
      then show ?thesis using S'(2) that by (simp add: all_squelches_def)
    qed
    ultimately show ?thesis by blast
  qed
  then show ?thesis using call unfolding slots_follow_def by (auto split: squelch_call.splits dest: call)
qed

lemma slots_map_ok:
  assumes inv: "slots_inv D S" and "t0 \<le> now"
    and ends: "\<And>v s. slot_inv s \<Longrightarrow> slot_ends X v s (g v s) (f v s)"
    and S': "ss_slots S' = filter (\<lambda>(v, s). keep s) (map (\<lambda>(v, s). (v, f v s)) (ss_slots S))"
    and calls: "calls = concat (map (\<lambda>(v, s). g v s) (ss_slots S))"
    and keep: "\<And>s k t. slot_time now s \<Longrightarrow> \<not> keep s \<Longrightarrow> squelches s k = Some t \<Longrightarrow> t \<le> now"
  shows "slots_ok D X t0 now S calls S'"
proof -
  have old: "slot_ids s \<subseteq> D" "publicKeyType v \<noteq> None" "slot_ends X v s (g v s) (f v s)"
    if "(v, s) \<in> set (ss_slots S)" for v s
    using inv that ends[of s v] unfolding slots_inv_def by blast+
  have new: "\<exists>s. (v, s) \<in> set (ss_slots S) \<and> s' = f v s" if "(v, s') \<in> set (ss_slots S')" for v s'
    using that unfolding S' by auto
  have ids: "slot_inv (f v s) \<and> slot_ids (f v s) \<subseteq> D" if "(v, s) \<in> set (ss_slots S)" for v s
    using old(1,3)[OF that] unfolding slot_ends_def slot_ids_def by blast
  have time: "slot_time now (f v s)" if "slots_time t0 S" "(v, s) \<in> set (ss_slots S)" for v s
    using that slot_ends_time[OF old(3)[OF that(2)] _ assms(2)] unfolding slots_time_def by blast
  have "al_distinct (ss_slots S)" using inv by (simp add: slots_inv_def)
  then have dist: "al_distinct (ss_slots S')" unfolding S' by (intro distinct_map_filter) simp
  then have inv': "slots_inv D S'" using new ids old(2) unfolding slots_inv_def by blast
  have "slots_time now S'" if "slots_time t0 S" using new time[OF that] unfolding slots_time_def by blast
  moreover have "slots_follow X now S calls S'" if "slots_time t0 S"
    by (rule slots_map_follow[OF _ S' dist calls]) (use time[OF that] old(2,3) keep in blast)+
  ultimately show ?thesis using inv' by (simp add: slots_ok_def)
qed

lemma slots_deletePeer_ok:
  assumes "slots_inv D S" "t0 \<le> now"
  shows "slots_ok D (if erase then {k} else {}) t0 now S (snd (slots_deletePeer now k erase S)) (fst (slots_deletePeer now k erase S))"
  by (rule slots_map_ok[where keep = "\<lambda>_. True", OF assms slot_deletePeer_ends]) (simp_all add: slots_deletePeer_def)

lemma deleteIdlePeers_ok:
  assumes "slots_inv D S" "t0 \<le> now"
  shows "slots_ok D {} t0 now S (snd (deleteIdlePeers now S)) (fst (deleteIdlePeers now S))"
proof (rule slots_map_ok[OF assms deleteIdlePeer_ends])
  show "ss_slots (fst (deleteIdlePeers now S)) =
      filter (\<lambda>(v, s). \<not> MAX_UNSQUELCH_EXPIRE_DEFAULT < now - sl_lastSelected s)
        (map (\<lambda>(v, s). (v, fst (deleteIdlePeer now v s))) (ss_slots S))"
    by (simp add: deleteIdlePeers_def)
  show "t \<le> now" if "slot_time now s" "\<not> \<not> MAX_UNSQUELCH_EXPIRE_DEFAULT < now - sl_lastSelected s" "squelches s k = Some t" for s k t
    using that unfolding slot_time_def by fastforce
qed (simp_all add: deleteIdlePeers_def)

section \<open>Delivery\<close>

lemma deliver_Nil [simp]: "deliver h own now [] Q = Q"
  and deliver_Cons: "deliver h own now (c # cs) Q =
    deliver h own now cs (Q(call_target c := receiveAll (own (call_target c)) now (h c) (Q (call_target c))))"
  by (simp_all add: deliver_def Let_def)

text \<open>Calls delivered as documented, and what they do to the entry for a validator.\<close>

lemma receive_documented:
  assumes "call_valid c" "map_of (receiveAll own now (documentedHandler c) q) v = Some t"
  shows "(\<exists>d. c = CallSquelch v (call_target c) d \<and> t = now + uint d \<and> v \<noteq> own)
    \<or> map_of q v = Some t \<and> (c = CallUnsquelch v (call_target c) \<longrightarrow> v = own)"
  using assms by (cases c) (auto simp: receiveAll_def onSquelchMessage_def makeSquelchMessage_def addSquelch_def
      removeSquelch_def update_conv' delete_conv' Let_def split: if_splits prod.splits)

lemma deliver_documented:
  assumes "\<forall>c \<in> set calls. call_valid c" "map_of (deliver documentedHandler own now calls Q k) v = Some t"
  shows "(\<exists>d. CallSquelch v k d \<in> set calls \<and> t = now + uint d \<and> v \<noteq> own k)
    \<or> map_of (Q k) v = Some t \<and> (CallUnsquelch v k \<in> set calls \<longrightarrow> v = own k)"
  using assms
proof (induction calls arbitrary: Q)
  case (Cons c cs)
  define q where "q = receiveAll (own (call_target c)) now (documentedHandler c) (Q (call_target c))"
  have "\<forall>c \<in> set cs. call_valid c" using Cons.prems(1) by simp
  moreover have "map_of (deliver documentedHandler own now cs (Q(call_target c := q)) k) v = Some t"
    using Cons.prems(2) unfolding deliver_Cons q_def .
  ultimately have IH: "(\<exists>d. CallSquelch v k d \<in> set cs \<and> t = now + uint d \<and> v \<noteq> own k)
      \<or> map_of ((Q(call_target c := q)) k) v = Some t \<and> (CallUnsquelch v k \<in> set cs \<longrightarrow> v = own k)"
    by (rule Cons.IH)
  show ?case
  proof (cases "call_target c = k")
    case True
    with IH receive_documented[of c "own k" now "Q k" v t] Cons.prems(1) show ?thesis by (cases c) (auto simp: q_def)
  next
    case False
    with IH show ?thesis by auto
  qed
qed simp

section \<open>Steps\<close>

definition relay_inv :: "peer_id set \<Rightarrow> relay \<Rightarrow> bool" where
  "relay_inv D st \<longleftrightarrow> slots_inv D (rl_slots st)"

text \<open>A squelch that runs at a peer is one of the slots.\<close>

definition linked :: "(peer_id \<Rightarrow> PublicKey) \<Rightarrow> int \<Rightarrow> Slots \<Rightarrow> (peer_id \<Rightarrow> Squelch) \<Rightarrow> bool" where
  "linked own now S Q \<longleftrightarrow> (\<forall>k. map_of (Q k) (own k) = None)
     \<and> (\<forall>v k t. map_of (Q k) v = Some t \<and> now < t \<longrightarrow> all_squelches S v k = Some t)"

definition relay_linked :: "peer_id set \<Rightarrow> (peer_id \<Rightarrow> PublicKey) \<Rightarrow> relay \<Rightarrow> bool" where
  "relay_linked D own st \<longleftrightarrow> relay_inv D st \<and> slots_time (rl_time st) (rl_slots st)
     \<and> linked own (rl_time st) (rl_slots st) (rl_remote st)"

lemma linked_deliver:
  assumes "linked own t0 S Q" "t0 \<le> now" "slots_follow X now S calls S'"
    and gone: "\<And>k. Q' k = deliver documentedHandler own now calls Q k \<or> Q' k = [] " "\<And>k. k \<in> X \<Longrightarrow> Q' k = []"
  shows "linked own now S' Q'"
proof -
  have valid: "\<forall>c \<in> set calls. call_valid c" using assms(3) by (simp add: slots_follow_def)
  note effect = deliver_documented[OF valid, of own now Q]
  have "map_of (Q' k) (own k) = None" for k
    using gone(1)[of k] effect[of k "own k"] assms(1) by (cases "map_of (Q' k) (own k)") (auto simp: linked_def)
  moreover have "all_squelches S' v k = Some t" if t: "map_of (Q' k) v = Some t" "now < t" for v k t
  proof -
    have k: "k \<notin> X" "map_of (deliver documentedHandler own now calls Q k) v = Some t" using t(1) gone(1)[of k] gone(2)[of k] by auto
    from effect[OF k(2)] show ?thesis
    proof (elim disjE exE conjE)
      fix d assume "CallSquelch v k d \<in> set calls" "t = now + uint d"
      then show ?thesis using assms(3) unfolding slots_follow_def by blast
    next
      assume old: "map_of (Q k) v = Some t" "CallUnsquelch v k \<in> set calls \<longrightarrow> v = own k"
      then have "all_squelches S v k = Some t" "v \<noteq> own k" using assms(1,2) t(2) unfolding linked_def by (blast intro: le_less_trans, force)
      then show ?thesis using old(2) assms(3) k(1) t(2) unfolding slots_follow_def by blast
    qed
  qed
  ultimately show ?thesis by (simp add: linked_def)
qed

lemma map_of_expireSquelch:
  "map_of (snd (expireSquelch now v q)) u = Some t \<Longrightarrow> map_of q u = Some t"
  by (auto simp: expireSquelch_def delete_conv' split: option.splits if_splits)

text \<open>Every event that is allowed has a next state, for any handler.\<close>

lemma relay_step_total:
  assumes "relay_inv D st" "relay_allowed D ev st"
  shows "\<exists>st'. relay_step h own ev st = Some st' \<and> relay_inv D st'"
proof (cases ev)
  case (RelayMessage now R key v k)
  then show ?thesis
    using assms updateSlotAndSquelch_ok[of D "rl_slots st" R v k "rl_time st" now key] by (auto simp: relay_inv_def slots_ok_def)
next
  case (PeerGone now k)
  then show ?thesis using assms slots_deletePeer_ok[of D "rl_slots st" "rl_time st" now True k]
    by (auto simp: relay_inv_def slots_ok_def split: prod.splits)
next
  case (IdleTimer now)
  then show ?thesis using assms deleteIdlePeers_ok[of D "rl_slots st" "rl_time st" now]
    by (auto simp: relay_inv_def slots_ok_def split: prod.splits)
qed (use assms in \<open>simp add: relay_inv_def\<close>)

text \<open>With at most 65 peers and the documented handler the peers stay linked to the slots.\<close>

lemma relay_linked_deliver:
  assumes "relay_linked D own st" "finite D" "card D \<le> 65"
    and ok: "slots_ok D X (rl_time st) now (rl_slots st) calls S'" and "rl_time st \<le> now"
    and "\<And>k. Q' k = deliver documentedHandler own now calls (rl_remote st) k \<or> Q' k = []" "\<And>k. k \<in> X \<Longrightarrow> Q' k = []"
  shows "relay_linked D own \<lparr>rl_time = now, rl_slots = S', rl_remote = Q'\<rparr>"
proof -
  have S': "slots_inv D S'" "slots_time now S'" "slots_follow X now (rl_slots st) calls S'"
    using assms(1-4) by (auto simp: slots_ok_def relay_linked_def)
  have "linked own (rl_time st) (rl_slots st) (rl_remote st)" using assms(1) by (simp add: relay_linked_def)
  then have "linked own now S' Q'" by (rule linked_deliver[OF _ assms(5) S'(3) assms(6,7)])
  with S'(1,2) show ?thesis by (simp add: relay_linked_def relay_inv_def)
qed

lemma relay_linked_check:
  assumes "relay_linked D own st" "rl_time st \<le> now"
  shows "relay_linked D own (st\<lparr>rl_time := now, rl_remote := (rl_remote st)(k := snd (expireSquelch now v (rl_remote st k)))\<rparr>)"
proof -
  have inv: "relay_inv D st" "slots_time (rl_time st) (rl_slots st)" "linked own (rl_time st) (rl_slots st) (rl_remote st)"
    using assms(1) by (auto simp: relay_linked_def)
  let ?Q = "(rl_remote st)(k := snd (expireSquelch now v (rl_remote st k)))"
  have less: "map_of (rl_remote st k') u = Some t" if "map_of (?Q k') u = Some t" for k' u t
    using that map_of_expireSquelch[of now v "rl_remote st k" u t] by (cases "k' = k") auto
  have "slots_time now (rl_slots st)" using inv(2) slot_time_later[OF _ assms(2)] unfolding slots_time_def by blast
  moreover have "linked own now (rl_slots st) ?Q" unfolding linked_def
  proof (intro conjI allI impI)
    show "map_of (?Q k') (own k') = None" for k'
      using less[of k' "own k'"] inv(3) unfolding linked_def by (metis option.exhaust option.distinct(1))
    show "all_squelches (rl_slots st) u k' = Some t" if "map_of (?Q k') u = Some t \<and> now < t" for u k' t
      using less[of k' u t] that inv(3) assms(2) unfolding linked_def by (metis le_less_trans)
  qed
  ultimately show ?thesis using inv(1) by (simp add: relay_linked_def relay_inv_def)
qed

lemma relay_step_linked:
  assumes "relay_linked D own st" "relay_allowed D ev st" "finite D" "card D \<le> 65"
  shows "\<exists>st'. relay_step documentedHandler own ev st = Some st' \<and> relay_linked D own st'"
proof -
  have inv: "slots_inv D (rl_slots st)" using assms(1) by (simp add: relay_linked_def relay_inv_def)
  note finish = relay_linked_deliver[OF assms(1,3,4)]
  show ?thesis
  proof (cases ev)
    case (RelayMessage now R key v k)
    then obtain S' calls where "updateSlotAndSquelch R now key v k (rl_slots st) = Some (S', calls)"
      "slots_ok D {} (rl_time st) now (rl_slots st) calls S'"
      using assms(2) inv updateSlotAndSquelch_ok[of D "rl_slots st" R v k "rl_time st" now key] by auto
    with finish[OF this(2)] RelayMessage assms(2) show ?thesis by simp
  next
    case (PeerGone now k)
    obtain S' calls where S': "slots_deletePeer now k True (rl_slots st) = (S', calls)" by fastforce
    moreover have "slots_ok D {k} (rl_time st) now (rl_slots st) calls S'"
      using slots_deletePeer_ok[OF inv, of "rl_time st" now True k] PeerGone assms(2) S' by simp
    ultimately show ?thesis using finish[of "{k}" now calls S'] PeerGone assms(2) by simp
  next
    case (IdleTimer now)
    obtain S' calls where S': "deleteIdlePeers now (rl_slots st) = (S', calls)" by fastforce
    moreover have "slots_ok D {} (rl_time st) now (rl_slots st) calls S'"
      using deleteIdlePeers_ok[OF inv, of "rl_time st" now] IdleTimer assms(2) S' by simp
    ultimately show ?thesis using finish[of "{}" now calls S'] IdleTimer assms(2) by simp
  qed (use assms(2) relay_linked_check[OF assms(1)] in simp)
qed

end
