(* ===== verification/Relay_Props.thy ===== *)
theory Relay_Props
  imports Relay_System
begin

text \<open>
  The properties of reduced relaying: the slots keep their invariant under every sequence of events; when
  the squelch handler does what its interface says, a peer is silent for a validator only while five
  selected peers are not; and the handler of the overlay silences nobody.
\<close>

section \<open>Components\<close>

interpretation relay: invariant_component "relay_step h own" "relay_inv D" "relay_allowed D"
  using relay_step_total by unfold_locales

definition relay_small :: "peer_id set \<Rightarrow> (peer_id \<Rightarrow> PublicKey) \<Rightarrow> relay \<Rightarrow> bool" where
  "relay_small D own st \<longleftrightarrow> finite D \<and> card D \<le> 65 \<and> relay_linked D own st"

interpretation documented: invariant_component "relay_step documentedHandler own" "relay_small D own" "relay_allowed D"
  using relay_step_linked by unfold_locales (auto simp: relay_small_def)

definition relay_deaf :: "relay \<Rightarrow> bool" where
  "relay_deaf st \<longleftrightarrow> relay_inv UNIV st \<and> (\<forall>k. rl_remote st k = [])"

lemma overlay_squelch_refused:
  assumes "m \<in> set (overlay_squelch connected enabled v k d)"
  shows "onSquelchMessage own now m q = (True, q)"
  using assms by (auto simp: overlay_squelch_def makeSquelchMessage_def keyBytes_def onSquelchMessage_def publicKeyType_def Let_def
      split: if_splits)

lemma receive_overlay: "receiveAll own now (overlayHandler connected enabled c) [] = []"
proof (cases c)
  case (CallSquelch v k d)
  have "fold (\<lambda>m q. snd (onSquelchMessage own now m q)) ms [] = []"
    if "\<forall>m \<in> set ms. \<forall>q. onSquelchMessage own now m q = (True, q)" for ms
    using that by (induction ms) auto
  then show ?thesis using CallSquelch overlay_squelch_refused by (simp add: receiveAll_def)
next
  case (CallUnsquelch v k)
  then show ?thesis
    by (simp add: receiveAll_def overlay_unsquelch_def makeSquelchMessage_def onSquelchMessage_def removeSquelch_def Let_def)
qed

lemma deliver_overlay:
  assumes "\<And>k. Q k = []"
  shows "deliver (overlayHandler connected enabled) own now calls Q k = []"
  using assms
proof (induction calls arbitrary: Q)
  case (Cons c cs)
  have "deliver (overlayHandler connected enabled) own now cs (Q(call_target c :=
      receiveAll (own (call_target c)) now (overlayHandler connected enabled c) (Q (call_target c)))) k = []"
    by (rule Cons.IH) (simp add: Cons.prems receive_overlay)
  then show ?case unfolding deliver_Cons .
qed simp

lemma relay_step_deaf:
  assumes "relay_deaf st" "relay_allowed UNIV ev st"
  shows "\<exists>st'. relay_step (overlayHandler connected enabled) own ev st = Some st' \<and> relay_deaf st'"
proof -
  have quiet: "rl_remote st k = []" for k using assms(1) by (simp add: relay_deaf_def)
  obtain st' where st': "relay_step (overlayHandler connected enabled) own ev st = Some st'" "relay_inv UNIV st'"
    using relay_step_total[of UNIV st ev] assms unfolding relay_deaf_def by blast
  have "rl_remote st' k = []" for k
    using st'(1) quiet deliver_overlay[of "rl_remote st", OF quiet]
    by (cases ev) (auto simp: expireSquelch_def split: Option.bind_splits prod.splits)
  with st' show ?thesis by (simp add: relay_deaf_def)
qed

interpretation overlay: invariant_component "relay_step (overlayHandler connected enabled) own" relay_deaf "relay_allowed UNIV"
  using relay_step_deaf by unfold_locales

lemma newRelay_inv: "relay_inv D newRelay" "relay_linked D own newRelay" "relay_deaf newRelay"
  by (simp_all add: relay_inv_def relay_linked_def relay_deaf_def slots_inv_def slots_time_def linked_def newRelay_def newSlots_def)

section \<open>The selected peers\<close>

lemma slot_getSelected_set:
  assumes "slot_inv s"
  shows "set (slot_getSelected s) = keys_with (map_of (sl_peers s)) is_selected" "distinct (slot_getSelected s)"
proof -
  have dist: "al_distinct (sl_peers s)" using assms by (simp add: slot_inv_def)
  then show "set (slot_getSelected s) = keys_with (map_of (sl_peers s)) is_selected"
    by (force simp: slot_getSelected_def keys_with_def)
  show "distinct (slot_getSelected s)" using dist unfolding slot_getSelected_def by (rule distinct_map_filter)
qed

lemma slot_selected_five:
  assumes "slot_inv s" "squelches s k \<noteq> None"
  shows "length (slot_getSelected s) = MAX_SELECTED_PEERS"
proof -
  have "k \<in> keys_with (map_of (sl_peers s)) (\<lambda>p. pi_state p \<noteq> PeerCounting)"
    using assms(2) by (auto simp: squelches_def keys_with_def split: option.splits if_splits)
  then have "card (keys_with (map_of (sl_peers s)) is_selected) = MAX_SELECTED_PEERS"
    using assms(1) by (auto simp: slot_inv_def peers_inv_def balanced_def)
  then show ?thesis using slot_getSelected_set[OF assms(1)] distinct_card by metis
qed


lemma squelches_not_selected:
  assumes "slot_inv s" "k \<in> set (slot_getSelected s)"
  shows "squelches s k = None"
  using assms(2) unfolding slot_getSelected_set(1)[OF assms(1)] by (auto simp: squelches_def keys_with_def)

lemma silent_squelched:
  assumes "relay_linked D own st" "rl_time st \<le> now" "silent st now v k"
  shows "\<exists>s t. map_of (ss_slots (rl_slots st)) v = Some s \<and> slot_inv s \<and> squelches s k = Some t \<and> now < t"
proof -
  obtain t where t: "map_of (rl_remote st k) v = Some t" "now < t" using assms(3) by (auto simp: silent_iff)
  then have "all_squelches (rl_slots st) v k = Some t"
    using assms(1,2) unfolding relay_linked_def linked_def by (meson le_less_trans)
  then obtain s where s: "map_of (ss_slots (rl_slots st)) v = Some s" "squelches s k = Some t"
    by (auto simp: all_squelches_def split: option.splits)
  moreover have "slot_inv s"
    using assms(1) map_of_SomeD[OF s(1)] by (auto simp: relay_linked_def relay_inv_def slots_inv_def)
  ultimately show ?thesis using t(2) by blast
qed

lemma selected_not_silent:
  assumes "relay_linked D own st" "rl_time st \<le> now" "map_of (ss_slots (rl_slots st)) v = Some s"
    "slot_inv s" "k \<in> set (slot_getSelected s)"
  shows "\<not> silent st now v k"
  using silent_squelched[OF assms(1,2), of v k] squelches_not_selected[OF assms(4,5)] assms(3) by auto

definition silence_covered :: "relay \<Rightarrow> int \<Rightarrow> PublicKey \<Rightarrow> peer_id \<Rightarrow> bool" where
  "silence_covered st now v k \<longleftrightarrow>
     (\<exists>s p. map_of (ss_slots (rl_slots st)) v = Some s \<and>
        map_of (sl_peers s) k = Some p \<and> pi_state p = PeerSquelched \<and> now < pi_expire p \<and>
        distinct (slot_getSelected s) \<and> length (slot_getSelected s) = MAX_SELECTED_PEERS \<and>
        (\<forall>k' \<in> set (slot_getSelected s). \<not> silent st now v k'))"

lemma linked_silence_covered:
  assumes "relay_linked D own st" "rl_time st \<le> now" "silent st now v k"
  shows "silence_covered st now v k"
proof -
  obtain s t where s: "map_of (ss_slots (rl_slots st)) v = Some s" "slot_inv s" "squelches s k = Some t" "now < t"
    using silent_squelched[OF assms] by blast
  obtain p where "map_of (sl_peers s) k = Some p" "pi_state p = PeerSquelched" "now < pi_expire p"
    using s(3,4) by (auto simp: squelches_def split: option.splits if_splits)
  moreover have "length (slot_getSelected s) = MAX_SELECTED_PEERS" using slot_selected_five[OF s(2)] s(3) by blast
  ultimately show ?thesis
    unfolding silence_covered_def using s(1) slot_getSelected_set(2)[OF s(2)] selected_not_silent[OF assms(1,2) s(1,2)] by blast
qed

definition slot_sound :: "Slot \<Rightarrow> bool" where
  "slot_sound s \<longleftrightarrow>
     set (sl_considered s) = {k. \<exists>p. map_of (sl_peers s) k = Some p \<and> MIN_MESSAGE_THRESHOLD < pi_count p} \<and>
     unat (sl_reachedThreshold s) = card {k. \<exists>p. map_of (sl_peers s) k = Some p \<and> MAX_MESSAGE_THRESHOLD < pi_count p} \<and>
     unat (sl_reachedThreshold s) < MAX_SELECTED_PEERS \<and>
     ((\<exists>k p. map_of (sl_peers s) k = Some p \<and> pi_state p = PeerSquelched) \<longrightarrow>
        distinct (slot_getSelected s) \<and> length (slot_getSelected s) = MAX_SELECTED_PEERS) \<and>
     (sl_state s = SlotSelected \<longrightarrow> slot_inState PeerCounting s = 0 \<and> length (slot_getSelected s) = MAX_SELECTED_PEERS)"

lemma slot_inv_sound:
  assumes "slot_inv s"
  shows "slot_sound s"
proof -
  have peers: "peers_inv (map_of (sl_peers s)) (set (sl_considered s)) (unat (sl_reachedThreshold s)) (sl_state s)"
    "al_distinct (sl_peers s)" using assms by (simp_all add: slot_inv_def)
  have sel: "length (slot_getSelected s) = card (keys_with (map_of (sl_peers s)) is_selected)"
    using slot_getSelected_set[OF assms] distinct_card by metis
  have "slot_inState PeerCounting s = 0" if "keys_with (map_of (sl_peers s)) (\<lambda>p. pi_state p = PeerCounting) = {}"
  proof -
    have "filter (\<lambda>(_, p). pi_state p = PeerCounting) (sl_peers s) = []"
      using that peers(2) by (force simp: filter_empty_conv keys_with_def)
    then show ?thesis by (simp add: slot_inState_def)
  qed
  moreover have "length (slot_getSelected s) = MAX_SELECTED_PEERS"
    if "map_of (sl_peers s) k = Some p" "pi_state p = PeerSquelched" for k p
    using slot_selected_five[OF assms, of k] that by (simp add: squelches_def)
  ultimately show ?thesis
    using peers(1) sel slot_getSelected_set(2)[OF assms] unfolding slot_sound_def peers_inv_def keys_with_def
    by (intro conjI impI; (elim conjE exE)?; simp)
qed

section \<open>An example run\<close>

text \<open>Six peers relay a validator's messages; the fifth that passes the threshold causes the selection.\<close>

definition sampleRandom :: relay_random where
  "sampleRandom = \<lparr>rand_index = \<lambda>n. 0, rand_seconds = \<lambda>k lo hi. lo\<rparr>"

definition sampleValidator :: PublicKey where
  "sampleValidator = 2 # replicate 32 7"

definition sampleEvents :: "relay_event list" where
  "sampleEvents = concat (replicate 12 (map (RelayMessage 0 sampleRandom 0 sampleValidator) [1, 2, 3, 4, 5, 6]))"

lemma guarded_sample:
  assumes "rl_time st = 0" "\<forall>ev \<in> set evs. \<exists>k \<in> D. ev = RelayMessage 0 sampleRandom 0 sampleValidator k"
  shows "guarded (relay_step h own) (relay_allowed D) evs st"
  using assms
proof (induction evs arbitrary: st)
  case (Cons ev evs)
  then obtain k where ev: "ev = RelayMessage 0 sampleRandom 0 sampleValidator k" "k \<in> D" by auto
  have "relay_allowed D ev st"
    using ev Cons.prems(1) by (simp add: rand_ok_def sampleRandom_def sampleValidator_def publicKeyType_def)
  moreover have "guarded (relay_step h own) (relay_allowed D) evs st'" if "relay_step h own ev st = Some st'" for st'
    using that ev Cons.prems(2) by (intro Cons.IH) (auto split: Option.bind_splits)
  ultimately show ?case by (cases "relay_step h own ev st") auto
qed simp

lemma sampleEvents_allowed:
  assumes "{1, 2, 3, 4, 5, 6} \<subseteq> D"
  shows "guarded (relay_step h own) (relay_allowed D) sampleEvents newRelay"
  using assms by (intro guarded_sample) (auto simp: newRelay_def sampleEvents_def)

lemma sampleEvents_silence:
  "map_option (\<lambda>st. rl_time st \<le> 10 \<and> silent st 10 sampleValidator 1)
     (foldM (relay_step documentedHandler (\<lambda>_. [])) sampleEvents newRelay) = Some True"
  by code_simp


section \<open>Properties\<close>

text \<open>
  (C14) Whatever the squelch handler does, every run of reduced relaying returns, so that no assertion of the
  slots fails. In every slot the pool holds exactly the peers above the lower threshold and the counter is
  the number of peers above the upper threshold, which stays below five. A slot in which a peer is
  squelched has exactly five selected peers, and so has a slot in the selected state, where no peer counts.
\<close>
theorem relay_slots_sound:
  assumes "guarded (relay_step h own) (relay_allowed UNIV) evs newRelay"
  shows "\<exists>st. foldM (relay_step h own) evs newRelay = Some st \<and>
    (\<forall>v s. map_of (ss_slots (rl_slots st)) v = Some s \<longrightarrow>
       set (sl_considered s) = {k. \<exists>p. map_of (sl_peers s) k = Some p \<and> MIN_MESSAGE_THRESHOLD < pi_count p} \<and>
       unat (sl_reachedThreshold s) = card {k. \<exists>p. map_of (sl_peers s) k = Some p \<and> MAX_MESSAGE_THRESHOLD < pi_count p} \<and>
       unat (sl_reachedThreshold s) < MAX_SELECTED_PEERS \<and>
       ((\<exists>k p. map_of (sl_peers s) k = Some p \<and> pi_state p = PeerSquelched) \<longrightarrow>
          distinct (slot_getSelected s) \<and> length (slot_getSelected s) = MAX_SELECTED_PEERS) \<and>
       (sl_state s = SlotSelected \<longrightarrow> slot_inState PeerCounting s = 0 \<and> length (slot_getSelected s) = MAX_SELECTED_PEERS))"
proof -
  obtain st where st: "foldM (relay_step h own) evs newRelay = Some st" "relay_inv UNIV st"
    using relay.run_total[OF newRelay_inv(1) assms] by blast
  have "slot_sound s" if "map_of (ss_slots (rl_slots st)) v = Some s" for v s
    using st(2) map_of_SomeD[OF that] by (intro slot_inv_sound) (auto simp: relay_inv_def slots_inv_def)
  with st(1) show ?thesis unfolding slot_sound_def by blast
qed

theorem relay_slots_sound_witness:
  "\<exists>st. foldM (relay_step documentedHandler (\<lambda>_. [])) sampleEvents newRelay = Some st \<and>
    (\<forall>v s. map_of (ss_slots (rl_slots st)) v = Some s \<longrightarrow> unat (sl_reachedThreshold s) < MAX_SELECTED_PEERS)"
  using relay_slots_sound[OF sampleEvents_allowed[OF subset_UNIV], of documentedHandler "\<lambda>_. []"] by blast

text \<open>
  (C13) With a squelch handler that does what its interface says, and at most 65 peers, a validator's messages
  keep a source: after any run, and at any later time, a peer that holds back the messages of a validator
  is one that the validator's slot has squelched, and the slot has selected five peers, each of which relays them.
\<close>
theorem relay_source_remains:
  assumes "finite D" "card D \<le> 65"
    "guarded (relay_step documentedHandler own) (relay_allowed D) evs newRelay"
  shows "\<exists>st. foldM (relay_step documentedHandler own) evs newRelay = Some st \<and>
    (\<forall>now v k. rl_time st \<le> now \<and> silent st now v k \<longrightarrow>
      (\<exists>s p. map_of (ss_slots (rl_slots st)) v = Some s \<and>
         map_of (sl_peers s) k = Some p \<and> pi_state p = PeerSquelched \<and> now < pi_expire p \<and>
         distinct (slot_getSelected s) \<and> length (slot_getSelected s) = MAX_SELECTED_PEERS \<and>
         (\<forall>k' \<in> set (slot_getSelected s). \<not> silent st now v k')))"
proof -
  have "relay_small D own newRelay" using assms(1,2) newRelay_inv(2) by (simp add: relay_small_def)
  then obtain st where st: "foldM (relay_step documentedHandler own) evs newRelay = Some st" "relay_linked D own st"
    using documented.run_total[OF _ assms(3)] by (auto simp: relay_small_def)
  have "silence_covered st now v k" if "rl_time st \<le> now" "silent st now v k" for now v k
    using st(2) that by (rule linked_silence_covered)
  with st(1) show ?thesis unfolding silence_covered_def by blast
qed

theorem relay_source_remains_witness:
  "\<exists>st. foldM (relay_step documentedHandler (\<lambda>_. [])) sampleEvents newRelay = Some st \<and> silent st 10 sampleValidator 1 \<and>
    (\<exists>s. map_of (ss_slots (rl_slots st)) sampleValidator = Some s \<and> length (slot_getSelected s) = MAX_SELECTED_PEERS \<and>
       (\<forall>k' \<in> set (slot_getSelected s). \<not> silent st 10 sampleValidator k'))"
proof -
  obtain st where "foldM (relay_step documentedHandler (\<lambda>_. [])) sampleEvents newRelay = Some st"
    "rl_time st \<le> 10" "silent st 10 sampleValidator 1"
    using sampleEvents_silence by auto
  then show ?thesis
    using relay_source_remains[of "{1, 2, 3, 4, 5, 6}", OF _ _ sampleEvents_allowed[OF subset_refl], of "\<lambda>_. []"] by simp blast
qed

text \<open>
  (C30) The squelch handler of the overlay never silences a peer: whatever validator, peer and duration it
  is called with, each of its messages is refused and charged as bad data, and after any run no peer holds back
  the messages of any validator.
\<close>
theorem overlay_squelch_without_effect:
  assumes "guarded (relay_step (overlayHandler connected enabled) own) (relay_allowed UNIV) evs newRelay"
  shows "(\<forall>v k d. list_all (\<lambda>m. \<forall>self now q. onSquelchMessage self now m q = (True, q)) (overlay_squelch connected enabled v k d)) \<and>
    (\<exists>st. foldM (relay_step (overlayHandler connected enabled) own) evs newRelay = Some st \<and> (\<forall>now v k. \<not> silent st now v k))"
proof
  show "\<forall>v k d. list_all (\<lambda>m. \<forall>self now q. onSquelchMessage self now m q = (True, q)) (overlay_squelch connected enabled v k d)"
    using overlay_squelch_refused unfolding list_all_iff by blast
  obtain st where "foldM (relay_step (overlayHandler connected enabled) own) evs newRelay = Some st" "relay_deaf st"
    using overlay.run_total[OF newRelay_inv(3) assms] by blast
  then show "\<exists>st. foldM (relay_step (overlayHandler connected enabled) own) evs newRelay = Some st \<and> (\<forall>now v k. \<not> silent st now v k)"
    by (simp add: relay_deaf_def silent_iff)
qed

theorem overlay_squelch_without_effect_witness:
  "length (overlay_squelch (\<lambda>_. True) True sampleValidator 1 300) = 100 \<and>
    (\<exists>st. foldM (relay_step (overlayHandler (\<lambda>_. True) True) (\<lambda>_. [])) sampleEvents newRelay = Some st \<and>
      (\<forall>now v k. \<not> silent st now v k))"
  using overlay_squelch_without_effect[OF sampleEvents_allowed[OF subset_UNIV], of "\<lambda>_. True" True "\<lambda>_. []"]
  by (simp add: overlay_squelch_def)

end
