(* ===== verification/Spec2Isabelle.thy ===== *)
theory Spec2Isabelle
  imports Engine_Properties Validations_Props Serializer_Props Base58_Props IOU_Amount_Props Relay_Props
begin

text \<open>
  A model of the consensus core of rippled as the repository has it, under \<^verbatim>\<open>src/src/ripple\<close> (paths
  below are relative to it), with the properties that make it correct.

  \<^bold>\<open>The program.\<close> A node of the network closes a ledger, proposes the set of transactions it wants in
  it, and exchanges positions with its peers until enough of them agree; then it accepts the ledger
  and validates it. \<open>Consensus\<close> (\<^verbatim>\<open>consensus/Consensus.h\<close>) runs these rounds. It asks its adaptor for
  ledgers, proposals and quorum, compares transaction sets (\<open>RCLTxSet\<close>, a wrapper of the hash tree
  \<open>SHAMap\<close>), keeps a \<open>DisputedTx\<close> for each transaction on which the sets differ, and votes on the close
  time. The validations of all nodes are collected in \<open>Validations\<close> (\<^verbatim>\<open>consensus/Validations.h\<close>), which
  keeps one vote for each trusted node in a \<open>LedgerTrie\<close> and reads from it the ledger the network
  prefers. What nodes send each other and store is written by \<open>Serializer\<close> and read by \<open>SerialIter\<close>;
  keys and accounts are shown as base58 tokens; issued currencies are amounts of type \<open>IOUAmount\<close>. So
  that not every peer relays every message of a validator, the overlay keeps a \<open>Slot\<close> for each validator
  (\<^verbatim>\<open>overlay/Slot.h\<close>), which selects five peers as the source of its messages and asks the others to
  be silent; what a node was asked is in the \<open>Squelch\<close> (\<^verbatim>\<open>overlay/Squelch.h\<close>) of the connection.

  \<^bold>\<open>Theories and what they model.\<close>
  \<^item> \<open>Prelude\<close>: machine types (hashes and node identifiers as words, network times as 32-bit words,
    conversions between \<open>int\<close> and \<open>size_t\<close>), association lists for hash maps, the option monad with
    assertions and folds, and the locale \<open>invariant_component\<close> of a state machine with an invariant.
  \<^item> \<open>Ledger_Timing\<close>: \<^verbatim>\<open>consensus/LedgerTiming.h\<close>. \<open>Consensus_Params\<close>: \<^verbatim>\<open>consensus/ConsensusParms.h\<close> and
    the decisions of \<^verbatim>\<open>consensus/Consensus.cpp\<close>. \<open>Consensus_Proposal\<close>: \<^verbatim>\<open>consensus/ConsensusProposal.h\<close>
    and \<^verbatim>\<open>consensus/ConsensusTypes.h\<close>. \<open>Disputed_Tx\<close>: \<^verbatim>\<open>consensus/DisputedTx.h\<close>. \<open>Consensus_Pause\<close>:
    \<open>Consensus::shouldPause\<close>.
  \<^item> \<open>Consensus_Engine\<close>: the class \<open>Consensus\<close>. Its members are the fields of one record, each method is a
    definition that takes and returns this record, the answers of the adaptor are a record of
    functions and values, and calls that have an effect outside are appended to a log of actions.
    \<open>Consensus_Inv\<close> has the invariant and the interface \<open>txset_interface\<close> of transaction sets;
    \<open>Consensus_Steps\<close>, \<open>Consensus_Rounds\<close> and \<open>Consensus_Events\<close> show that each method returns and keeps
    the invariant; \<open>Engine_Component\<close> puts the entry points together as a component.
  \<^item> \<open>Sha_Map\<close>: \<^verbatim>\<open>shamap/impl/SHAMap.cpp\<close>, \<^verbatim>\<open>SHAMapDelta.cpp\<close>, \<^verbatim>\<open>SHAMapNodeID.cpp\<close> and
    \<^verbatim>\<open>SHAMapInnerNode.cpp\<close>; \<open>Sha_Map_Inv\<close>, \<open>Sha_Map_Compare\<close> and \<open>Sha_Map_Props\<close> have its invariant,
    the correctness of the comparison, and the contract \<open>keyed_store\<close>. \<open>Rcl_TxSet\<close>:
    \<^verbatim>\<open>app/consensus/RCLCxTx.h\<close>, shown to provide \<open>txset_interface\<close>. \<open>Engine_Sample\<close> and
    \<open>Engine_Properties\<close>: a small network and the properties of the engine over these sets.
  \<^item> \<open>Ledger_Trie\<close>: \<^verbatim>\<open>consensus/LedgerTrie.h\<close>; \<open>Ledger_Trie_Inv\<close> and \<open>Ledger_Trie_Ops\<close> show that it
    implements a multiset over any ledgers with a history (locale \<open>ledger_history\<close>), and
    \<open>Ledger_Trie_Pref\<close> that \<open>getPreferred\<close> ends where a walk along single ledgers ends. \<open>Rcl_Ledger\<close>:
    \<open>RCLValidatedLedger\<close> of \<^verbatim>\<open>app/consensus/RCLValidations.cpp\<close>, which has such a history.
    \<open>Ledger_Trie_Props\<close>: the properties over these ledgers.
  \<^item> \<open>Aged_Map\<close>: the aged containers of \<^verbatim>\<open>beast/container\<close> as chronological lists. \<open>Validations\<close>:
    \<^verbatim>\<open>consensus/Validations.h\<close> with its adaptor and \<open>handleNewValidation\<close> of
    \<^verbatim>\<open>app/consensus/RCLValidations.cpp\<close>; \<open>Validations_Inv\<close>, \<open>Validations_Ops\<close>, \<open>Validations_Component\<close>,
    \<open>Validations_Frames\<close> and \<open>Validations_Props\<close> have its invariant, the operations that keep it, the
    component, what operations leave alone, and the properties.
  \<^item> \<open>Serializer\<close>: \<^verbatim>\<open>protocol/Serializer.h\<close> and \<^verbatim>\<open>protocol/impl/Serializer.cpp\<close>; \<open>Serializer_Props\<close>: each
    pair of writer and reader is a \<open>codec\<close>, and so are sequences of items.
  \<^item> \<open>Base58\<close>: \<^verbatim>\<open>protocol/impl/tokens.cpp\<close>; \<open>Base58_Props\<close>: the loops compute with numbers in base 58 and
    256, and tokens are read back.
  \<^item> \<open>IOU_Amount\<close>: \<^verbatim>\<open>basics/IOUAmount.h\<close> and \<^verbatim>\<open>basics/impl/IOUAmount.cpp\<close>; \<open>IOU_Amount_Props\<close>: amounts stay
    canonical, their order and the accuracy of the arithmetic. \<open>Exceptions\<close>: results of operations
    that throw, for the last three components.
  \<^item> \<open>Relay_Slot\<close>: \<^verbatim>\<open>overlay/Slot.h\<close> and \<^verbatim>\<open>overlay/ReduceRelayCommon.h\<close>; the calls of the squelch handler are
    results of the operations. \<open>Relay_Squelch\<close>: \<^verbatim>\<open>overlay/Squelch.h\<close>, \<open>squelch\<close> and \<open>unsquelch\<close> of
    \<^verbatim>\<open>overlay/impl/OverlayImpl.cpp\<close>, the handler of \<open>TMSquelch\<close> of \<^verbatim>\<open>overlay/impl/PeerImp.cpp\<close> and
    \<open>publicKeyType\<close>. \<open>Relay_Inv\<close> has the invariant of a slot and what its operations do to the squelches;
    \<open>Relay_System\<close> joins the slots of a node with the squelches of its peers; \<open>Relay_Props\<close> has the
    properties.

  \<^bold>\<open>What is shown.\<close>
  \<^item> Consensus engine: every sequence of calls that respects the contract of the adaptor returns, so no
    assertion fails and no empty optional is read, and keeps the invariant; the disputes are exactly
    the differences to the sets of the current peers, with the right votes; a ledger is accepted only
    after the minimum time, with an agreed close time and a verdict of \<open>checkConsensus\<close>; a node that
    does not propose sends no proposal; the close time with the most votes is elected.
  \<^item> Hash tree: insertions and deletions refine a finite map; the tree, and so its hash, depends only on
    the items; \<open>compare\<close> reports the differences.
  \<^item> Ledger trie and validations: the trie refines a multiset and passes the invariant check of the
    code; each node has one vote; a supermajority of nodes decides the preferred ledger; the sequence
    numbers of accepted validations increase; expiry keeps what is recent or to be kept.
  \<^item> Decisions: rounding of close times and their order, thresholds of agreement and of the avalanche,
    the pause for lagging validators, the sequence numbers of proposals.
  \<^item> Serialisation and tokens: round trips, and the errors of the readers.
  \<^item> Amounts: every operation gives a canonical amount or reports an overflow, without leaving the range
    of its machine integers; the comparisons agree with the values; the error of a sum is bounded; the
    rounding mode of \<open>mulRatio\<close> is ignored for quotients that are exact.
  \<^item> Reduced relaying: no assertion of the slots fails, their pool and counter are exact, and a slot with
    a squelched peer has five selected ones; with a handler that does what its interface says, a peer is
    silent for a validator only while five selected peers are not; the handler of the overlay has no
    effect, as its messages carry an empty key and are refused.

  \<^bold>\<open>Representation.\<close> A failed assertion, the use of an empty optional and other undefined behaviour is
  the value \<open>None\<close>, so a statement that a call returns \<open>Some\<close> excludes them. Exceptions are left values
  of a sum. Hash maps are association lists with distinct keys where the order of iteration does not
  matter for the result. Counters and times whose overflow matters are words; lengths and sequence
  numbers of the mathematical contract are naturals. Hash functions, the answers of the application
  and the ledgers that can be acquired are parameters; a property names what it needs of them, such as
  the absence of collisions between the trees at hand. The random choices of a slot are a parameter, with
  the range of \<open>rand_int\<close> as its contract. An operation of a slot reads the clock once, and its squelch
  messages reach the peers before the next event.

  \<^bold>\<open>Bounds and fuel.\<close> \<open>startRoundInternal\<close>, \<open>timerEntry\<close>, \<open>checkLedger\<close> and \<open>handleWrongLedger\<close> call each
  other; the model takes a recursion depth, two rounds suffice, and a deeper recursion gives the same
  result. Every other loop of the models is recursion with a termination proof: the hash tree has
  64 levels, its comparison consumes the trees on its stack, the preferred ledger descends the trie, and
  the search for a mismatch goes down from the smaller sequence number. \<open>compare\<close> is given the limit of 65536 differences that
  \<open>RCLTxSet\<close> passes, and the properties of the engine assume fewer transactions. Base58 strings have at most 64
  significant characters, which is why the round trip is stated for tokens of up to 41 bytes. The peers
  of a node are at most 65 where the silence of peers is linked to the slots: a squelch then lasts at most
  600 seconds, the age at which \<open>deleteIdlePeers\<close> forgets a slot, and with more peers a squelch may
  outlive its slot.

  \<^bold>\<open>Not modelled.\<close> Locks and threads: each method is one atomic step, as the locks of the classes make it.
  Output for people and tools (\<open>getJson\<close>, \<open>dump\<close>, journals). Of \<open>SHAMap\<close>: fetching from the node store and
  from peers, copy-on-write sharing and traversal for clients. Of the aged containers: buckets and
  rehashing. Of \<open>Serializer\<close>: readers at an offset other than \<open>get8\<close> and the vector-like accessors. The
  adaptor \<open>RCLConsensus\<close>, the application, ledgers and their views, transactors and payment paths, the
  validator lists, the overlay apart from reduced relaying, its bridge to libp2p, RPC, storage and the third-party
  cryptography: they are input and output, threads or generated and foreign code, or work on ledger
  views whose entries are not modelled; where the models use them they are parameters.
\<close>

end
